(* ===== verification/Prelude.thy ===== *)
theory Prelude
  imports Main "HOL-Library.Word"
begin

unbundle bit_operations_syntax

text \<open>
  Shared vocabulary of the development: the outcomes of C++ code that can go wrong, C strings,
  addresses, and the generic facts on lists, relations and machine words the component theories
  use. The collection \<open>outcome_simps\<close> holds the rules that take apart a chain of fallible steps.
\<close>

named_theorems outcome_simps \<open>rules for chains of fallible steps\<close>

section \<open>Outcomes of C++ code\<close>

text \<open>
  An operation either returns or does something the language leaves undefined. The second is a
  value here, so that "this never happens" and "this happens" are both theorems. \<open>Diverges\<close> stands
  for a loop that does not end.
\<close>

datatype fault = NullDeref | UseAfterFree | OutOfBounds | DivideByZero | AssertFail | Diverges

type_synonym 'a outcome = "fault + 'a"

type_synonym addr = nat

definition andthen :: "'e + 'a \<Rightarrow> ('a \<Rightarrow> 'e + 'b) \<Rightarrow> 'e + 'b" where
  "andthen m f = (case m of Inl e \<Rightarrow> Inl e | Inr x \<Rightarrow> f x)"

lemma andthen_simps [simp, outcome_simps]:
  "andthen (Inl e) f = Inl e"
  "andthen (Inr x) f = f x"
  by (simp_all add: andthen_def)

lemma andthen_Inr_iff [outcome_simps]:
  "andthen m f = Inr y \<longleftrightarrow> (\<exists>x. m = Inr x \<and> f x = Inr y)"
  by (cases m) auto

lemma andthen_Inl_iff [outcome_simps]:
  "andthen m f = Inl e \<longleftrightarrow> m = Inl e \<or> (\<exists>x. m = Inr x \<and> f x = Inl e)"
  by (cases m) auto

lemma andthen_cong [fundef_cong]:
  "m = m' \<Longrightarrow> (\<And>x. m' = Inr x \<Longrightarrow> f x = f' x) \<Longrightarrow> andthen m f = andthen m' f'"
  by (cases m') auto

definition of_opt :: "fault \<Rightarrow> 'a option \<Rightarrow> 'a outcome" where
  "of_opt e x = (case x of None \<Rightarrow> Inl e | Some y \<Rightarrow> Inr y)"

lemma of_opt_simps [simp, outcome_simps]:
  "of_opt e None = Inl e"
  "of_opt e (Some y) = Inr y"
  by (simp_all add: of_opt_def)

lemma of_opt_Inr_iff [simp, outcome_simps]: "of_opt e x = Inr y \<longleftrightarrow> x = Some y"
  by (cases x) auto

section \<open>C strings\<close>

text \<open>The bytes of an array up to its terminator: what \<open>strlen\<close> and \<open>strcpy\<close> see.\<close>

abbreviation NUL :: char where
  "NUL \<equiv> CHR 0x00"

definition cstr :: "char list \<Rightarrow> string" where
  "cstr bs = takeWhile (\<lambda>c. c \<noteq> NUL) bs"

lemma cstr_no_NUL [simp]: "NUL \<notin> set (cstr bs)"
  by (auto simp: cstr_def dest: set_takeWhileD)

lemma cstr_append_NUL [simp]: "NUL \<notin> set s \<Longrightarrow> cstr (s @ NUL # rest) = s"
  by (induction s) (auto simp: cstr_def)

lemma cstr_id [simp]: "NUL \<notin> set s \<Longrightarrow> cstr s = s"
  by (induction s) (auto simp: cstr_def)

section \<open>Machine words\<close>

lemma unat_and_of_nat_less:
  fixes x :: "'a::len word"
  assumes "0 < n"
  shows "unat (x AND of_nat (n - 1)) < n"
proof -
  have "unat (x AND of_nat (n - 1)) \<le> unat (of_nat (n - 1) :: 'a word)"
    by (rule word_and_le1 [THEN word_le_nat_alt [THEN iffD1]])
  also have "\<dots> \<le> n - 1"
    by (simp add: unat_of_nat)
  finally show ?thesis using assms by simp
qed

lemma unat_of_nat32: "i < 2 ^ 32 \<Longrightarrow> unat (of_nat i :: 32 word) = i"
  by (simp add: unat_of_nat)

lemma sint_of_nat32: "i < 2 ^ 31 \<Longrightarrow> sint (of_nat i :: 32 word) = int i"
  by (simp add: signed_of_nat signed_take_bit_int_eq_self)

lemma word_mod_less:
  fixes x m :: "'a::len word"
  shows "m \<noteq> 0 \<Longrightarrow> x mod m < m"
  by (simp add: word_less_nat_alt unat_mod_distrib) (metis mod_less_divisor unat_gt_0)

lemma sint_nonneg: "0 \<le> sint (w :: 32 word) \<Longrightarrow> sint w = uint w"
proof -
  assume "0 \<le> sint w"
  then have b: "\<not> bit (uint w) 31" using bit_last_iff [of w] by (simp add: bit_uint_iff)
  have "take_bit (Suc 31) (uint w) = uint w" using uint_lt2p [of w] by (simp add: take_bit_int_eq_self)
  then have "take_bit 31 (uint w) = uint w" using b by (simp only: take_bit_Suc_from_most) simp
  then show "sint w = uint w" using b by (simp add: sint_uint signed_take_bit_eq_if_positive)
qed

lemma sint_small: "uint (w :: 32 word) < 2 ^ 31 \<Longrightarrow> sint w = uint w"
proof -
  assume w: "uint w < 2 ^ 31"
  have "- (2 ^ 31) \<le> uint w" by (rule order_trans [OF _ uint_ge_0]) simp
  from signed_take_bit_int_eq_self [OF this w] show "sint w = uint w" by (simp add: sint_uint)
qed

lemma sint_mod_bounds:
  fixes r m :: "32 word"
  assumes "0 < sint m"
  shows "0 \<le> sint (r mod m)" "sint (r mod m) < sint m"
proof -
  have "m \<noteq> 0" using assms by auto
  then have "r mod m < m" by (rule word_mod_less)
  then have "uint (r mod m) < uint m" by (simp add: word_less_def)
  moreover have "sint m = uint m" using assms sint_nonneg [of m] by simp
  ultimately show "0 \<le> sint (r mod m)" "sint (r mod m) < sint m"
    using sint_small [of "r mod m"] sint_lt [of m] by simp_all
qed

lemma sint_add32:
  fixes a b :: "32 word"
  assumes "- (2 ^ 31) \<le> sint a + sint b" "sint a + sint b < 2 ^ 31"
  shows "sint (a + b) = sint a + sint b"
  using assms by (simp add: sint_word_ariths signed_take_bit_int_eq_self)

section \<open>Walking an acyclic finite relation\<close>

text \<open>
  A pointer chain is a functional relation on indices. In an acyclic one no walk is longer than
  the number of cells; this bounds every chain walk of the hash tables.
\<close>

lemma relpow_reach_card:
  assumes "acyclic r" "finite r" "(x, y) \<in> r ^^ k"
  shows "k < card (r\<^sup>* `` {x})"
  using assms(3)
proof (induction k arbitrary: x)
  case 0
  have "finite (r\<^sup>* `` {x})"
    using assms(2) by (metis finite_Image finite_rtrancl_Image finite.emptyI finite_insert)
  then show ?case by (simp add: card_gt_0_iff Image_singleton) blast
next
  case (Suc k)
  from Suc.prems obtain z where z: "(x, z) \<in> r" "(z, y) \<in> r ^^ k"
    by (meson relpow_Suc_D2)
  have fin: "finite (r\<^sup>* `` {x})"
    using assms(2) by (metis finite_rtrancl_Image finite.emptyI finite_insert)
  have "x \<notin> r\<^sup>* `` {z}"
    using assms(1) z(1) by (auto simp: acyclic_def dest: rtrancl_into_trancl2)
  moreover have "r\<^sup>* `` {z} \<subseteq> r\<^sup>* `` {x}"
    using z(1) by (auto intro: converse_rtrancl_into_rtrancl)
  ultimately have "r\<^sup>* `` {z} \<subset> r\<^sup>* `` {x}"
    by auto
  then have "card (r\<^sup>* `` {z}) < card (r\<^sup>* `` {x})"
    by (rule psubset_card_mono [OF fin])
  with Suc.IH [OF z(2)] show ?case by simp
qed

section \<open>Invariants of step relations\<close>

text \<open>
  The contract between a state machine and its invariant; the lemma carries the invariant along any
  sequence of steps.
\<close>

locale step_invariant =
  fixes step :: "'s \<Rightarrow> 's \<Rightarrow> bool" and inv :: "'s \<Rightarrow> bool"
  assumes step_keeps: "step s s' \<Longrightarrow> inv s \<Longrightarrow> inv s'"
begin

lemma steps_keep: "step\<^sup>*\<^sup>* s s' \<Longrightarrow> inv s \<Longrightarrow> inv s'"
  by (induction rule: rtranclp_induct) (auto intro: step_keeps)

end

text \<open>
  Sequences of operations and what they should do: an operation that does what its specification
  says, whenever the abstract values stay within some limit, gives sequences that do.
\<close>

fun run_all :: "('o \<Rightarrow> 's \<Rightarrow> ('r \<times> 's) outcome) \<Rightarrow> 'o list \<Rightarrow> 's \<Rightarrow> ('r list \<times> 's) outcome" where
  "run_all run [] s = Inr ([], s)"
| "run_all run (p # ops) s =
     andthen (run p s) (\<lambda>(r, s'). andthen (run_all run ops s') (\<lambda>(rs, s''). Inr (r # rs, s'')))"

fun spec_all :: "('o \<Rightarrow> 'a \<Rightarrow> 'r \<times> 'a) \<Rightarrow> 'o list \<Rightarrow> 'a \<Rightarrow> 'r list \<times> 'a" where
  "spec_all spec [] a = ([], a)"
| "spec_all spec (p # ops) a =
     (let (r, a') = spec p a; (rs, a'') = spec_all spec ops a' in (r # rs, a''))"

fun all_within :: "('a \<Rightarrow> bool) \<Rightarrow> ('o \<Rightarrow> 'a \<Rightarrow> 'r \<times> 'a) \<Rightarrow> 'o list \<Rightarrow> 'a \<Rightarrow> bool" where
  "all_within lim spec [] a = lim a"
| "all_within lim spec (p # ops) a = (lim a \<and> all_within lim spec ops (snd (spec p a)))"

locale simulation =
  fixes rel :: "'s \<Rightarrow> 'a \<Rightarrow> bool" and run :: "'o \<Rightarrow> 's \<Rightarrow> ('r \<times> 's) outcome"
    and spec :: "'o \<Rightarrow> 'a \<Rightarrow> 'r \<times> 'a" and lim :: "'a \<Rightarrow> bool"
  assumes simulates: "rel s a \<Longrightarrow> lim a \<Longrightarrow> lim (snd (spec p a)) \<Longrightarrow>
    \<exists>s'. run p s = Inr (fst (spec p a), s') \<and> rel s' (snd (spec p a))"
begin

lemma run_all_simulates:
  "rel s a \<Longrightarrow> all_within lim spec ops a \<Longrightarrow>
   \<exists>s'. run_all run ops s = Inr (fst (spec_all spec ops a), s') \<and> rel s' (snd (spec_all spec ops a))"
proof (induction ops arbitrary: s a)
  case (Cons p ops)
  have "lim (snd (spec p a))" using Cons.prems(2) by (cases ops) auto
  from simulates [OF Cons.prems(1) _ this] Cons.prems(2) obtain s' where
    s': "run p s = Inr (fst (spec p a), s')" "rel s' (snd (spec p a))" by auto
  from Cons.IH [OF s'(2)] Cons.prems(2) show ?case by (auto simp: s'(1) split: prod.splits)
qed simp

end

end
