(* ===== verification/SqObject.thy ===== *)
theory SqObject
  imports Prelude
begin

text \<open>
  The tagged values of the interpreter (\<open>utility/squirrel.h\<close>, \<open>utility/sqobject.h\<close>) on a 32-bit
  build: \<open>SQInteger\<close> and \<open>SQHash\<close> are 32 bits wide, \<open>SQFloat\<close> is an IEEE single carried by its bit
  pattern. A heap object is its address; a string object is its contents, which is what the
  interning of \<open>SQStringTable\<close> makes the address stand for. The conversion of a float to an
  integer (\<open>f2i\<close>) and the objects behind weak references (\<open>wr\<close>) are parameters.
\<close>

section \<open>Values\<close>

datatype sqobject =
    OT_NULL
  | OT_INTEGER "32 word"
  | OT_FLOAT "32 word"
  | OT_BOOL bool
  | OT_STRING string
  | OT_TABLE "32 word"
  | OT_ARRAY "32 word"
  | OT_USERDATA "32 word"
  | OT_CLOSURE "32 word"
  | OT_NATIVECLOSURE "32 word"
  | OT_GENERATOR "32 word"
  | OT_USERPOINTER "32 word"
  | OT_THREAD "32 word"
  | OT_FUNCPROTO "32 word"
  | OT_CLASS "32 word"
  | OT_INSTANCE "32 word"
  | OT_WEAKREF "32 word"
  | OT_OUTER "32 word"

fun sq_isnumeric :: "sqobject \<Rightarrow> bool" where
  "sq_isnumeric (OT_INTEGER _) = True"
| "sq_isnumeric (OT_FLOAT _) = True"
| "sq_isnumeric _ = False"

fun realval :: "(32 word \<Rightarrow> sqobject) \<Rightarrow> sqobject \<Rightarrow> sqobject" where
  "realval wr (OT_WEAKREF p) = wr p"
| "realval wr ob = ob"

fun tointeger :: "(32 word \<Rightarrow> 32 word) \<Rightarrow> sqobject \<Rightarrow> 32 word" where
  "tointeger f2i (OT_FLOAT x) = f2i x"
| "tointeger f2i (OT_INTEGER i) = i"
| "tointeger f2i _ = 0"

fun sq_getinteger :: "(32 word \<Rightarrow> 32 word) \<Rightarrow> sqobject \<Rightarrow> 32 word option" where
  "sq_getinteger f2i (OT_BOOL b) = Some (if b then 1 else 0)"
| "sq_getinteger f2i ob = (if sq_isnumeric ob then Some (tointeger f2i ob) else None)"

section \<open>Hashing\<close>

text \<open>
  \<open>_hashstr\<close>: the loop runs while at least \<open>step\<close> characters remain and reads one character per
  round, so a long string is hashed on a prefix of at most 32 characters or so.
\<close>

function hashstr_loop :: "nat \<Rightarrow> nat \<Rightarrow> 32 word \<Rightarrow> string \<Rightarrow> 32 word" where
  "hashstr_loop step l h s =
     (if l \<ge> step \<and> 0 < step
      then hashstr_loop step (l - step)
             (h XOR (push_bit 5 h + drop_bit 2 h + of_char (hd s))) (tl s)
      else h)"
  by pat_completeness auto
termination
  by (relation "measure (\<lambda>(step, l, h, s). l)") auto

declare hashstr_loop.simps [simp del]

definition hashstr :: "string \<Rightarrow> 32 word" where
  "hashstr s = (let l = length s in hashstr_loop (or (l div 32) 1) l (of_nat l) s)"

definition hashptr :: "32 word \<Rightarrow> 32 word" where
  "hashptr p = signed_drop_bit 3 p"

fun HashObj :: "(32 word \<Rightarrow> 32 word) \<Rightarrow> sqobject \<Rightarrow> 32 word" where
  "HashObj f2i (OT_STRING s) = hashstr s"
| "HashObj f2i (OT_FLOAT x) = f2i x"
| "HashObj f2i (OT_BOOL b) = (if b then 1 else 0)"
| "HashObj f2i (OT_INTEGER i) = i"
| "HashObj f2i OT_NULL = hashptr 0"
| "HashObj f2i (OT_TABLE p) = hashptr p"
| "HashObj f2i (OT_ARRAY p) = hashptr p"
| "HashObj f2i (OT_USERDATA p) = hashptr p"
| "HashObj f2i (OT_CLOSURE p) = hashptr p"
| "HashObj f2i (OT_NATIVECLOSURE p) = hashptr p"
| "HashObj f2i (OT_GENERATOR p) = hashptr p"
| "HashObj f2i (OT_USERPOINTER p) = hashptr p"
| "HashObj f2i (OT_THREAD p) = hashptr p"
| "HashObj f2i (OT_FUNCPROTO p) = hashptr p"
| "HashObj f2i (OT_CLASS p) = hashptr p"
| "HashObj f2i (OT_INSTANCE p) = hashptr p"
| "HashObj f2i (OT_WEAKREF p) = hashptr p"
| "HashObj f2i (OT_OUTER p) = hashptr p"

text \<open>
  The index object of an iteration: null starts it, an integer continues it; anything else fails
  an assertion.
\<close>

fun TranslateIndex :: "sqobject \<Rightarrow> (32 word) outcome" where
  "TranslateIndex OT_NULL = Inr 0"
| "TranslateIndex (OT_INTEGER i) = Inr i"
| "TranslateIndex _ = Inl AssertFail"

text \<open>
  The loop reads only characters the string has: with a step of at least one, the number of rounds
  is at most the number of characters left.
\<close>

lemma hashstr_loop_prefix:
  "l \<le> length s \<Longrightarrow> hashstr_loop step l h (s @ rest) = hashstr_loop step l h s"
proof (induction step l h s rule: hashstr_loop.induct)
  case (1 step l h s)
  show ?case
  proof (cases "l \<ge> step \<and> 0 < step")
    case True
    then obtain c cs where s: "s = c # cs"
      using "1.prems" by (cases s) auto
    have "hashstr_loop step (l - step)
            (h XOR (push_bit 5 h + drop_bit 2 h + of_char (hd s))) (tl s @ rest) =
          hashstr_loop step (l - step)
            (h XOR (push_bit 5 h + drop_bit 2 h + of_char (hd s))) (tl s)"
      using True "1.prems" by (intro "1.IH") auto
    with True s show ?thesis
      by (simp add: hashstr_loop.simps [of step l h])
  next
    case False
    then show ?thesis
      by (auto simp: hashstr_loop.simps [of step l h s] hashstr_loop.simps [of step l h "s @ rest"])
  qed
qed

end
