(* ===== verification/SqTable.thy ===== *)
theory SqTable
  imports SqObject "HOL-Library.Monad_Syntax"
begin

text \<open>
  The hash table of the interpreter (\<open>utility/sqtable.h\<close>, \<open>utility/sqtable.cpp\<close>): an array of nodes,
  each with a key, a value and a link to another node, and a pointer \<open>firstfree\<close> that only moves
  down. A key hangs on the chain that starts at its main position; a removed node keeps its link.
  Node pointers are indices here. A walk that would not end is \<open>None\<close>; every operation is shown to
  return \<open>Some\<close> on the tables the program can build, and the table to refine a finite map.
\<close>

section \<open>State\<close>

record hnode =
  val :: sqobject
  key :: sqobject
  nxt :: "nat option"

record sqtable =
  firstfree :: nat
  nodes :: "hnode list"
  numofnodes :: nat
  usednodes :: nat
  delegate :: "32 word option"

definition MINPOWER2 :: nat where
  "MINPOWER2 = 4"

abbreviation free_node :: hnode where
  "free_node \<equiv> \<lparr>val = OT_NULL, key = OT_NULL, nxt = None\<rparr>"

section \<open>Operations\<close>

definition AllocNodes :: "nat \<Rightarrow> sqtable \<Rightarrow> sqtable" where
  "AllocNodes nSize t =
     t\<lparr>numofnodes := nSize, nodes := replicate nSize free_node, firstfree := nSize - 1\<rparr>"

function pow2size :: "nat \<Rightarrow> nat \<Rightarrow> nat" where
  "pow2size nInitialSize p =
     (if nInitialSize > p \<and> 0 < p then pow2size nInitialSize (2 * p) else p)"
  by pat_completeness auto
termination
  by (relation "measure (\<lambda>(n, p). n - p)") auto

declare pow2size.simps [simp del]

definition Create :: "nat \<Rightarrow> sqtable" where
  "Create nInitialSize =
     AllocNodes (pow2size nInitialSize MINPOWER2)
       \<lparr>firstfree = 0, nodes = [], numofnodes = 0, usednodes = 0, delegate = None\<rparr>"

definition mainpos :: "(32 word \<Rightarrow> 32 word) \<Rightarrow> sqtable \<Rightarrow> sqobject \<Rightarrow> nat" where
  "mainpos f2i t k = unat (HashObj f2i k AND of_nat (numofnodes t - 1))"

text \<open>
  The do-while loop of \<open>_Get\<close>. Keys are equal when their types and raw values are, which is
  equality of the objects.
\<close>

fun Get_loop :: "nat \<Rightarrow> hnode list \<Rightarrow> sqobject \<Rightarrow> nat \<Rightarrow> nat option option" where
  "Get_loop 0 ns k n = None"
| "Get_loop (Suc fuel) ns k n =
     (if key (ns ! n) = k then Some (Some n)
      else case nxt (ns ! n) of
             None \<Rightarrow> Some None
           | Some n' \<Rightarrow> Get_loop fuel ns k n')"

definition Get_node :: "hnode list \<Rightarrow> sqobject \<Rightarrow> nat \<Rightarrow> nat option option" where
  "Get_node ns k hash = Get_loop (length ns) ns k hash"

text \<open>\<open>while (othern->next != mp)\<close>: the node before \<open>mp\<close> on the chain.\<close>

fun find_previous :: "nat \<Rightarrow> hnode list \<Rightarrow> nat \<Rightarrow> nat \<Rightarrow> nat option" where
  "find_previous 0 ns othern mp = None"
| "find_previous (Suc fuel) ns othern mp =
     (if nxt (ns ! othern) = Some mp then Some othern
      else case nxt (ns ! othern) of
             None \<Rightarrow> None
           | Some n \<Rightarrow> find_previous fuel ns n mp)"

text \<open>The loop that corrects \<open>firstfree\<close>: the next free node at or below it, if there is one.\<close>

fun correct_firstfree :: "hnode list \<Rightarrow> nat \<Rightarrow> nat option" where
  "correct_firstfree ns 0 = (if key (ns ! 0) = OT_NULL \<and> nxt (ns ! 0) = None then Some 0 else None)"
| "correct_firstfree ns (Suc i) =
     (if key (ns ! Suc i) = OT_NULL \<and> nxt (ns ! Suc i) = None then Some (Suc i)
      else correct_firstfree ns i)"

definition upd_node :: "nat \<Rightarrow> (hnode \<Rightarrow> hnode) \<Rightarrow> hnode list \<Rightarrow> hnode list" where
  "upd_node i f ns = ns[i := f (ns ! i)]"

text \<open>
  The part of \<open>NewSlot\<close> that finds a node for a key that is not in the table: the node, and the
  array after the colliding node was moved or the chain extended.
\<close>

definition place_key ::
  "(32 word \<Rightarrow> 32 word) \<Rightarrow> sqtable \<Rightarrow> sqobject \<Rightarrow> (nat \<times> hnode list) option" where
  "place_key f2i t k =
     (let ns = nodes t; mp = mainpos f2i t k in
      if key (ns ! mp) \<noteq> OT_NULL then
        let n = firstfree t; mph = mainpos f2i t (key (ns ! mp)) in
        if mp > n \<and> mph \<noteq> mp then
          do {
            othern \<leftarrow> find_previous (length ns) ns mph mp;
            let ns1 = upd_node othern (\<lambda>x. x\<lparr>nxt := Some n\<rparr>) ns;
            let ns2 = upd_node n (\<lambda>x. x\<lparr>key := key (ns1 ! mp), val := val (ns1 ! mp),
                                          nxt := nxt (ns1 ! mp)\<rparr>) ns1;
            Some (mp, upd_node mp (\<lambda>x. free_node) ns2)
          }
        else
          let ns1 = upd_node n (\<lambda>x. x\<lparr>nxt := nxt (ns ! mp)\<rparr>) ns;
              ns2 = upd_node mp (\<lambda>x. x\<lparr>nxt := Some n\<rparr>) ns1
          in Some (n, ns2)
      else Some (mp, ns))"

text \<open>
  \<open>Rehash\<close>, over the \<open>NewSlot\<close> it calls: the elements are inserted again into a larger, smaller or
  equal array; without \<open>force\<close>, only when the load calls for it.
\<close>

fun reinsert ::
  "(sqtable \<Rightarrow> sqobject \<Rightarrow> sqobject \<Rightarrow> (sqtable \<times> bool) option) \<Rightarrow> hnode list \<Rightarrow> sqtable
    \<Rightarrow> sqtable option" where
  "reinsert ins [] t = Some t"
| "reinsert ins (old # ns) t =
     (if key old \<noteq> OT_NULL
      then do { (t', _) \<leftarrow> ins t (key old) (val old); reinsert ins ns t' }
      else reinsert ins ns t)"

definition Rehash_with ::
  "(sqtable \<Rightarrow> sqobject \<Rightarrow> sqobject \<Rightarrow> (sqtable \<times> bool) option) \<Rightarrow> bool \<Rightarrow> sqtable
    \<Rightarrow> sqtable option" where
  "Rehash_with ins force t =
     (let oldsize = (if numofnodes t < 4 then 4 else numofnodes t);
          nold = nodes t;
          nelems = usednodes t;
          again = (\<lambda>nSize. reinsert ins (take oldsize nold) ((AllocNodes nSize t)\<lparr>usednodes := 0\<rparr>))
      in if nelems \<ge> oldsize - oldsize div 4 then again (oldsize * 2)
         else if nelems \<le> oldsize div 4 \<and> oldsize > MINPOWER2 then again (oldsize div 2)
         else if force then again oldsize
         else Some t)"

text \<open>
  \<open>NewSlot\<close> and \<open>Rehash\<close> call each other; the first argument bounds the depth of that recursion,
  and three is enough (\<open>NewSlot_total\<close>). The result says whether the code returned true.
\<close>

fun NewSlot_rec ::
  "nat \<Rightarrow> (32 word \<Rightarrow> 32 word) \<Rightarrow> sqtable \<Rightarrow> sqobject \<Rightarrow> sqobject \<Rightarrow> (sqtable \<times> bool) option" where
  "NewSlot_rec 0 f2i t k v = None"
| "NewSlot_rec (Suc depth) f2i t k v =
     do {
       found \<leftarrow> Get_node (nodes t) k (mainpos f2i t k);
       case found of
         Some n \<Rightarrow> Some (t\<lparr>nodes := upd_node n (\<lambda>x. x\<lparr>val := v\<rparr>) (nodes t)\<rparr>, False)
       | None \<Rightarrow>
           do {
             (mp, ns) \<leftarrow> place_key f2i t k;
             let ns' = upd_node mp (\<lambda>x. x\<lparr>key := k\<rparr>) ns;
             case correct_firstfree ns' (firstfree t) of
               Some ff \<Rightarrow>
                 Some (t\<lparr>nodes := upd_node mp (\<lambda>x. x\<lparr>val := v\<rparr>) ns', firstfree := ff,
                         usednodes := usednodes t + 1\<rparr>, True)
             | None \<Rightarrow>
                 do {
                   t' \<leftarrow> Rehash_with (NewSlot_rec depth f2i) True (t\<lparr>nodes := ns', firstfree := 0\<rparr>);
                   NewSlot_rec depth f2i t' k v
                 }
           }
     }"

definition NewSlot ::
  "(32 word \<Rightarrow> 32 word) \<Rightarrow> sqtable \<Rightarrow> sqobject \<Rightarrow> sqobject \<Rightarrow> (sqtable \<times> bool) option" where
  "NewSlot f2i t k v = NewSlot_rec 3 f2i t k v"

definition Rehash :: "(32 word \<Rightarrow> 32 word) \<Rightarrow> bool \<Rightarrow> sqtable \<Rightarrow> sqtable option" where
  "Rehash f2i force t = Rehash_with (NewSlot f2i) force t"

definition Get ::
  "(32 word \<Rightarrow> 32 word) \<Rightarrow> (32 word \<Rightarrow> sqobject) \<Rightarrow> sqtable \<Rightarrow> sqobject \<Rightarrow> sqobject option option" where
  "Get f2i wr t k =
     (if k = OT_NULL then Some None
      else do {
        n \<leftarrow> Get_node (nodes t) k (mainpos f2i t k);
        Some (map_option (\<lambda>i. realval wr (val (nodes t ! i))) n)
      })"

definition SetSlot ::
  "(32 word \<Rightarrow> 32 word) \<Rightarrow> sqtable \<Rightarrow> sqobject \<Rightarrow> sqobject \<Rightarrow> (sqtable \<times> bool) option" where
  "SetSlot f2i t k v =
     do {
       n \<leftarrow> Get_node (nodes t) k (mainpos f2i t k);
       Some (case n of
               Some i \<Rightarrow> (t\<lparr>nodes := upd_node i (\<lambda>x. x\<lparr>val := v\<rparr>) (nodes t)\<rparr>, True)
             | None \<Rightarrow> (t, False))
     }"

definition Remove :: "(32 word \<Rightarrow> 32 word) \<Rightarrow> sqtable \<Rightarrow> sqobject \<Rightarrow> sqtable option" where
  "Remove f2i t k =
     do {
       n \<leftarrow> Get_node (nodes t) k (mainpos f2i t k);
       case n of
         Some i \<Rightarrow>
           Rehash f2i False
             (t\<lparr>nodes := upd_node i (\<lambda>x. x\<lparr>val := OT_NULL, key := OT_NULL\<rparr>) (nodes t),
                usednodes := usednodes t - 1\<rparr>)
       | None \<Rightarrow> Some t
     }"

definition ClearNodes :: "sqtable \<Rightarrow> sqtable" where
  "ClearNodes t = t\<lparr>nodes := map (\<lambda>x. x\<lparr>key := OT_NULL, val := OT_NULL\<rparr>) (nodes t)\<rparr>"

definition Finalize :: "sqtable \<Rightarrow> sqtable" where
  "Finalize t = (ClearNodes t)\<lparr>delegate := None\<rparr>"

definition Clear :: "(32 word \<Rightarrow> 32 word) \<Rightarrow> sqtable \<Rightarrow> sqtable option" where
  "Clear f2i t = Rehash f2i True ((ClearNodes t)\<lparr>usednodes := 0\<rparr>)"

definition CountUsed :: "sqtable \<Rightarrow> nat" where
  "CountUsed t = usednodes t"

text \<open>
  \<open>Next\<close>: the first used node at or after an index, with the index to go on from. The index is
  signed and only compared with the size, so a negative one reads before the array.
\<close>

function Next_loop :: "sqtable \<Rightarrow> nat \<Rightarrow> (nat \<times> hnode) option" where
  "Next_loop t idx =
     (if idx < numofnodes t
      then if key (nodes t ! idx) \<noteq> OT_NULL then Some (idx + 1, nodes t ! idx)
           else Next_loop t (idx + 1)
      else None)"
  by pat_completeness auto
termination
  by (relation "measure (\<lambda>(t, idx). numofnodes t - idx)") auto

declare Next_loop.simps [simp del]

definition Next ::
  "(32 word \<Rightarrow> sqobject) \<Rightarrow> bool \<Rightarrow> sqtable \<Rightarrow> sqobject
     \<Rightarrow> ((nat \<times> sqobject \<times> sqobject) option) outcome" where
  "Next wr getweakrefs t refpos =
     andthen (TranslateIndex refpos)
       (\<lambda>i. if sint i < 0 then Inl OutOfBounds
            else Inr (map_option
              (\<lambda>(idx, n). (idx, key n, if getweakrefs then val n else realval wr (val n)))
              (Next_loop t (unat i))))"

lemma Next_loop_bounds:
  "Next_loop t i = Some (j, n) \<Longrightarrow> i < j \<and> j \<le> numofnodes t"
proof (induction t i rule: Next_loop.induct)
  case (1 t i)
  then show ?case
    by (subst (asm) (2) Next_loop.simps) (auto split: if_splits)
qed

text \<open>\<open>Clone\<close> (without \<open>_FAST_CLONE\<close>): every entry is inserted into a new table of the same size.\<close>

function Clone_loop :: "(32 word \<Rightarrow> 32 word) \<Rightarrow> sqtable \<Rightarrow> nat \<Rightarrow> sqtable \<Rightarrow> sqtable option" where
  "Clone_loop f2i t ridx nt =
     (case Next_loop t ridx of
        None \<Rightarrow> Some nt
      | Some (ridx', n) \<Rightarrow>
          do {
            (nt', _) \<leftarrow> NewSlot f2i nt (key n) (val n);
            Clone_loop f2i t ridx' nt'
          })"
  by pat_completeness auto
termination
  by (relation "measure (\<lambda>(f2i, t, ridx, nt). numofnodes t - ridx)")
     (auto dest: Next_loop_bounds)

declare Clone_loop.simps [simp del]

definition Clone :: "(32 word \<Rightarrow> 32 word) \<Rightarrow> sqtable \<Rightarrow> sqtable option" where
  "Clone f2i t =
     do {
       nt \<leftarrow> Clone_loop f2i t 0 (Create (numofnodes t));
       Some (nt\<lparr>delegate := delegate t\<rparr>)
     }"

text \<open>
  The loop a script's \<open>foreach\<close> runs over a table (\<open>SQVM::FOREACH_OP\<close>): \<open>Next\<close> from the null index,
  then from the index it returned, until it returns -1.
\<close>

fun foreach_table ::
  "nat \<Rightarrow> (32 word \<Rightarrow> sqobject) \<Rightarrow> sqtable \<Rightarrow> sqobject \<Rightarrow> (sqobject \<times> sqobject) list outcome" where
  "foreach_table 0 wr t o4 = Inl Diverges"
| "foreach_table (Suc fuel) wr t o4 =
     andthen (Next wr False t o4)
       (\<lambda>r. case r of
              None \<Rightarrow> Inr []
            | Some (nrefidx, o2, o3) \<Rightarrow>
                andthen (foreach_table fuel wr t (OT_INTEGER (of_nat nrefidx)))
                  (\<lambda>rest. Inr ((o2, o3) # rest)))"

end
