(* ===== verification/TableChains.thy ===== *)
theory TableChains
  imports SqTable
begin

text \<open>
  The chains of the interpreter's hash table: the links between nodes as a relation, the invariant
  \<open>nodes_ok\<close> on the node array, the walks of \<open>_Get\<close> and of the search for a predecessor, and the
  three ways \<open>NewSlot\<close> makes room for a key, each of which keeps the invariant.
\<close>

section \<open>Links and walks\<close>

definition edges :: "hnode list \<Rightarrow> (nat \<times> nat) set" where
  "edges ns = {(i, j). i < length ns \<and> nxt (ns ! i) = Some j}"

definition live :: "hnode list \<Rightarrow> nat set" where
  "live ns = {i. i < length ns \<and> key (ns ! i) \<noteq> OT_NULL}"

definition chains_ok :: "nat \<Rightarrow> hnode list \<Rightarrow> bool" where
  "chains_ok b ns \<longleftrightarrow>
     (\<forall>i j. (i, j) \<in> edges ns \<longrightarrow> j < length ns \<and> b \<le> j) \<and>
     (\<forall>i i' j. (i, j) \<in> edges ns \<longrightarrow> (i', j) \<in> edges ns \<longrightarrow> i = i') \<and>
     acyclic (edges ns)"

lemma finite_edges [simp]: "finite (edges ns)"
proof -
  have "edges ns \<subseteq> (\<lambda>i. (i, the (nxt (ns ! i)))) ` {..<length ns}"
    by (auto simp: edges_def image_iff)
  then show ?thesis by (rule finite_subset) simp
qed

lemma finite_live [simp]: "finite (live ns)"
  by (simp add: live_def)

lemma edges_functional: "(i, j) \<in> edges ns \<Longrightarrow> (i, j') \<in> edges ns \<Longrightarrow> j = j'"
  by (simp add: edges_def)

lemma chains_okD:
  assumes "chains_ok b ns"
  shows "(i, j) \<in> edges ns \<Longrightarrow> j < length ns"
    and "(i, j) \<in> edges ns \<Longrightarrow> b \<le> j"
    and "(i, j) \<in> edges ns \<Longrightarrow> (i', j) \<in> edges ns \<Longrightarrow> i = i'"
    and "acyclic (edges ns)"
  using assms unfolding chains_ok_def by blast+

lemma chain_in_range:
  assumes "chains_ok b ns" "(i, j) \<in> (edges ns)\<^sup>*" "i < length ns"
  shows "j < length ns"
  using assms(2,3) chains_okD(1) [OF assms(1)] by (induction rule: rtrancl_induct) auto

lemma no_long_walk:
  assumes "chains_ok b ns" "n < length ns"
  shows "(n, j) \<notin> edges ns ^^ length ns"
proof
  assume "(n, j) \<in> edges ns ^^ length ns"
  then have "length ns < card ((edges ns)\<^sup>* `` {n})"
    by (rule relpow_reach_card [OF chains_okD(4) [OF assms(1)] finite_edges])
  also have "\<dots> \<le> card {..<length ns}"
    using chain_in_range [OF assms(1) _ assms(2)] by (intro card_mono) auto
  finally show False by simp
qed

lemma Get_loop_diverges:
  "Get_loop fuel ns k n = None \<Longrightarrow> chains_ok b ns \<Longrightarrow> n < length ns \<Longrightarrow>
   \<exists>j. (n, j) \<in> edges ns ^^ fuel"
proof (induction fuel arbitrary: n)
  case (Suc fuel)
  then obtain n' where n': "nxt (ns ! n) = Some n'" "Get_loop fuel ns k n' = None"
    by (auto split: if_splits option.splits)
  then have e: "(n, n') \<in> edges ns" using Suc.prems by (simp add: edges_def)
  then have "n' < length ns" using chains_okD(1) Suc.prems(2) by blast
  then obtain j where "(n', j) \<in> edges ns ^^ fuel" using Suc n' by blast
  with e show ?case by (meson relpow_Suc_I2)
qed auto

lemma Get_node_total:
  assumes "chains_ok b ns" "n < length ns"
  obtains r where "Get_node ns k n = Some r"
  using Get_loop_diverges [OF _ assms] no_long_walk [OF assms]
  unfolding Get_node_def by (cases "Get_loop (length ns) ns k n") blast+

lemma Get_loop_found:
  "Get_loop fuel ns k n = Some (Some i) \<Longrightarrow> chains_ok b ns \<Longrightarrow> n < length ns \<Longrightarrow>
   key (ns ! i) = k \<and> (n, i) \<in> (edges ns)\<^sup>*"
proof (induction fuel arbitrary: n)
  case (Suc fuel)
  show ?case
  proof (cases "key (ns ! n) = k")
    case True
    with Suc.prems show ?thesis by simp
  next
    case False
    with Suc.prems obtain n' where n': "nxt (ns ! n) = Some n'" "Get_loop fuel ns k n' = Some (Some i)"
      by (auto split: option.splits)
    then have e: "(n, n') \<in> edges ns" using Suc.prems by (simp add: edges_def)
    then have "n' < length ns" using chains_okD(1) Suc.prems(2) by blast
    with Suc n' e show ?thesis by (blast intro: converse_rtrancl_into_rtrancl)
  qed
qed auto

lemma Get_loop_absent:
  "Get_loop fuel ns k n = Some None \<Longrightarrow> chains_ok b ns \<Longrightarrow> n < length ns \<Longrightarrow>
   (n, i) \<in> (edges ns)\<^sup>* \<Longrightarrow> key (ns ! i) \<noteq> k"
proof (induction fuel arbitrary: n)
  case (Suc fuel)
  from Suc.prems have nk: "key (ns ! n) \<noteq> k" by (auto split: if_splits)
  show ?case
  proof (cases "i = n")
    case True
    with nk show ?thesis by simp
  next
    case False
    with Suc.prems(4) obtain n' where n': "(n, n') \<in> edges ns" "(n', i) \<in> (edges ns)\<^sup>*"
      by (auto elim: converse_rtranclE)
    then have "n' < length ns" using chains_okD(1) Suc.prems(2) by blast
    moreover have "Get_loop fuel ns k n' = Some None"
      using Suc.prems(1) nk n'(1) by (auto simp: edges_def split: if_splits)
    ultimately show ?thesis using Suc n' by blast
  qed
qed auto

section \<open>The invariant\<close>

definition keys_reachable :: "(sqobject \<Rightarrow> nat) \<Rightarrow> hnode list \<Rightarrow> bool" where
  "keys_reachable mp ns \<longleftrightarrow> (\<forall>i \<in> live ns. (mp (key (ns ! i)), i) \<in> (edges ns)\<^sup>*)"

definition keys_distinct :: "hnode list \<Rightarrow> bool" where
  "keys_distinct ns \<longleftrightarrow> (\<forall>i \<in> live ns. \<forall>j \<in> live ns. key (ns ! i) = key (ns ! j) \<longrightarrow> i = j)"

definition guests_ok :: "(sqobject \<Rightarrow> nat) \<Rightarrow> hnode list \<Rightarrow> bool" where
  "guests_ok mp ns \<longleftrightarrow>
     (\<forall>i \<in> live ns. \<forall>j \<in> live ns. mp (key (ns ! i)) \<noteq> i \<longrightarrow> mp (key (ns ! j)) \<noteq> i)"

definition is_free :: "hnode list \<Rightarrow> nat \<Rightarrow> bool" where
  "is_free ns i \<longleftrightarrow> key (ns ! i) = OT_NULL \<and> nxt (ns ! i) = None"

definition nodes_ok :: "(sqobject \<Rightarrow> nat) \<Rightarrow> nat \<Rightarrow> hnode list \<Rightarrow> bool" where
  "nodes_ok mp ff ns \<longleftrightarrow>
     ff < length ns \<and> is_free ns ff \<and> chains_ok (Suc ff) ns \<and>
     keys_reachable mp ns \<and> keys_distinct ns \<and> guests_ok mp ns"

definition placed_ok :: "(sqobject \<Rightarrow> nat) \<Rightarrow> nat \<Rightarrow> hnode list \<Rightarrow> bool" where
  "placed_ok mp ff ns \<longleftrightarrow>
     chains_ok ff ns \<and> (\<forall>i. (i, ff) \<in> edges ns \<longrightarrow> \<not> is_free ns ff) \<and>
     keys_reachable mp ns \<and> keys_distinct ns \<and> guests_ok mp ns"

lemma nodes_okD:
  assumes "nodes_ok mp ff ns"
  shows "ff < length ns" "is_free ns ff" "chains_ok (Suc ff) ns"
    "keys_reachable mp ns" "keys_distinct ns" "guests_ok mp ns"
  using assms by (auto simp: nodes_ok_def)

lemma chains_ok_mono: "chains_ok b ns \<Longrightarrow> b' \<le> b \<Longrightarrow> chains_ok b' ns"
  unfolding chains_ok_def by force

lemma length_upd_node [simp]: "length (upd_node i f ns) = length ns"
  by (simp add: upd_node_def)

lemma nth_upd_node: "i < length ns \<Longrightarrow> upd_node j f ns ! i = (if i = j then f (ns ! i) else ns ! i)"
  by (auto simp: upd_node_def nth_list_update)

lemma free_no_out: "is_free ns n \<Longrightarrow> (n, j) \<notin> edges ns"
  by (auto simp: edges_def is_free_def)

lemma firstfree_no_in: "nodes_ok mp ff ns \<Longrightarrow> (i, ff) \<notin> edges ns"
  using chains_okD(2) [OF nodes_okD(3)] by fastforce

lemma reach_from_free: "is_free ns n \<Longrightarrow> (n, j) \<in> (edges ns)\<^sup>* \<Longrightarrow> j = n"
  by (auto elim: converse_rtranclE dest: free_no_out)

lemma no_key_hashes_to_firstfree:
  assumes "nodes_ok mp ff ns" "j \<in> live ns"
  shows "mp (key (ns ! j)) \<noteq> ff"
proof
  assume "mp (key (ns ! j)) = ff"
  then have "(ff, j) \<in> (edges ns)\<^sup>*"
    using assms nodes_okD(4) by (force simp: keys_reachable_def)
  then have "j = ff" using reach_from_free nodes_okD(2) assms(1) by blast
  with assms show False using nodes_okD(2) by (auto simp: live_def is_free_def)
qed

lemma guest_above_firstfree:
  assumes "nodes_ok mp ff ns" "m \<in> live ns" "mp (key (ns ! m)) \<noteq> m"
  shows "ff < m" "\<exists>p. (p, m) \<in> edges ns"
proof -
  have "(mp (key (ns ! m)), m) \<in> (edges ns)\<^sup>*"
    using assms nodes_okD(4) by (auto simp: keys_reachable_def)
  with assms(3) obtain p where p: "(p, m) \<in> edges ns"
    by (metis rtranclE)
  then show "\<exists>p. (p, m) \<in> edges ns" by blast
  from p show "ff < m" using chains_okD(2) [OF nodes_okD(3) [OF assms(1)] p] by simp
qed

subsection \<open>The main position is free\<close>

lemma place_at_main:
  assumes ok: "nodes_ok mp ff ns" and k: "k \<noteq> OT_NULL" "\<forall>i \<in> live ns. key (ns ! i) \<noteq> k"
    and m: "mp k < length ns" "key (ns ! mp k) = OT_NULL"
  defines "ns' \<equiv> upd_node (mp k) (\<lambda>x. x\<lparr>key := k\<rparr>) ns"
  shows "placed_ok mp ff ns'" "live ns' = insert (mp k) (live ns)"
proof -
  have E: "edges ns' = edges ns"
    by (auto simp: edges_def ns'_def nth_upd_node split: if_splits)
  have L: "live ns' = insert (mp k) (live ns)"
    using m k by (auto simp: live_def ns'_def nth_upd_node split: if_splits)
  have K: "key (ns' ! i) = (if i = mp k then k else key (ns ! i))" if "i < length ns" for i
    using that by (simp add: ns'_def nth_upd_node)
  have lt: "i \<in> live ns \<Longrightarrow> i < length ns" for i by (simp add: live_def)
  have mnl: "mp k \<notin> live ns" using m by (simp add: live_def)
  have "chains_ok (Suc ff) ns'"
    using nodes_okD(3) [OF ok] unfolding chains_ok_def E by (simp add: ns'_def)
  then have "chains_ok ff ns'" by (rule chains_ok_mono) simp
  moreover have "\<forall>i. (i, ff) \<in> edges ns' \<longrightarrow> \<not> is_free ns' ff"
    using firstfree_no_in [OF ok] by (simp add: E)
  moreover have "keys_reachable mp ns'"
    using nodes_okD(4) [OF ok] mnl lt m by (auto simp: keys_reachable_def L E K)
  moreover have "keys_distinct ns'"
    using nodes_okD(5) [OF ok] k mnl lt m by (auto simp: keys_distinct_def L K)
  moreover have "guests_ok mp ns'"
    using nodes_okD(6) [OF ok] mnl lt m by (auto simp: guests_ok_def L K)
  ultimately show "placed_ok mp ff ns'" by (simp add: placed_ok_def)
  show "live ns' = insert (mp k) (live ns)" by (rule L)
qed

subsection \<open>A new node is chained behind the main position\<close>

lemma acyclic_splice:
  assumes "acyclic r" "n \<notin> Field r" "m \<noteq> n"
    and "r' \<subseteq> insert (m, n) (r \<union> {(n, x) |x. (m, x) \<in> r})"
    and fun_r: "\<And>x y. (m, x) \<in> r \<Longrightarrow> (m, y) \<in> r \<Longrightarrow> x = y"
  shows "acyclic r'"
proof -
  have nm: "(n, m) \<notin> r\<^sup>*"
    using assms(2,3) by (metis FieldI1 converse_rtranclE)
  then have ac: "acyclic (insert (m, n) r)"
    using assms(1) by (simp add: acyclic_insert)
  show ?thesis
  proof (cases "\<exists>x. (m, x) \<in> r")
    case False
    then show ?thesis using ac assms(4) by (auto intro: acyclic_subset)
  next
    case True
    then obtain x where x: "(m, x) \<in> r" by blast
    have "(x, n) \<notin> (insert (m, n) r)\<^sup>*"
    proof
      assume "(x, n) \<in> (insert (m, n) r)\<^sup>*"
      moreover have "(x, n) \<notin> r\<^sup>*"
        using x assms(2) by (metis FieldI2 rtranclE)
      ultimately have "(x, m) \<in> r\<^sup>*" by (auto simp: rtrancl_insert)
      with x assms(1) show False
        by (auto simp: acyclic_def dest: rtrancl_into_trancl2)
    qed
    then have "acyclic (insert (n, x) (insert (m, n) r))"
      using ac by (simp add: acyclic_insert)
    moreover have "r' \<subseteq> insert (n, x) (insert (m, n) r)"
      using assms(4) fun_r x by auto
    ultimately show ?thesis by (rule acyclic_subset)
  qed
qed

lemma place_behind_main:
  assumes ok: "nodes_ok mp ff ns" and k: "k \<noteq> OT_NULL" "\<forall>i \<in> live ns. key (ns ! i) \<noteq> k"
    and m: "mp k < length ns" "key (ns ! mp k) \<noteq> OT_NULL" "mp (key (ns ! mp k)) = mp k"
  defines "ns1 \<equiv> upd_node ff (\<lambda>x. x\<lparr>nxt := nxt (ns ! mp k)\<rparr>) ns"
  defines "ns2 \<equiv> upd_node (mp k) (\<lambda>x. x\<lparr>nxt := Some ff\<rparr>) ns1"
  defines "ns' \<equiv> upd_node ff (\<lambda>x. x\<lparr>key := k\<rparr>) ns2"
  shows "placed_ok mp ff ns'" "live ns' = insert ff (live ns)" "\<not> is_free ns' ff"
proof -
  let ?m = "mp k"
  note D = nodes_okD [OF ok]
  have ffm: "ff \<noteq> ?m" using D(2) m by (auto simp: is_free_def)
  have len: "length ns' = length ns" by (simp add: ns'_def ns2_def ns1_def)
  have ff: "ff < length ns" by (rule D(1))
  have N: "nxt (ns' ! i) = (if i = ?m then Some ff else if i = ff then nxt (ns ! ?m) else nxt (ns ! i))"
    and K: "key (ns' ! i) = (if i = ff then k else key (ns ! i))" if "i < length ns" for i
    using that ffm by (auto simp: ns'_def ns2_def ns1_def nth_upd_node)
  have E: "(i, j) \<in> edges ns' \<longleftrightarrow>
      (if i = ?m then j = ff else if i = ff then (?m, j) \<in> edges ns else (i, j) \<in> edges ns)" for i j
    using m ff by (auto simp: edges_def len N)
  have L: "live ns' = insert ff (live ns)"
    using k ff by (auto simp: live_def len K split: if_splits)
  have ffnl: "ff \<notin> live ns" using D(2) by (simp add: live_def is_free_def)
  have lt: "i \<in> live ns \<Longrightarrow> i < length ns" for i by (simp add: live_def)
  have ml: "?m \<in> live ns" using m by (simp add: live_def)
  have sub: "edges ns \<subseteq> (edges ns')\<^sup>*"
  proof (rule subrelI)
    fix i j assume ij: "(i, j) \<in> edges ns"
    show "(i, j) \<in> (edges ns')\<^sup>*"
    proof (cases "i = ?m")
      case True
      then have "(?m, ff) \<in> edges ns'" "(ff, j) \<in> edges ns'" using ij ffm by (auto simp: E)
      with True show ?thesis by (meson r_into_rtrancl rtrancl_trans)
    next
      case False
      then have "(i, j) \<in> edges ns'" using ij free_no_out [OF D(2)] by (auto simp: E)
      then show ?thesis by blast
    qed
  qed
  then have reach: "(i, j) \<in> (edges ns)\<^sup>* \<Longrightarrow> (i, j) \<in> (edges ns')\<^sup>*" for i j
    using rtrancl_subset_rtrancl by blast
  have nf: "\<not> is_free ns' ff" using k ff by (simp add: is_free_def K)
  have tgt: "(i, j) \<in> edges ns \<Longrightarrow> j < length ns \<and> ff < j" for i j
    using chains_okD(1,2) [OF D(3)] by (metis Suc_le_eq)
  have "acyclic (edges ns')"
  proof (rule acyclic_splice [where r = "edges ns" and n = ff and m = ?m])
    show "acyclic (edges ns)" by (rule chains_okD(4) [OF D(3)])
    show "ff \<notin> Field (edges ns)"
      using free_no_out [OF D(2)] firstfree_no_in [OF ok] by (auto simp: Field_def)
    show "edges ns' \<subseteq> insert (?m, ff) (edges ns \<union> {(ff, x) |x. (?m, x) \<in> edges ns})"
      by (auto simp: E split: if_splits)
  qed (use ffm edges_functional in auto)
  moreover have "i = i'" if "(i, j) \<in> edges ns'" "(i', j) \<in> edges ns'" for i i' j
  proof -
    have src: "if j = ff then i = ?m else (if i = ff then ?m else i, j) \<in> edges ns \<and> i \<noteq> ?m"
      if "(i, j) \<in> edges ns'" for i
      using that firstfree_no_in [OF ok] ffm by (auto simp: E split: if_splits)
    show ?thesis
    proof (cases "j = ff")
      case True
      then show ?thesis using src [OF that(1)] src [OF that(2)] by simp
    next
      case False
      then have "(if i = ff then ?m else i, j) \<in> edges ns" "(if i' = ff then ?m else i', j) \<in> edges ns"
        using src [OF that(1)] src [OF that(2)] by simp_all
      then have "(if i = ff then ?m else i) = (if i' = ff then ?m else i')"
        by (rule chains_okD(3) [OF D(3)])
      then show ?thesis using False src [OF that(1)] src [OF that(2)] by (simp split: if_splits)
    qed
  qed
  moreover have "j < length ns' \<and> ff \<le> j" if "(i, j) \<in> edges ns'" for i j
    using that tgt ff by (auto simp: E len less_imp_le split: if_splits)
  ultimately have "chains_ok ff ns'" unfolding chains_ok_def by blast
  moreover have "keys_reachable mp ns'"
  proof -
    have "(?m, ff) \<in> (edges ns')\<^sup>*" by (auto simp: E)
    then show ?thesis
      using D(4) reach ffnl lt ff by (auto simp: keys_reachable_def L K)
  qed
  moreover have "keys_distinct ns'"
    using D(5) k ffnl lt ff by (auto simp: keys_distinct_def L K)
  moreover have "guests_ok mp ns'"
    unfolding guests_ok_def
  proof (intro ballI impI)
    fix i j assume i: "i \<in> live ns'" and j: "j \<in> live ns'" and g: "mp (key (ns' ! i)) \<noteq> i"
    show "mp (key (ns' ! j)) \<noteq> i"
    proof (cases "j = ff")
      case True
      then show ?thesis using i g m ff ffm lt by (cases "i = ff") (auto simp: L K)
    next
      case False
      then show ?thesis
        using i j g D(6) no_key_hashes_to_firstfree [OF ok] ff ffnl lt
        by (cases "i = ff") (auto simp: L K guests_ok_def)
    qed
  qed
  ultimately show "placed_ok mp ff ns'" using nf by (simp add: placed_ok_def)
  show "live ns' = insert ff (live ns)" by (rule L)
  show "\<not> is_free ns' ff" by (rule nf)
qed

subsection \<open>The colliding node moves to the free node\<close>

lemma acyclic_inv_image: "acyclic r \<Longrightarrow> acyclic (inv_image r f)"
proof -
  assume ac: "acyclic r"
  have "(x, y) \<in> (inv_image r f)\<^sup>+ \<Longrightarrow> (f x, f y) \<in> r\<^sup>+" for x y
    by (induction rule: trancl_induct) (auto intro: trancl_into_trancl)
  with ac show ?thesis by (auto simp: acyclic_def)
qed

lemma move_colliding:
  assumes ok: "nodes_ok mp ff ns" and k: "k \<noteq> OT_NULL" "\<forall>i \<in> live ns. key (ns ! i) \<noteq> k"
    and m: "mp k < length ns" "key (ns ! mp k) \<noteq> OT_NULL" "mp (key (ns ! mp k)) \<noteq> mp k"
    and p: "(p, mp k) \<in> edges ns"
  defines "ns1 \<equiv> upd_node p (\<lambda>x. x\<lparr>nxt := Some ff\<rparr>) ns"
  defines "ns2 \<equiv> upd_node ff (\<lambda>x. x\<lparr>key := key (ns1 ! mp k), val := val (ns1 ! mp k),
                                       nxt := nxt (ns1 ! mp k)\<rparr>) ns1"
  defines "ns3 \<equiv> upd_node (mp k) (\<lambda>x. free_node) ns2"
  defines "ns' \<equiv> upd_node (mp k) (\<lambda>x. x\<lparr>key := k\<rparr>) ns3"
  shows "placed_ok mp ff ns'" "live ns' = insert ff (live ns)" "\<not> is_free ns' ff"
    "val (ns' ! ff) = val (ns ! mp k)"
proof -
  let ?m = "mp k"
  let ?r = "\<lambda>x. if x = ?m then ff else if x = ff then ?m else x"
  note D = nodes_okD [OF ok]
  have ff: "ff < length ns" by (rule D(1))
  have ffm: "ff \<noteq> ?m" using D(2) m by (auto simp: is_free_def)
  have pff: "p \<noteq> ff" using p free_no_out [OF D(2)] by auto
  have nself: "(i, i) \<notin> edges ns" for i
    using chains_okD(4) [OF D(3)] by (auto simp: acyclic_def)
  have pm: "p \<noteq> ?m" using p nself by auto
  have plen: "p < length ns" using p by (simp add: edges_def)
  have len: "length ns' = length ns" by (simp add: ns'_def ns3_def ns2_def ns1_def)
  have N: "nxt (ns' ! i) = (if i = ?m then None else if i = ff then nxt (ns ! ?m)
             else if i = p then Some ff else nxt (ns ! i))"
    and K: "key (ns' ! i) = (if i = ?m then k else if i = ff then key (ns ! ?m) else key (ns ! i))"
    if "i < length ns" for i
    using that ffm pff pm m plen ff
    by (auto simp: ns'_def ns3_def ns2_def ns1_def nth_upd_node)
  show "val (ns' ! ff) = val (ns ! ?m)"
    using ffm pff pm m plen ff by (simp add: ns'_def ns3_def ns2_def ns1_def nth_upd_node)
  have out_ff: "(ff, j) \<notin> edges ns" for j using free_no_out [OF D(2)] by blast
  have in_ff: "(i, ff) \<notin> edges ns" for i using firstfree_no_in [OF ok] by blast
  have in_m: "(i, ?m) \<in> edges ns \<Longrightarrow> i = p" for i
    using chains_okD(3) [OF D(3)] p by blast
  have E: "edges ns' = inv_image (edges ns) ?r"
  proof (rule set_eqI, clarify)
    fix i j
    have "(i, j) \<in> edges ns' \<longleftrightarrow> i < length ns \<and> nxt (ns' ! i) = Some j"
      by (simp add: edges_def len)
    also have "\<dots> \<longleftrightarrow> (?r i, ?r j) \<in> edges ns"
    proof (cases "i < length ns")
      case True
      consider "i = ?m" | "i = ff" | "i = p" | "i \<noteq> ?m" "i \<noteq> ff" "i \<noteq> p" by blast
      then show ?thesis
      proof cases
        case 1
        then show ?thesis using True out_ff by (simp add: N)
      next
        case 2
        have "nxt (ns ! ?m) = Some j \<longleftrightarrow> (?m, j) \<in> edges ns" using m by (simp add: edges_def)
        with 2 show ?thesis using True ffm nself in_ff by (simp add: N)
      next
        case 3
        have "(p, x) \<in> edges ns \<longleftrightarrow> x = ?m" for x using p by (auto simp: edges_def)
        moreover have "?r j = ?m \<longleftrightarrow> j = ff" using ffm by auto
        ultimately show ?thesis using 3 True pm pff by (auto simp: N)
      next
        case 4
        have "nxt (ns ! i) = Some j \<longleftrightarrow> (i, j) \<in> edges ns" using True by (simp add: edges_def)
        with 4 show ?thesis using True in_m in_ff by (auto simp: N)
      qed
    next
      case False
      then show ?thesis using m ff by (auto simp: edges_def)
    qed
    finally show "(i, j) \<in> edges ns' \<longleftrightarrow> (i, j) \<in> inv_image (edges ns) ?r"
      by (simp add: in_inv_image)
  qed
  have rr: "?r (?r x) = x" for x by simp
  have r_inj: "x = y" if "?r x = ?r y" for x y using that by (simp split: if_splits)
  have L: "live ns' = insert ff (live ns)"
    using k ff m ffm by (auto simp: live_def len K split: if_splits)
  have nf: "\<not> is_free ns' ff" using m ff ffm by (simp add: is_free_def K)
  have ml: "?m \<in> live ns" using m by (simp add: live_def)
  have ffnl: "ff \<notin> live ns" using D(2) by (simp add: live_def is_free_def)
  have lt: "i \<in> live ns \<Longrightarrow> i < length ns" for i by (simp add: live_def)
  have reach: "(?r i, ?r j) \<in> (edges ns')\<^sup>*" if "(i, j) \<in> (edges ns)\<^sup>*" for i j
    using that
  proof (induction rule: rtrancl_induct)
    case (step y z)
    then have "(?r (?r y), ?r (?r z)) \<in> edges ns" by (simp only: rr)
    then have "(?r y, ?r z) \<in> edges ns'" by (simp only: E in_inv_image)
    with step.IH show ?case by (rule rtrancl_into_rtrancl)
  qed simp
  have nomain: "mp (key (ns ! i)) \<noteq> ?m" if "i \<in> live ns" for i
    using D(6) that ml m(3) by (auto simp: guests_ok_def)
  have noff: "mp (key (ns ! i)) \<noteq> ff" if "i \<in> live ns" for i
    using no_key_hashes_to_firstfree [OF ok that] .
  have tgt: "(i, j) \<in> edges ns \<Longrightarrow> j < length ns \<and> ff < j" for i j
    using chains_okD(1,2) [OF D(3)] by (metis Suc_le_eq)
  have "acyclic (edges ns')"
    unfolding E by (rule acyclic_inv_image) (rule chains_okD(4) [OF D(3)])
  moreover have "i = i'" if "(i, j) \<in> edges ns'" "(i', j) \<in> edges ns'" for i i' j
  proof -
    have "(?r i, ?r j) \<in> edges ns" "(?r i', ?r j) \<in> edges ns"
      using that by (simp_all only: E in_inv_image)
    then have "?r i = ?r i'" by (rule chains_okD(3) [OF D(3)])
    then show ?thesis by (rule r_inj)
  qed
  moreover have "j < length ns' \<and> ff \<le> j" if "(i, j) \<in> edges ns'" for i j
    using that tgt [of "?r i" "?r j"] ff m by (auto simp: E len split: if_splits)
  ultimately have "chains_ok ff ns'" unfolding chains_ok_def by blast
  moreover have "keys_reachable mp ns'"
    unfolding keys_reachable_def
  proof
    fix i assume i: "i \<in> live ns'"
    show "(mp (key (ns' ! i)), i) \<in> (edges ns')\<^sup>*"
    proof (cases "i = ?m")
      case True
      then show ?thesis using m by (simp add: K)
    next
      case False
      let ?o = "?r i"
      have o: "?o \<in> live ns" using i False ml by (auto simp: L)
      have "(mp (key (ns ! ?o)), ?o) \<in> (edges ns)\<^sup>*" using D(4) o by (auto simp: keys_reachable_def)
      then have *: "(?r (mp (key (ns ! ?o))), ?r ?o) \<in> (edges ns')\<^sup>*" by (rule reach)
      have "?r (mp (key (ns ! ?o))) = mp (key (ns ! ?o))"
        using nomain [OF o] noff [OF o] by (simp only: if_False)
      with * have "(mp (key (ns ! ?o)), i) \<in> (edges ns')\<^sup>*" by (simp only: rr)
      moreover have "key (ns' ! i) = key (ns ! ?o)"
        using i False ff lt by (auto simp: L K)
      ultimately show ?thesis by simp
    qed
  qed
  moreover have "keys_distinct ns'"
  proof -
    have ko: "key (ns' ! i) = key (ns ! ?r i) \<and> ?r i \<in> live ns" if "i \<in> live ns'" "i \<noteq> ?m" for i
      using that ff lt ml by (auto simp: L K)
    have km: "key (ns' ! ?m) = k" using m by (simp add: K)
    show ?thesis
      unfolding keys_distinct_def
    proof (intro ballI impI)
      fix i j assume i: "i \<in> live ns'" and j: "j \<in> live ns'" and e: "key (ns' ! i) = key (ns' ! j)"
      show "i = j"
      proof (cases "i = ?m \<or> j = ?m")
        case True
        then show ?thesis using i j e k(2) ko km by metis
      next
        case False
        then have "i \<noteq> ?m" "j \<noteq> ?m" by simp_all
        note oi = ko [OF i this(1)] and oj = ko [OF j this(2)]
        have "key (ns ! ?r i) = key (ns ! ?r j)" using e by (simp only: oi oj)
        then have "?r i = ?r j"
          by (rule D(5) [unfolded keys_distinct_def, rule_format, OF conjunct2 [OF oi] conjunct2 [OF oj]])
        then show ?thesis by (rule r_inj)
      qed
    qed
  qed
  moreover have "guests_ok mp ns'"
    unfolding guests_ok_def
  proof (intro ballI impI)
    fix i j assume i: "i \<in> live ns'" and j: "j \<in> live ns'" and g: "mp (key (ns' ! i)) \<noteq> i"
    have im: "i \<noteq> ?m" using g m by (auto simp: K)
    show "mp (key (ns' ! j)) \<noteq> i"
    proof (cases "j = ?m")
      case True
      then show ?thesis using im m by (auto simp: K)
    next
      case False
      then have j': "key (ns' ! j) = key (ns ! ?r j)" "?r j \<in> live ns"
        using j ff lt ml by (auto simp: L K)
      show ?thesis
      proof (cases "i = ff")
        case True
        then show ?thesis using noff [OF j'(2)] j' by simp
      next
        case False
        then have "i \<in> live ns" "mp (key (ns ! i)) \<noteq> i"
          using i im g lt by (auto simp: L K)
        then show ?thesis using D(6) j' by (auto simp: guests_ok_def)
      qed
    qed
  qed
  ultimately show "placed_ok mp ff ns'" using nf by (simp add: placed_ok_def)
  show "live ns' = insert ff (live ns)" by (rule L)
  show "\<not> is_free ns' ff" by (rule nf)
qed

section \<open>Predecessors and free nodes\<close>

lemma walk_length:
  assumes "chains_ok b ns" "n < length ns" "(n, j) \<in> edges ns ^^ k"
  shows "k < length ns"
proof -
  have "k < card ((edges ns)\<^sup>* `` {n})"
    by (rule relpow_reach_card [OF chains_okD(4) [OF assms(1)] finite_edges assms(3)])
  also have "\<dots> \<le> card {..<length ns}"
    using chain_in_range [OF assms(1) _ assms(2)] by (intro card_mono) auto
  finally show ?thesis by simp
qed

lemma find_previous_walk:
  "(o', m) \<in> edges ns ^^ Suc k \<Longrightarrow> k < fuel \<Longrightarrow>
   \<exists>p. find_previous fuel ns o' m = Some p \<and> (p, m) \<in> edges ns"
proof (induction fuel arbitrary: o' k)
  case (Suc fuel)
  from Suc.prems(1) obtain n where n: "(o', n) \<in> edges ns" "(n, m) \<in> edges ns ^^ k"
    by (metis relpow_Suc_D2)
  then have nx: "nxt (ns ! o') = Some n" by (simp add: edges_def)
  show ?case
  proof (cases "n = m")
    case True
    then show ?thesis using nx n by simp
  next
    case False
    then obtain k' where "k = Suc k'" using n(2) by (cases k) auto
    then show ?thesis using Suc.IH [of n k'] Suc.prems n nx False by simp
  qed
qed simp

lemma find_previous_total:
  assumes "chains_ok b ns" "(s, m) \<in> (edges ns)\<^sup>*" "s \<noteq> m" "s < length ns"
  obtains p where "find_previous (length ns) ns s m = Some p" "(p, m) \<in> edges ns"
proof -
  obtain j where j: "(s, m) \<in> edges ns ^^ j" using assms(2) rtrancl_imp_relpow by blast
  then obtain k where k: "j = Suc k" using assms(3) by (cases j) auto
  have "k < length ns" using walk_length [OF assms(1,4) j] k by simp
  then show ?thesis using find_previous_walk j k that by blast
qed

lemma correct_firstfree_Some:
  "correct_firstfree ns ff = Some f \<Longrightarrow>
     f \<le> ff \<and> is_free ns f \<and> (\<forall>i. f < i \<and> i \<le> ff \<longrightarrow> \<not> is_free ns i)"
  by (induction ns ff rule: correct_firstfree.induct)
     (auto simp: is_free_def le_Suc_eq split: if_splits)

lemma correct_firstfree_None:
  "correct_firstfree ns ff = None \<Longrightarrow> i \<le> ff \<Longrightarrow> \<not> is_free ns i"
  by (induction ns ff rule: correct_firstfree.induct)
     (auto simp: is_free_def le_Suc_eq split: if_splits)

lemma placed_next_free:
  assumes "placed_ok mp ff ns" "ff < length ns" "correct_firstfree ns ff = Some f"
  shows "nodes_ok mp f ns"
proof -
  have f: "f \<le> ff" "is_free ns f" using correct_firstfree_Some [OF assms(3)] by auto
  have c: "chains_ok ff ns" using assms(1) by (simp add: placed_ok_def)
  have "Suc f \<le> j" if "(i, j) \<in> edges ns" for i j
  proof (cases "f = ff")
    case True
    then show ?thesis
      using that f assms(1) chains_okD(2) [OF c that] by (cases "j = ff") (auto simp: placed_ok_def)
  next
    case False
    then show ?thesis using f chains_okD(2) [OF c that] by simp
  qed
  then have "chains_ok (Suc f) ns" using c by (auto simp: chains_ok_def)
  then show ?thesis using assms f by (simp add: nodes_ok_def placed_ok_def)
qed

end
