(* ===== verification/TableMap.thy ===== *)
theory TableMap
  imports TableChains
begin

text \<open>
  The hash table refines a finite map: \<open>lookup\<close> is the map a node array stands for, \<open>table_ok\<close> the
  invariant of a table, and every operation is shown to return, to keep \<open>table_ok\<close> and to act on
  \<open>lookup\<close> as its specification says. The locale \<open>slot_inserter\<close> is the contract \<open>Rehash\<close> and \<open>Clone\<close>
  have with the insertion they loop over; it is interpreted twice, for tables that cannot fill up
  (the arrays \<open>Rehash\<close> fills) and for arbitrary ones.
\<close>

section \<open>The map a table stands for\<close>

definition entries :: "hnode list \<Rightarrow> (sqobject \<times> sqobject) set" where
  "entries ns = (\<lambda>i. (key (ns ! i), val (ns ! i))) ` live ns"

definition lookup :: "hnode list \<Rightarrow> sqobject \<rightharpoonup> sqobject" where
  "lookup ns k = (if k = OT_NULL then None else map_option val (find (\<lambda>n. key n = k) ns))"

lemma lookup_Some_in: "lookup ns k = Some v \<Longrightarrow> (k, v) \<in> entries ns"
  by (auto simp: lookup_def entries_def live_def find_Some_iff image_iff split: if_splits)

lemma lookup_entries:
  assumes "keys_distinct ns"
  shows "lookup ns k = Some v \<longleftrightarrow> (k, v) \<in> entries ns"
proof
  assume e: "(k, v) \<in> entries ns"
  then obtain i where i: "i \<in> live ns" "k = key (ns ! i)" "v = val (ns ! i)"
    by (auto simp: entries_def)
  then have "find (\<lambda>n. key n = k) ns \<noteq> None"
    unfolding find_None_iff live_def by (metis (mono_tags, lifting) mem_Collect_eq nth_mem)
  then obtain w where w: "lookup ns k = Some w" using i by (auto simp: lookup_def live_def)
  from lookup_Some_in [OF this] obtain j where j: "j \<in> live ns" "k = key (ns ! j)" "w = val (ns ! j)"
    by (auto simp: entries_def)
  then have "j = i" using assms i by (auto simp: keys_distinct_def)
  with j i w show "lookup ns k = Some v" by simp
qed (rule lookup_Some_in)

lemma lookup_eqI:
  "keys_distinct ns \<Longrightarrow> (\<And>k v. (k, v) \<in> entries ns \<longleftrightarrow> m k = Some v) \<Longrightarrow> lookup ns = m"
  by (rule ext, rule option.expand) (metis lookup_entries option.collapse option.sel option.simps(3))+

lemma entries_key_not_null: "(k, v) \<in> entries ns \<Longrightarrow> k \<noteq> OT_NULL"
  by (auto simp: entries_def live_def)

lemma entries_upd_val:
  assumes "i \<in> live ns"
  shows "entries (upd_node i (\<lambda>x. x\<lparr>val := v\<rparr>) ns) =
     insert (key (ns ! i), v) ((\<lambda>j. (key (ns ! j), val (ns ! j))) ` (live ns - {i}))"
proof -
  let ?ns = "upd_node i (\<lambda>x. x\<lparr>val := v\<rparr>) ns"
  have i: "i < length ns" using assms by (simp add: live_def)
  have L: "live ?ns = insert i (live ns - {i})" using assms
    by (auto simp: live_def nth_upd_node split: if_splits)
  have "entries ?ns = (\<lambda>j. (key (?ns ! j), val (?ns ! j))) ` insert i (live ns - {i})"
    unfolding entries_def L ..
  also have "\<dots> = insert (key (ns ! i), v) ((\<lambda>j. (key (?ns ! j), val (?ns ! j))) ` (live ns - {i}))"
    unfolding image_insert using i by (simp only: nth_upd_node) simp
  also have "(\<lambda>j. (key (?ns ! j), val (?ns ! j))) ` (live ns - {i}) =
             (\<lambda>j. (key (ns ! j), val (ns ! j))) ` (live ns - {i})"
    by (rule image_cong) (auto simp: nth_upd_node live_def)
  finally show ?thesis .
qed

lemma sel_upd_node:
  assumes "\<And>x. g (f x) = g x"
  shows "g (upd_node i f ns ! j) = g (ns ! j)"
proof (cases "i < length ns \<and> i = j")
  case True
  then show ?thesis by (simp add: upd_node_def assms)
next
  case False
  then have "upd_node i f ns ! j = ns ! j"
    by (cases "i < length ns") (auto simp: upd_node_def list_update_beyond)
  then show ?thesis by simp
qed

lemma upd_val_invariant:
  "live (upd_node i (\<lambda>x. x\<lparr>val := v\<rparr>) ns) = live ns"
  "edges (upd_node i (\<lambda>x. x\<lparr>val := v\<rparr>) ns) = edges ns"
  "placed_ok mp ff (upd_node i (\<lambda>x. x\<lparr>val := v\<rparr>) ns) \<longleftrightarrow> placed_ok mp ff ns"
  "is_free (upd_node i (\<lambda>x. x\<lparr>val := v\<rparr>) ns) j \<longleftrightarrow> is_free ns j"
  "key (upd_node i (\<lambda>x. x\<lparr>val := v\<rparr>) ns ! j) = key (ns ! j)"
proof -
  let ?ns = "upd_node i (\<lambda>x. x\<lparr>val := v\<rparr>) ns"
  have K: "key (?ns ! j) = key (ns ! j)" and N: "nxt (?ns ! j) = nxt (ns ! j)" for j
    by (simp_all add: sel_upd_node)
  show "key (?ns ! j) = key (ns ! j)" by (rule K)
  show L: "live ?ns = live ns" by (simp add: live_def K)
  show E: "edges ?ns = edges ns" by (simp add: edges_def N)
  show F: "is_free ?ns j \<longleftrightarrow> is_free ns j" for j by (simp add: is_free_def K N)
  show "placed_ok mp ff ?ns \<longleftrightarrow> placed_ok mp ff ns"
    by (simp add: placed_ok_def chains_ok_def keys_reachable_def keys_distinct_def guests_ok_def L E F K)
qed

lemma keys_distinct_upd_val [simp]:
  "keys_distinct (upd_node i (\<lambda>x. x\<lparr>val := v\<rparr>) ns) \<longleftrightarrow> keys_distinct ns"
  by (simp add: keys_distinct_def upd_val_invariant)

lemma nodes_ok_upd_val [simp]:
  "nodes_ok mp ff (upd_node i (\<lambda>x. x\<lparr>val := v\<rparr>) ns) \<longleftrightarrow> nodes_ok mp ff ns"
  by (simp add: nodes_ok_def chains_ok_def keys_reachable_def guests_ok_def upd_val_invariant)

lemma correct_firstfree_upd_val [simp]:
  "correct_firstfree (upd_node i (\<lambda>x. x\<lparr>val := v\<rparr>) ns) j = correct_firstfree ns j"
proof -
  have "nxt (upd_node i (\<lambda>x. x\<lparr>val := v\<rparr>) ns ! j) = nxt (ns ! j)" for j
    by (simp add: sel_upd_node)
  then show ?thesis by (induction j) (simp_all add: upd_val_invariant)
qed

section \<open>Placing a key\<close>

definition no_tombstones :: "hnode list \<Rightarrow> bool" where
  "no_tombstones ns \<longleftrightarrow> (\<forall>i < length ns. key (ns ! i) = OT_NULL \<longrightarrow> nxt (ns ! i) = None)"

abbreviation entry :: "hnode list \<Rightarrow> nat \<Rightarrow> sqobject \<times> sqobject" where
  "entry ns i \<equiv> (key (ns ! i), val (ns ! i))"

definition table_ok :: "(32 word \<Rightarrow> 32 word) \<Rightarrow> sqtable \<Rightarrow> bool" where
  "table_ok f2i t \<longleftrightarrow>
     length (nodes t) = numofnodes t \<and> (\<exists>m. numofnodes t = MINPOWER2 * 2 ^ m) \<and>
     nodes_ok (mainpos f2i t) (firstfree t) (nodes t) \<and> usednodes t = card (live (nodes t))"

lemma numofnodes_pos: "table_ok f2i t \<Longrightarrow> 0 < numofnodes t"
  by (auto simp: table_ok_def MINPOWER2_def)

lemma mainpos_less: "table_ok f2i t \<Longrightarrow> mainpos f2i t k < length (nodes t)"
  using unat_and_of_nat_less [OF numofnodes_pos] by (simp add: mainpos_def table_ok_def)

definition placed_entry :: "(sqobject \<Rightarrow> nat) \<Rightarrow> nat \<Rightarrow> hnode list \<Rightarrow> sqobject \<Rightarrow> nat \<Rightarrow> hnode list \<Rightarrow> bool" where
  "placed_entry mp ff ns k n ns' \<longleftrightarrow>
     placed_ok mp ff ns' \<and> length ns' = length ns \<and> n \<in> live ns' \<and> key (ns' ! n) = k \<and>
     card (live ns') = Suc (card (live ns)) \<and> live ns \<subseteq> live ns' \<and>
     entry ns' ` (live ns' - {n}) = entries ns \<and> (no_tombstones ns \<longrightarrow> no_tombstones ns')"

lemma image_entry_cong:
  "(\<And>i. i \<in> S \<Longrightarrow> entry ns' i = entry ns i) \<Longrightarrow> entry ns' ` S = entry ns ` S"
  by (rule image_cong) simp_all

lemma placed_entry_free_main:
  assumes ok: "nodes_ok mp ff ns" and k: "k \<noteq> OT_NULL" "\<forall>i \<in> live ns. key (ns ! i) \<noteq> k"
    and m: "mp k < length ns" "key (ns ! mp k) = OT_NULL"
  shows "placed_entry mp ff ns k (mp k) (upd_node (mp k) (\<lambda>x. x\<lparr>key := k\<rparr>) ns)"
proof -
  let ?ns = "upd_node (mp k) (\<lambda>x. x\<lparr>key := k\<rparr>) ns"
  note P = place_at_main [OF assms]
  have nl: "mp k \<notin> live ns" using m by (simp add: live_def)
  then have "live ?ns - {mp k} = live ns" by (simp add: P(2))
  moreover have "entry ?ns ` live ns = entry ns ` live ns"
    using nl by (intro image_entry_cong) (auto simp: nth_upd_node live_def)
  moreover have "no_tombstones ns \<longrightarrow> no_tombstones ?ns"
    by (auto simp: no_tombstones_def nth_upd_node k)
  ultimately show ?thesis
    using P nl m by (auto simp: placed_entry_def entries_def nth_upd_node)
qed

lemma placed_entry_chained:
  assumes ok: "nodes_ok mp ff ns" and k: "k \<noteq> OT_NULL" "\<forall>i \<in> live ns. key (ns ! i) \<noteq> k"
    and m: "mp k < length ns" "key (ns ! mp k) \<noteq> OT_NULL" "mp (key (ns ! mp k)) = mp k"
  shows "placed_entry mp ff ns k ff
    (upd_node ff (\<lambda>x. x\<lparr>key := k\<rparr>) (upd_node (mp k) (\<lambda>x. x\<lparr>nxt := Some ff\<rparr>)
       (upd_node ff (\<lambda>x. x\<lparr>nxt := nxt (ns ! mp k)\<rparr>) ns)))"
  (is "placed_entry mp ff ns k ff ?ns")
proof -
  note P = place_behind_main [OF assms]
  have ff: "ff < length ns" "is_free ns ff" using ok by (auto simp: nodes_ok_def)
  have nl: "ff \<notin> live ns" using ff by (simp add: live_def is_free_def)
  then have "live ?ns - {ff} = live ns" by (simp add: P(2))
  moreover have "entry ?ns ` live ns = entry ns ` live ns"
    using nl by (intro image_entry_cong) (auto simp: nth_upd_node live_def)
  moreover have "no_tombstones ns \<longrightarrow> no_tombstones ?ns"
    using m by (auto simp: no_tombstones_def nth_upd_node k)
  ultimately show ?thesis
    using P nl ff by (auto simp: placed_entry_def entries_def nth_upd_node)
qed

lemma placed_entry_moved:
  assumes ok: "nodes_ok mp ff ns" and k: "k \<noteq> OT_NULL" "\<forall>i \<in> live ns. key (ns ! i) \<noteq> k"
    and m: "mp k < length ns" "key (ns ! mp k) \<noteq> OT_NULL" "mp (key (ns ! mp k)) \<noteq> mp k"
    and p: "(p, mp k) \<in> edges ns"
  defines "ns1 \<equiv> upd_node p (\<lambda>x. x\<lparr>nxt := Some ff\<rparr>) ns"
  defines "ns2 \<equiv> upd_node ff (\<lambda>x. x\<lparr>key := key (ns1 ! mp k), val := val (ns1 ! mp k),
                                       nxt := nxt (ns1 ! mp k)\<rparr>) ns1"
  shows "placed_entry mp ff ns k (mp k)
    (upd_node (mp k) (\<lambda>x. x\<lparr>key := k\<rparr>) (upd_node (mp k) (\<lambda>x. free_node) ns2))"
  (is "placed_entry mp ff ns k ?m ?ns")
proof -
  note P = move_colliding [OF assms(1-7), folded ns1_def, folded ns2_def]
  have ff: "ff < length ns" "is_free ns ff" using ok by (auto simp: nodes_ok_def)
  have nl: "ff \<notin> live ns" using ff by (simp add: live_def is_free_def)
  have ffm: "ff \<noteq> ?m" using ff m by (auto simp: is_free_def)
  have pl: "p < length ns" "nxt (ns ! p) = Some ?m" using p by (auto simp: edges_def)
  have pff: "p \<noteq> ff" using pl ff by (auto simp: is_free_def)
  have pm: "p \<noteq> ?m"
    using p chains_okD(4) [OF nodes_okD(3) [OF ok]] by (auto simp: acyclic_def)
  have m1: "ns1 ! ?m = ns ! ?m" using m pm by (simp add: ns1_def nth_upd_node)
  have other: "?ns ! i = ns1 ! i" if "i < length ns" "i \<noteq> ?m" "i \<noteq> ff" for i
    using that by (simp add: ns2_def ns1_def nth_upd_node)
  have at_ff: "entry ?ns ff = entry ns ?m" "nxt (?ns ! ff) = nxt (ns ! ?m)"
    using ff ffm m1 by (simp_all add: ns2_def ns1_def nth_upd_node)
  have at_m: "key (?ns ! ?m) = k" using m ffm by (simp add: ns2_def ns1_def nth_upd_node)
  have L: "live ?ns - {?m} = insert ff (live ns - {?m})" using ffm by (auto simp: P(2))
  have I: "entry ?ns ` (live ns - {?m}) = entry ns ` (live ns - {?m})"
  proof (rule image_entry_cong)
    fix i assume i: "i \<in> live ns - {?m}"
    then have "i < length ns" "i \<noteq> ?m" "i \<noteq> ff" using nl by (auto simp: live_def)
    then show "entry ?ns i = entry ns i" using other [of i] by (simp add: ns1_def nth_upd_node)
  qed
  have M: "insert ?m (live ns - {?m}) = live ns" using m by (auto simp: live_def)
  have "entry ?ns ` (live ?ns - {?m}) = insert (entry ns ?m) (entry ns ` (live ns - {?m}))"
    unfolding L image_insert at_ff(1) I ..
  also have "\<dots> = entry ns ` insert ?m (live ns - {?m})" by (simp only: image_insert)
  also have "\<dots> = entries ns" unfolding M entries_def ..
  finally have "entry ?ns ` (live ?ns - {?m}) = entries ns" .
  moreover have "no_tombstones ns \<longrightarrow> no_tombstones ?ns"
  proof
    assume nt: "no_tombstones ns"
    show "no_tombstones ?ns"
      unfolding no_tombstones_def
    proof (intro allI impI)
      fix i assume "i < length ?ns" "key (?ns ! i) = OT_NULL"
      moreover from this have i: "i < length ns" by (simp add: ns1_def ns2_def)
      ultimately show "nxt (?ns ! i) = None"
        using nt at_m at_ff m k other [OF i] pl
        by (cases "i = ?m"; cases "i = ff"; cases "i = p")
           (auto simp: no_tombstones_def ns1_def nth_upd_node)
    qed
  qed
  ultimately show ?thesis
    using P nl m at_m by (auto simp: placed_entry_def ns1_def ns2_def live_def)
qed

lemma place_key_ok:
  assumes t: "table_ok f2i t" and k: "k \<noteq> OT_NULL" "\<forall>i \<in> live (nodes t). key (nodes t ! i) \<noteq> k"
  obtains n ns where "place_key f2i t k = Some (n, ns)"
    "placed_entry (mainpos f2i t) (firstfree t) (nodes t) k n (upd_node n (\<lambda>x. x\<lparr>key := k\<rparr>) ns)"
proof -
  let ?mp = "mainpos f2i t" and ?ns = "nodes t" and ?ff = "firstfree t"
  have ok: "nodes_ok ?mp ?ff ?ns" using t by (simp add: table_ok_def)
  have m: "?mp k < length ?ns" by (rule mainpos_less [OF t])
  show ?thesis
  proof (cases "key (?ns ! ?mp k) = OT_NULL")
    case True
    then show ?thesis
      using that placed_entry_free_main [OF ok k m True] by (simp add: place_key_def)
  next
    case mk: False
    show ?thesis
    proof (cases "?mp (key (?ns ! ?mp k)) = ?mp k")
      case True
      then show ?thesis
        using that placed_entry_chained [OF ok k m mk True] mk by (simp add: place_key_def Let_def)
    next
      case False
      have live: "?mp k \<in> live ?ns" using mk m by (simp add: live_def)
      have "(?mp (key (?ns ! ?mp k)), ?mp k) \<in> (edges ?ns)\<^sup>*"
        using nodes_okD(4) [OF ok] live by (auto simp: keys_reachable_def)
      then obtain p where p: "find_previous (length ?ns) ?ns (?mp (key (?ns ! ?mp k))) (?mp k) = Some p"
        "(p, ?mp k) \<in> edges ?ns"
        using find_previous_total [OF nodes_okD(3) [OF ok]] False mainpos_less [OF t] by metis
      have "?ff < ?mp k" by (rule guest_above_firstfree(1) [OF ok live False])
      then show ?thesis
        using that placed_entry_moved [OF ok k m mk False p(2)] mk False p(1)
        by (simp add: place_key_def Let_def)
    qed
  qed
qed

section \<open>Lookup on lists of nodes\<close>

lemma live_Nil [simp]: "live [] = {}"
  by (simp add: live_def)

lemma live_Cons: "live (x # ns) = (if key x = OT_NULL then {} else {0}) \<union> Suc ` live ns"
proof -
  have "i \<in> live (x # ns) \<longleftrightarrow> i \<in> (if key x = OT_NULL then {} else {0}) \<union> Suc ` live ns" for i
    by (cases i) (auto simp: live_def)
  then show ?thesis by blast
qed

lemma card_live_Cons: "card (live (x # ns)) = (if key x = OT_NULL then 0 else 1) + card (live ns)"
proof -
  have "card (Suc ` live ns) = card (live ns)" by (rule card_image) simp
  moreover have "0 \<notin> Suc ` live ns" by simp
  ultimately show ?thesis by (simp add: live_Cons)
qed

lemma lookup_Nil [simp]: "lookup [] = Map.empty"
  by (simp add: lookup_def fun_eq_iff)

lemma lookup_Cons:
  "lookup (x # ns) = (if key x = OT_NULL then lookup ns else (lookup ns)(key x \<mapsto> val x))"
  by (auto simp: lookup_def fun_eq_iff)

lemma lookup_None_iff: "lookup ns k = None \<longleftrightarrow> k = OT_NULL \<or> (\<forall>i \<in> live ns. key (ns ! i) \<noteq> k)"
  by (auto simp: lookup_def find_None_iff live_def in_set_conv_nth)

lemma keys_distinct_Cons:
  assumes "keys_distinct (x # ns)"
  shows "keys_distinct ns" "key x \<noteq> OT_NULL \<Longrightarrow> lookup ns (key x) = None"
proof -
  have D: "i = j" if "i \<in> live (x # ns)" "j \<in> live (x # ns)" "key ((x # ns) ! i) = key ((x # ns) ! j)" for i j
    using assms that by (auto simp: keys_distinct_def)
  show "keys_distinct ns"
    using D [of "Suc i" "Suc j" for i j] by (auto simp: keys_distinct_def live_Cons)
  show "lookup ns (key x) = None" if "key x \<noteq> OT_NULL"
    using D [of 0 "Suc j" for j] that by (force simp: lookup_None_iff live_Cons)
qed

lemma card_live_dom: "keys_distinct ns \<Longrightarrow> card (dom (lookup ns)) = card (live ns) \<and> finite (dom (lookup ns))"
proof (induction ns)
  case (Cons x ns)
  note D = keys_distinct_Cons [OF Cons.prems]
  show ?case
  proof (cases "key x = OT_NULL")
    case False
    then have "key x \<notin> dom (lookup ns)" using D(2) by (simp add: domIff)
    moreover have "dom (lookup (x # ns)) = insert (key x) (dom (lookup ns))"
      using False by (auto simp: lookup_Cons split: if_splits)
    ultimately show ?thesis using Cons.IH [OF D(1)] False by (simp add: card_live_Cons)
  qed (use Cons.IH [OF D(1)] in \<open>simp add: lookup_Cons card_live_Cons\<close>)
qed simp

lemma card_live_le: "card (live ns) \<le> length ns"
proof -
  have "card (live ns) \<le> card {..<length ns}" by (intro card_mono) (auto simp: live_def)
  then show ?thesis by simp
qed

lemma live_all: "card (live ns) = length ns \<Longrightarrow> live ns = {..<length ns}"
  by (rule card_subset_eq) (auto simp: live_def)

section \<open>Finding a key\<close>

lemma table_okD:
  assumes "table_ok f2i t"
  shows "length (nodes t) = numofnodes t" "nodes_ok (mainpos f2i t) (firstfree t) (nodes t)"
    "usednodes t = card (live (nodes t))" "keys_distinct (nodes t)" "firstfree t < length (nodes t)"
  using assms by (auto simp: table_ok_def nodes_ok_def)

lemma used_less: "table_ok f2i t \<Longrightarrow> usednodes t < numofnodes t"
proof (rule ccontr)
  assume t: "table_ok f2i t" and "\<not> usednodes t < numofnodes t"
  then have "card (live (nodes t)) = length (nodes t)"
    using card_live_le [of "nodes t"] by (auto simp: table_ok_def)
  then have "firstfree t \<in> live (nodes t)" using live_all table_okD(5) [OF t] by blast
  with t show False by (auto simp: table_ok_def nodes_ok_def is_free_def live_def)
qed

lemma Get_node_spec:
  assumes t: "table_ok f2i t" and k: "k \<noteq> OT_NULL"
  shows "Get_node (nodes t) k (mainpos f2i t k) = Some r \<Longrightarrow>
          (case r of None \<Rightarrow> lookup (nodes t) k = None
           | Some i \<Rightarrow> i \<in> live (nodes t) \<and> key (nodes t ! i) = k \<and> lookup (nodes t) k = Some (val (nodes t ! i)))"
    and "\<exists>r. Get_node (nodes t) k (mainpos f2i t k) = Some r"
proof -
  let ?ns = "nodes t"
  have ok: "nodes_ok (mainpos f2i t) (firstfree t) ?ns" using t by (rule table_okD)
  note ch = nodes_okD(3) [OF ok] and m = mainpos_less [OF t, of k]
  show "\<exists>r. Get_node ?ns k (mainpos f2i t k) = Some r" by (rule Get_node_total [OF ch m]) blast
  assume r: "Get_node ?ns k (mainpos f2i t k) = Some r"
  show "case r of None \<Rightarrow> lookup ?ns k = None
    | Some i \<Rightarrow> i \<in> live ?ns \<and> key (?ns ! i) = k \<and> lookup ?ns k = Some (val (?ns ! i))"
  proof (cases r)
    case None
    have "key (?ns ! i) \<noteq> k" if "i \<in> live ?ns" for i
    proof
      assume "key (?ns ! i) = k"
      then have "(mainpos f2i t k, i) \<in> (edges ?ns)\<^sup>*"
        using nodes_okD(4) [OF ok] that by (auto simp: keys_reachable_def)
      then show False
        using Get_loop_absent [OF r [unfolded None Get_node_def] ch m] \<open>key (?ns ! i) = k\<close> by blast
    qed
    then show ?thesis using None by (simp add: lookup_None_iff)
  next
    case (Some i)
    have f: "key (?ns ! i) = k" "(mainpos f2i t k, i) \<in> (edges ?ns)\<^sup>*"
      using Get_loop_found [OF r [unfolded Some Get_node_def] ch m] by auto
    then have i: "i \<in> live ?ns" using chain_in_range [OF ch f(2) m] k by (simp add: live_def)
    then have "(k, val (?ns ! i)) \<in> entries ?ns" using f by (auto simp: entries_def)
    then show ?thesis using Some i f table_okD(4) [OF t] by (simp add: lookup_entries)
  qed
qed

section \<open>Compact tables\<close>

definition compact :: "sqtable \<Rightarrow> bool" where
  "compact t \<longleftrightarrow> no_tombstones (nodes t) \<and> {firstfree t<..<length (nodes t)} \<subseteq> live (nodes t)"

lemma mainpos_cong: "numofnodes t = numofnodes t' \<Longrightarrow> mainpos f2i t = mainpos f2i t'"
  by (simp add: mainpos_def fun_eq_iff)

definition set_entry :: "(32 word \<Rightarrow> 32 word) \<Rightarrow> sqtable \<Rightarrow> sqobject \<Rightarrow> sqobject \<Rightarrow> sqtable \<Rightarrow> bool" where
  "set_entry f2i t k v t' \<longleftrightarrow>
     table_ok f2i t' \<and> lookup (nodes t') = (lookup (nodes t))(k \<mapsto> v) \<and> delegate t' = delegate t"

lemma lookup_upd_val:
  assumes "keys_distinct ns" "i \<in> live ns"
  shows "lookup (upd_node i (\<lambda>x. x\<lparr>val := v\<rparr>) ns) = (lookup ns)(key (ns ! i) \<mapsto> v)"
proof (rule lookup_eqI)
  show "keys_distinct (upd_node i (\<lambda>x. x\<lparr>val := v\<rparr>) ns)" using assms by simp
  fix k w
  have "key (ns ! j) = key (ns ! i) \<longleftrightarrow> j = i" if "j \<in> live ns" for j
    using assms that by (auto simp: keys_distinct_def)
  then have "(k, w) \<in> entry ns ` (live ns - {i}) \<longleftrightarrow> k \<noteq> key (ns ! i) \<and> (k, w) \<in> entries ns"
    by (auto simp: entries_def)
  then show "(k, w) \<in> entries (upd_node i (\<lambda>x. x\<lparr>val := v\<rparr>) ns) \<longleftrightarrow>
      ((lookup ns)(key (ns ! i) \<mapsto> v)) k = Some w"
    unfolding entries_upd_val [OF assms(2)] using lookup_entries [OF assms(1)] by auto
qed

lemma overwrite_ok:
  fixes v :: sqobject
  assumes t: "table_ok f2i t" and i: "i \<in> live (nodes t)" "key (nodes t ! i) = k"
  defines "t' \<equiv> t\<lparr>nodes := upd_node i (\<lambda>x. x\<lparr>val := v\<rparr>) (nodes t)\<rparr>"
  shows "set_entry f2i t k v t'" "compact t \<Longrightarrow> compact t'"
proof -
  have "mainpos f2i t' = mainpos f2i t" by (rule mainpos_cong) (simp add: t'_def)
  then have "table_ok f2i t'" using t by (simp add: table_ok_def t'_def upd_val_invariant)
  then show "set_entry f2i t k v t'"
    using lookup_upd_val [OF table_okD(4) [OF t] i(1), of v] i by (simp add: set_entry_def t'_def)
  have "nxt (upd_node i (\<lambda>x. x\<lparr>val := v\<rparr>) (nodes t) ! j) = nxt (nodes t ! j)" for j
    by (simp add: sel_upd_node)
  then show "compact t \<Longrightarrow> compact t'"
    by (simp add: compact_def t'_def no_tombstones_def upd_val_invariant)
qed

lemma lookup_placed:
  assumes "placed_entry mp ff ns k n ns'" "keys_distinct ns" "lookup ns k = None"
  shows "lookup (upd_node n (\<lambda>x. x\<lparr>val := v\<rparr>) ns') = (lookup ns)(k \<mapsto> v)"
proof (rule lookup_eqI)
  have n: "n \<in> live ns'" "key (ns' ! n) = k" "entry ns' ` (live ns' - {n}) = entries ns"
    "keys_distinct ns'" using assms(1) by (auto simp: placed_entry_def placed_ok_def)
  then show "keys_distinct (upd_node n (\<lambda>x. x\<lparr>val := v\<rparr>) ns')" by simp
  fix k' w
  show "(k', w) \<in> entries (upd_node n (\<lambda>x. x\<lparr>val := v\<rparr>) ns') \<longleftrightarrow> ((lookup ns)(k \<mapsto> v)) k' = Some w"
    unfolding entries_upd_val [OF n(1)] n(2,3) using lookup_entries [OF assms(2), symmetric] assms(3)
    by auto
qed

lemma placed_table_ok:
  fixes v :: sqobject
  assumes t: "table_ok f2i t" and k: "lookup (nodes t) k = None"
    and p: "placed_entry (mainpos f2i t) (firstfree t) (nodes t) k n ns'"
    and c: "correct_firstfree ns' (firstfree t) = Some ff"
  defines "t' \<equiv> t\<lparr>nodes := upd_node n (\<lambda>x. x\<lparr>val := v\<rparr>) ns', firstfree := ff,
                   usednodes := usednodes t + 1\<rparr>"
  shows "set_entry f2i t k v t'" "compact t \<Longrightarrow> compact t'"
proof -
  have P: "placed_ok (mainpos f2i t) (firstfree t) ns'" "length ns' = length (nodes t)"
    "card (live ns') = Suc (card (live (nodes t)))" "live (nodes t) \<subseteq> live ns'"
    "no_tombstones (nodes t) \<Longrightarrow> no_tombstones ns'"
    using p by (auto simp: placed_entry_def)
  have "nodes_ok (mainpos f2i t) ff ns'"
    using placed_next_free [OF P(1) _ c] table_okD(5) [OF t] P(2) by simp
  moreover have "mainpos f2i t' = mainpos f2i t" by (rule mainpos_cong) (simp add: t'_def)
  ultimately have "table_ok f2i t'"
    using t P by (simp add: table_ok_def t'_def upd_val_invariant)
  then show "set_entry f2i t k v t'"
    using lookup_placed [OF p table_okD(4) [OF t] k] by (simp add: set_entry_def t'_def)
  assume ct: "compact t"
  have nt: "no_tombstones ns'" using ct P(5) by (simp add: compact_def)
  have "i \<in> live ns'" if i: "ff < i" "i < length ns'" for i
  proof (cases "i \<le> firstfree t")
    case True
    then have "\<not> is_free ns' i" using correct_firstfree_Some [OF c] i by blast
    then show ?thesis using nt i by (auto simp: is_free_def no_tombstones_def live_def)
  next
    case False
    then have "i \<in> live (nodes t)" using ct i P(2) unfolding compact_def by fastforce
    then show ?thesis using P(4) by blast
  qed
  moreover have "nxt (upd_node n (\<lambda>x. x\<lparr>val := v\<rparr>) ns' ! j) = nxt (ns' ! j)" for j
    by (simp add: sel_upd_node)
  ultimately show "compact t'"
    using nt by (auto simp: compact_def t'_def no_tombstones_def upd_val_invariant)
qed

lemma compact_has_room:
  assumes t: "table_ok f2i t" "compact t" and room: "usednodes t + 1 < numofnodes t"
    and p: "placed_entry (mainpos f2i t) (firstfree t) (nodes t) k n ns'"
  obtains ff where "correct_firstfree ns' (firstfree t) = Some ff"
proof (cases "correct_firstfree ns' (firstfree t)")
  case None
  have P: "length ns' = length (nodes t)" "card (live ns') = Suc (card (live (nodes t)))"
    "live (nodes t) \<subseteq> live ns'" "no_tombstones ns'"
    using p t(2) by (auto simp: placed_entry_def compact_def)
  have "i \<in> live ns'" if "i < length ns'" for i
  proof (cases "i \<le> firstfree t")
    case True
    then show ?thesis using correct_firstfree_None [OF None True] P(4) that
      by (auto simp: is_free_def no_tombstones_def live_def)
  next
    case False
    then have "i \<in> live (nodes t)" using t(2) that P(1) unfolding compact_def by fastforce
    then show ?thesis using P(3) by blast
  qed
  then have "{..<length ns'} \<subseteq> live ns'" by auto
  then have "length ns' \<le> card (live ns')" using card_mono [of "live ns'" "{..<length ns'}"] by simp
  then show ?thesis using P room t(1) by (simp add: table_ok_def)
qed (use that in blast)

lemma NewSlot_compact:
  assumes t: "table_ok f2i t" "compact t" "usednodes t + 1 < numofnodes t" and k: "k \<noteq> OT_NULL"
  obtains t' b where "NewSlot_rec (Suc d) f2i t k v = Some (t', b)" "set_entry f2i t k v t'"
    "compact t'" "numofnodes t' = numofnodes t"
proof -
  obtain r where r: "Get_node (nodes t) k (mainpos f2i t k) = Some r"
    using Get_node_spec(2) [OF t(1) k] by blast
  note S = Get_node_spec(1) [OF t(1) k r]
  show ?thesis
  proof (cases r)
    case (Some i)
    let ?t = "t\<lparr>nodes := upd_node i (\<lambda>x. x\<lparr>val := v\<rparr>) (nodes t)\<rparr>"
    have "NewSlot_rec (Suc d) f2i t k v = Some (?t, False)" using r Some by simp
    then show ?thesis
      by (rule that) (use S Some overwrite_ok [OF t(1), of i k v] t(2) in simp_all)
  next
    case None
    then have nk: "lookup (nodes t) k = None" using S by simp
    then have "\<forall>i \<in> live (nodes t). key (nodes t ! i) \<noteq> k" using k by (simp add: lookup_None_iff)
    from place_key_ok [OF t(1) k this] obtain n ns where
      n: "place_key f2i t k = Some (n, ns)"
         "placed_entry (mainpos f2i t) (firstfree t) (nodes t) k n (upd_node n (\<lambda>x. x\<lparr>key := k\<rparr>) ns)"
      by blast
    obtain ff where ff: "correct_firstfree (upd_node n (\<lambda>x. x\<lparr>key := k\<rparr>) ns) (firstfree t) = Some ff"
      by (rule compact_has_room [OF t n(2)])
    let ?ns = "upd_node n (\<lambda>x. x\<lparr>val := v\<rparr>) (upd_node n (\<lambda>x. x\<lparr>key := k\<rparr>) ns)"
    have "NewSlot_rec (Suc d) f2i t k v =
        Some (t\<lparr>nodes := ?ns, firstfree := ff, usednodes := usednodes t + 1\<rparr>, True)"
      using r None n(1) ff by simp
    then show ?thesis
      by (rule that) (use placed_table_ok [OF t(1) nk n(2) ff, of v] t(2) in simp_all)
  qed
qed

section \<open>Inserting many entries\<close>

locale slot_inserter =
  fixes ins :: "sqtable \<Rightarrow> sqobject \<Rightarrow> sqobject \<Rightarrow> (sqtable \<times> bool) option"
    and budget :: "nat \<Rightarrow> sqtable \<Rightarrow> bool"
  assumes ins_ok: "budget (Suc n) t \<Longrightarrow> k \<noteq> OT_NULL \<Longrightarrow>
     \<exists>t' b. ins t k v = Some (t', b) \<and> budget n t' \<and>
       lookup (nodes t') = (lookup (nodes t))(k \<mapsto> v) \<and> delegate t' = delegate t"
begin

lemma reinsert_ok:
  "keys_distinct ns \<Longrightarrow> budget (card (live ns) + n) t \<Longrightarrow>
   \<exists>t'. reinsert ins ns t = Some t' \<and> budget n t' \<and>
     lookup (nodes t') = lookup (nodes t) ++ lookup ns \<and> delegate t' = delegate t"
proof (induction ns arbitrary: t)
  case (Cons x ns)
  note D = keys_distinct_Cons [OF Cons.prems(1)]
  show ?case
  proof (cases "key x = OT_NULL")
    case True
    then show ?thesis
      using Cons.IH [OF D(1), of t] Cons.prems(2) by (simp add: card_live_Cons lookup_Cons)
  next
    case False
    then have "budget (Suc (card (live ns) + n)) t" using Cons.prems(2) by (simp add: card_live_Cons)
    from ins_ok [OF this False, of "val x"] obtain t1 b where
      t1: "ins t (key x) (val x) = Some (t1, b)" "budget (card (live ns) + n) t1"
        "lookup (nodes t1) = (lookup (nodes t))(key x \<mapsto> val x)" "delegate t1 = delegate t" by blast
    from Cons.IH [OF D(1) t1(2)] obtain t2 where
      t2: "reinsert ins ns t1 = Some t2" "budget n t2"
        "lookup (nodes t2) = lookup (nodes t1) ++ lookup ns" "delegate t2 = delegate t1" by blast
    have "lookup (nodes t2) = lookup (nodes t) ++ lookup (x # ns)"
      unfolding t2(3) t1(3) lookup_Cons using False D(2)
      by (simp add: map_add_upd_left domIff)
    then show ?thesis using t1 t2 False by simp
  qed
qed simp

end

definition compact_room :: "(32 word \<Rightarrow> 32 word) \<Rightarrow> nat \<Rightarrow> sqtable \<Rightarrow> bool" where
  "compact_room f2i n t \<longleftrightarrow> table_ok f2i t \<and> compact t \<and> usednodes t + n < numofnodes t"

lemma usednodes_dom: "table_ok f2i t \<Longrightarrow> usednodes t = card (dom (lookup (nodes t)))"
  using card_live_dom table_okD by metis

lemma finite_dom_lookup [simp]: "finite (dom (lookup ns))"
proof -
  have "dom (lookup ns) \<subseteq> key ` set ns"
    by (auto simp: lookup_def dom_def find_Some_iff split: if_splits)
  then show ?thesis by (rule finite_subset) simp
qed

lemma usednodes_set_entry:
  "table_ok f2i t \<Longrightarrow> set_entry f2i t k v t' \<Longrightarrow> usednodes t' \<le> Suc (usednodes t)"
  by (auto simp: set_entry_def usednodes_dom card_insert_if)

interpretation fresh: slot_inserter "NewSlot_rec (Suc d) f2i" "compact_room f2i" for d f2i
proof
  fix n t k v
  assume b: "compact_room f2i (Suc n) t" and k: "k \<noteq> OT_NULL"
  then have t: "table_ok f2i t" "compact t" "usednodes t + 1 < numofnodes t"
    by (auto simp: compact_room_def)
  obtain t' b where "NewSlot_rec (Suc d) f2i t k v = Some (t', b)" "set_entry f2i t k v t'"
    "compact t'" "numofnodes t' = numofnodes t"
    by (rule NewSlot_compact [OF t k])
  moreover from this have "usednodes t' \<le> Suc (usednodes t)" using usednodes_set_entry t by blast
  ultimately show "\<exists>t' b. NewSlot_rec (Suc d) f2i t k v = Some (t', b) \<and> compact_room f2i n t' \<and>
      lookup (nodes t') = (lookup (nodes t))(k \<mapsto> v) \<and> delegate t' = delegate t"
    using b by (auto simp: compact_room_def set_entry_def)
qed

section \<open>Rehashing\<close>

lemma nth_replicate_free:
  "live (replicate n free_node) = {}" "edges (replicate n free_node) = {}"
  "i < n \<Longrightarrow> is_free (replicate n free_node) i"
  by (auto simp: live_def edges_def is_free_def)

lemma AllocNodes_ok:
  assumes "numof = MINPOWER2 * 2 ^ m"
  shows "compact_room f2i (numof - 1) ((AllocNodes numof t)\<lparr>usednodes := 0\<rparr>)"
    "lookup (nodes (AllocNodes numof t)) = Map.empty"
proof -
  have pos: "0 < numof" using assms by (simp add: MINPOWER2_def)
  then have "is_free (replicate numof free_node) (numof - 1)" by (simp add: nth_replicate_free)
  then show "compact_room f2i (numof - 1) ((AllocNodes numof t)\<lparr>usednodes := 0\<rparr>)"
    using assms pos
    by (auto simp: compact_room_def table_ok_def nodes_ok_def AllocNodes_def compact_def
        chains_ok_def keys_reachable_def keys_distinct_def guests_ok_def no_tombstones_def
        nth_replicate_free acyclic_def)
  show "lookup (nodes (AllocNodes numof t)) = Map.empty"
    by (auto simp: AllocNodes_def lookup_def fun_eq_iff find_None_iff)
qed

lemma compact_room_mono: "compact_room f2i n t \<Longrightarrow> m \<le> n \<Longrightarrow> compact_room f2i m t"
  by (auto simp: compact_room_def)

text \<open>One of the three ways \<open>Rehash\<close> builds a new array.\<close>

lemma refill_ok:
  assumes size: "numof = MINPOWER2 * 2 ^ m" and ns: "keys_distinct ns" "card (live ns) < numof"
  obtains t' where
    "reinsert (NewSlot_rec (Suc d) f2i) ns ((AllocNodes numof t)\<lparr>usednodes := 0\<rparr>) = Some t'"
    "table_ok f2i t'" "lookup (nodes t') = lookup ns" "delegate t' = delegate t"
proof -
  let ?t = "(AllocNodes numof t)\<lparr>usednodes := 0\<rparr>"
  have "compact_room f2i (card (live ns) + 0) ?t"
    using compact_room_mono [OF AllocNodes_ok(1) [OF size, of f2i t]] ns(2) by simp
  from fresh.reinsert_ok [OF ns(1) this, of d] obtain t' where
    "reinsert (NewSlot_rec (Suc d) f2i) ns ?t = Some t'" "compact_room f2i 0 t'"
    "lookup (nodes t') = lookup (nodes ?t) ++ lookup ns" "delegate t' = delegate ?t" by blast
  moreover have "lookup (nodes ?t) = Map.empty" using AllocNodes_ok(2) [OF size] by simp
  ultimately show ?thesis
    using that by (simp add: compact_room_def) (simp add: AllocNodes_def)
qed

lemma pow2_half:
  assumes "n = MINPOWER2 * 2 ^ m" "MINPOWER2 < n"
  shows "n div 2 = MINPOWER2 * 2 ^ (m - 1)" "8 \<le> n"
proof -
  obtain j where "m = Suc j" using assms by (cases m) (auto simp: MINPOWER2_def)
  then show "n div 2 = MINPOWER2 * 2 ^ (m - 1)" "8 \<le> n" using assms by (auto simp: MINPOWER2_def)
qed

definition loaded :: "sqtable \<Rightarrow> bool" where
  "loaded t \<longleftrightarrow> usednodes t \<ge> numofnodes t - numofnodes t div 4 \<or>
     (usednodes t \<le> numofnodes t div 4 \<and> numofnodes t > MINPOWER2)"

lemma Rehash_with_ok:
  assumes len: "length (nodes t) = numofnodes t" and size: "numofnodes t = MINPOWER2 * 2 ^ m"
    and dist: "keys_distinct (nodes t)" and card: "card (live (nodes t)) \<le> Suc (usednodes t)"
      "usednodes t < numofnodes t"
    and go: "force \<or> loaded t"
  obtains t' where "Rehash_with (NewSlot_rec (Suc d) f2i) force t = Some t'" "table_ok f2i t'"
    "lookup (nodes t') = lookup (nodes t)" "delegate t' = delegate t"
proof -
  let ?n = "numofnodes t"
  have n4: "4 \<le> ?n" using size by (simp add: MINPOWER2_def)
  define numof where "numof = (if usednodes t \<ge> ?n - ?n div 4 then ?n * 2
    else if usednodes t \<le> ?n div 4 \<and> ?n > MINPOWER2 then ?n div 2 else ?n)"
  have "\<exists>m'. numof = MINPOWER2 * 2 ^ m'"
    using size pow2_half [OF size] power_Suc2 [of "2::nat" m] unfolding numof_def by (metis mult.assoc)
  then obtain m' where m': "numof = MINPOWER2 * 2 ^ m'" by blast
  have "card (live (nodes t)) < numof"
  proof (cases "usednodes t \<le> ?n div 4 \<and> ?n > MINPOWER2")
    case True
    then have "8 \<le> ?n" using pow2_half(2) [OF size] by blast
    then show ?thesis using True card by (auto simp: numof_def)
  qed (use card n4 in \<open>auto simp: numof_def\<close>)
  from refill_ok [OF m' dist this, of d f2i t] obtain t' where
    t': "reinsert (NewSlot_rec (Suc d) f2i) (nodes t) ((AllocNodes numof t)\<lparr>usednodes := 0\<rparr>) = Some t'"
    "table_ok f2i t'" "lookup (nodes t') = lookup (nodes t)" "delegate t' = delegate t" by blast
  have "Rehash_with (NewSlot_rec (Suc d) f2i) force t = Some t'"
    using t'(1) go n4 len by (auto simp: Rehash_with_def Let_def numof_def loaded_def split: if_splits)
  with t' that show ?thesis by blast
qed

lemma Rehash_idle: "4 \<le> numofnodes t \<Longrightarrow> \<not> loaded t \<Longrightarrow> Rehash_with ins False t = Some t"
  by (auto simp: Rehash_with_def Let_def loaded_def)

section \<open>The operations refine a finite map\<close>

lemma Get_node_present:
  assumes t: "table_ok f2i t" and k: "k \<noteq> OT_NULL" and l: "lookup (nodes t) k \<noteq> None"
  obtains i where "Get_node (nodes t) k (mainpos f2i t k) = Some (Some i)"
proof -
  obtain r where r: "Get_node (nodes t) k (mainpos f2i t k) = Some r"
    using Get_node_spec(2) [OF t k] by blast
  show ?thesis using that r l Get_node_spec(1) [OF t k r] by (cases r) simp_all
qed

lemma NewSlot_ok:
  assumes t: "table_ok f2i t" and k: "k \<noteq> OT_NULL"
  obtains t' b where "NewSlot_rec (Suc (Suc d)) f2i t k v = Some (t', b)" "set_entry f2i t k v t'"
    "b \<Longrightarrow> lookup (nodes t) k = None"
proof -
  obtain r where r: "Get_node (nodes t) k (mainpos f2i t k) = Some r"
    using Get_node_spec(2) [OF t k] by blast
  note S = Get_node_spec(1) [OF t k r]
  show ?thesis
  proof (cases r)
    case (Some i)
    let ?t = "t\<lparr>nodes := upd_node i (\<lambda>x. x\<lparr>val := v\<rparr>) (nodes t)\<rparr>"
    have "NewSlot_rec (Suc (Suc d)) f2i t k v = Some (?t, False)" using r Some by simp
    then show ?thesis
      by (rule that) (use S Some overwrite_ok [OF t, of i k v] in simp_all)
  next
    case None
    then have nk: "lookup (nodes t) k = None" using S by simp
    then have "\<forall>i \<in> live (nodes t). key (nodes t ! i) \<noteq> k" using k by (simp add: lookup_None_iff)
    from place_key_ok [OF t k this] obtain n ns where
      n: "place_key f2i t k = Some (n, ns)"
         "placed_entry (mainpos f2i t) (firstfree t) (nodes t) k n (upd_node n (\<lambda>x. x\<lparr>key := k\<rparr>) ns)"
      by blast
    let ?ns = "upd_node n (\<lambda>x. x\<lparr>key := k\<rparr>) ns"
    show ?thesis
    proof (cases "correct_firstfree ?ns (firstfree t)")
      case (Some ff)
      have "NewSlot_rec (Suc (Suc d)) f2i t k v =
          Some (t\<lparr>nodes := upd_node n (\<lambda>x. x\<lparr>val := v\<rparr>) ?ns, firstfree := ff,
                  usednodes := usednodes t + 1\<rparr>, True)"
        using r None n(1) Some by simp
      then show ?thesis by (rule that) (use placed_table_ok [OF t nk n(2) Some, of v] nk in simp_all)
    next
      case full: None
      let ?t = "t\<lparr>nodes := ?ns, firstfree := 0\<rparr>"
      obtain m where m: "numofnodes t = MINPOWER2 * 2 ^ m" using t by (auto simp: table_ok_def)
      have N: "length ?ns = numofnodes t" "keys_distinct ?ns" "card (live ?ns) = Suc (usednodes t)"
        "n \<in> live ?ns" "key (?ns ! n) = k" "entry ?ns ` (live ?ns - {n}) = entries (nodes t)"
        using n(2) t by (auto simp: placed_entry_def placed_ok_def table_ok_def)
      obtain t1 where t1: "Rehash_with (NewSlot_rec (Suc d) f2i) True ?t = Some t1" "table_ok f2i t1"
        "lookup (nodes t1) = lookup ?ns" "delegate t1 = delegate t"
        by (rule Rehash_with_ok [of ?t m True d f2i]) (use N m used_less [OF t] in simp_all)
      have "upd_node n (\<lambda>x. x\<lparr>val := val (?ns ! n)\<rparr>) ?ns = ?ns"
        by (simp add: upd_node_def)
      then have l1: "lookup ?ns = (lookup (nodes t))(k \<mapsto> val (?ns ! n))"
        using lookup_placed [OF n(2) table_okD(4) [OF t] nk] by metis
      then have "lookup (nodes t1) k \<noteq> None" using t1(3) by simp
      then obtain i where i: "Get_node (nodes t1) k (mainpos f2i t1 k) = Some (Some i)"
        by (rule Get_node_present [OF t1(2) k])
      let ?t1 = "t1\<lparr>nodes := upd_node i (\<lambda>x. x\<lparr>val := v\<rparr>) (nodes t1)\<rparr>"
      have "NewSlot_rec (Suc (Suc d)) f2i t k v = Some (?t1, False)"
        using r None n(1) full t1(1) i by simp
      moreover have "set_entry f2i t1 k v ?t1"
        using overwrite_ok(1) [OF t1(2), of i k v] Get_node_spec(1) [OF t1(2) k i] by simp
      then have "set_entry f2i t k v ?t1" using t1(3,4) l1 by (simp add: set_entry_def)
      ultimately show ?thesis by (rule that) simp
    qed
  qed
qed

interpretation slots: slot_inserter "NewSlot f2i" "\<lambda>n. table_ok f2i" for f2i
proof
  fix n :: nat and t k v
  assume "table_ok f2i t" "k \<noteq> OT_NULL"
  then obtain t' b where "NewSlot_rec (Suc (Suc (Suc 0))) f2i t k v = Some (t', b)" "set_entry f2i t k v t'"
    by (rule NewSlot_ok)
  then show "\<exists>t' b. NewSlot f2i t k v = Some (t', b) \<and> table_ok f2i t' \<and>
      lookup (nodes t') = (lookup (nodes t))(k \<mapsto> v) \<and> delegate t' = delegate t"
    by (auto simp: NewSlot_def set_entry_def numeral_3_eq_3)
qed

lemma Rehash_unfold: "Rehash f2i = Rehash_with (NewSlot_rec (Suc (Suc (Suc 0))) f2i)"
proof -
  have "NewSlot f2i = NewSlot_rec (Suc (Suc (Suc 0))) f2i"
    by (simp only: fun_eq_iff NewSlot_def numeral_3_eq_3 simp_thms)
  then show ?thesis by (intro ext) (simp only: Rehash_def)
qed

lemma Rehash_ok:
  assumes "table_ok f2i t"
  obtains t' where "Rehash f2i force t = Some t'" "table_ok f2i t'"
    "lookup (nodes t') = lookup (nodes t)" "delegate t' = delegate t"
proof (cases "force \<or> loaded t")
  case True
  obtain m where m: "numofnodes t = MINPOWER2 * 2 ^ m" using assms by (auto simp: table_ok_def)
  obtain t' where "Rehash f2i force t = Some t'" "table_ok f2i t'"
    "lookup (nodes t') = lookup (nodes t)" "delegate t' = delegate t"
    by (rule Rehash_with_ok [of t m force "Suc (Suc 0)" f2i])
       (use True m used_less [OF assms] table_okD(1,3,4) [OF assms] in \<open>simp_all add: Rehash_unfold\<close>)
  then show ?thesis by (rule that)
next
  case False
  then have "Rehash f2i force t = Some t"
    using assms Rehash_idle [of t] by (auto simp: Rehash_def table_ok_def MINPOWER2_def)
  then show ?thesis by (rule that) (use assms in simp_all)
qed

lemma bury_ok:
  assumes t: "table_ok f2i t" and i: "i \<in> live (nodes t)"
  defines "t' \<equiv> t\<lparr>nodes := upd_node i (\<lambda>x. x\<lparr>val := OT_NULL, key := OT_NULL\<rparr>) (nodes t),
                   usednodes := usednodes t - 1\<rparr>"
  shows "table_ok f2i t'" "lookup (nodes t') = (lookup (nodes t))(key (nodes t ! i) := None)"
proof -
  let ?ns = "upd_node i (\<lambda>x. x\<lparr>val := OT_NULL, key := OT_NULL\<rparr>) (nodes t)"
  note ok = table_okD(2) [OF t] and D = nodes_okD [OF table_okD(2) [OF t]]
  have il: "i < length (nodes t)" using i by (simp add: live_def)
  have N: "nxt (?ns ! j) = nxt (nodes t ! j)" for j by (simp add: sel_upd_node)
  have K: "key (?ns ! j) = (if j = i then OT_NULL else key (nodes t ! j))"
    and V: "j \<noteq> i \<Longrightarrow> val (?ns ! j) = val (nodes t ! j)" if "j < length (nodes t)" for j
    using that by (simp_all add: nth_upd_node)
  have E: "edges ?ns = edges (nodes t)" by (simp add: edges_def N)
  have L: "live ?ns = live (nodes t) - {i}" by (auto simp: live_def K split: if_splits)
  have lt: "j \<in> live (nodes t) \<Longrightarrow> j < length (nodes t)" for j by (simp add: live_def)
  have kd: "keys_distinct ?ns" using D(5) lt by (auto simp: keys_distinct_def L K)
  have "is_free ?ns (firstfree t)" using D(1,2) by (auto simp: is_free_def K N)
  moreover have "chains_ok (Suc (firstfree t)) ?ns" using D(3) by (simp add: chains_ok_def E)
  moreover have "keys_reachable (mainpos f2i t) ?ns" using D(4) lt by (auto simp: keys_reachable_def L K E)
  moreover have "guests_ok (mainpos f2i t) ?ns" using D(6) lt by (auto simp: guests_ok_def L K)
  moreover have "mainpos f2i t' = mainpos f2i t" by (rule mainpos_cong) (simp add: t'_def)
  ultimately show "table_ok f2i t'"
    using t D(1) kd i by (auto simp: table_ok_def nodes_ok_def t'_def L)
  have "lookup ?ns = (lookup (nodes t))(key (nodes t ! i) := None)"
  proof (rule lookup_eqI [OF kd])
    fix k v
    have "key (nodes t ! j) = key (nodes t ! i) \<longleftrightarrow> j = i" if "j \<in> live (nodes t)" for j
      using D(5) i that by (auto simp: keys_distinct_def)
    then have "(k, v) \<in> entry (nodes t) ` (live (nodes t) - {i}) \<longleftrightarrow>
        k \<noteq> key (nodes t ! i) \<and> (k, v) \<in> entries (nodes t)"
      by (auto simp: entries_def)
    moreover have "entries ?ns = entry (nodes t) ` (live (nodes t) - {i})"
      unfolding entries_def L by (rule image_entry_cong) (use lt in \<open>auto simp: K V\<close>)
    ultimately show "(k, v) \<in> entries ?ns \<longleftrightarrow> ((lookup (nodes t))(key (nodes t ! i) := None)) k = Some v"
      using lookup_entries [OF D(5)] by auto
  qed
  then show "lookup (nodes t') = (lookup (nodes t))(key (nodes t ! i) := None)" by (simp add: t'_def)
qed

lemma lookup_map_null: "lookup (map (\<lambda>x. x\<lparr>key := OT_NULL, val := OT_NULL\<rparr>) ns) = Map.empty"
  by (auto simp: lookup_def fun_eq_iff find_None_iff)

lemma Clone_loop_reinsert:
  "length (nodes t) = numofnodes t \<Longrightarrow>
   Clone_loop f2i t i nt = reinsert (NewSlot f2i) (drop i (nodes t)) nt"
proof (induction "length (nodes t) - i" arbitrary: i nt rule: less_induct)
  case less
  show ?case
  proof (cases "i < length (nodes t)")
    case True
    then have d: "drop i (nodes t) = nodes t ! i # drop (Suc i) (nodes t)" by (rule Cons_nth_drop_Suc [symmetric])
    have IH: "Clone_loop f2i t (Suc i) nt' = reinsert (NewSlot f2i) (drop (Suc i) (nodes t)) nt'" for nt'
      using less True by simp
    show ?thesis
    proof (cases "key (nodes t ! i) = OT_NULL")
      case True
      have "Next_loop t i = Next_loop t (Suc i)"
        using True less.prems \<open>i < _\<close> by (simp add: Next_loop.simps [of t i])
      then have "Clone_loop f2i t i nt = Clone_loop f2i t (Suc i) nt"
        by (simp add: Clone_loop.simps [of f2i t i] Clone_loop.simps [of f2i t "Suc i"])
      then show ?thesis using IH True d by simp
    next
      case False
      then have "Next_loop t i = Some (Suc i, nodes t ! i)"
        using less.prems \<open>i < _\<close> by (simp add: Next_loop.simps [of t i])
      then show ?thesis using IH False d by (simp add: Clone_loop.simps [of f2i t i])
    qed
  next
    case False
    then have "Next_loop t i = None" using less.prems by (simp add: Next_loop.simps [of t i])
    then show ?thesis using False by (simp add: Clone_loop.simps [of f2i t i])
  qed
qed

section \<open>Iteration\<close>

definition entry_list :: "(32 word \<Rightarrow> sqobject) \<Rightarrow> hnode list \<Rightarrow> (sqobject \<times> sqobject) list" where
  "entry_list wr ns = map (\<lambda>n. (key n, realval wr (val n))) (filter (\<lambda>n. key n \<noteq> OT_NULL) ns)"

lemma map_of_entry_list:
  "keys_distinct ns \<Longrightarrow>
   distinct (map fst (entry_list wr ns)) \<and> map_of (entry_list wr ns) = map_option (realval wr) \<circ> lookup ns"
proof (induction ns)
  case (Cons x ns)
  note D = keys_distinct_Cons [OF Cons.prems]
  have IH: "distinct (map fst (entry_list wr ns))"
    "map_of (entry_list wr ns) = map_option (realval wr) \<circ> lookup ns"
    using Cons.IH [OF D(1)] by blast+
  show ?case
  proof (cases "key x = OT_NULL")
    case True
    then show ?thesis using IH by (simp add: entry_list_def lookup_Cons)
  next
    case False
    then have e: "entry_list wr (x # ns) = (key x, realval wr (val x)) # entry_list wr ns"
      by (simp add: entry_list_def)
    have "map_of (entry_list wr ns) (key x) = None" using IH(2) D(2) [OF False] by simp
    then have "key x \<notin> set (map fst (entry_list wr ns))" by (simp add: map_of_eq_None_iff)
    then show ?thesis using IH e False by (auto simp: lookup_Cons fun_eq_iff)
  qed
qed (simp add: entry_list_def fun_eq_iff)

lemma Next_loop_drop:
  "length (nodes t) = numofnodes t \<Longrightarrow>
   (case Next_loop t i of
      None \<Rightarrow> entry_list wr (drop i (nodes t)) = []
    | Some (j, n) \<Rightarrow> entry_list wr (drop i (nodes t)) =
        (key n, realval wr (val n)) # entry_list wr (drop j (nodes t)))"
proof (induction t i rule: Next_loop.induct)
  case (1 t i)
  show ?case
  proof (cases "i < numofnodes t")
    case True
    then have "drop i (nodes t) = nodes t ! i # drop (Suc i) (nodes t)"
      using "1.prems" by (simp add: Cons_nth_drop_Suc)
    then have "entry_list wr (drop i (nodes t)) =
      (if key (nodes t ! i) = OT_NULL then [] else [(key (nodes t ! i), realval wr (val (nodes t ! i)))])
      @ entry_list wr (drop (Suc i) (nodes t))" by (simp add: entry_list_def)
    then show ?thesis using 1 True by (auto simp: Next_loop.simps [of t i] split: option.splits)
  next
    case False
    then show ?thesis using "1.prems" by (simp add: Next_loop.simps [of t i] entry_list_def)
  qed
qed

lemma foreach_table_from:
  assumes len: "length (nodes t) = numofnodes t" and small: "numofnodes t < 2 ^ 31"
  shows "numofnodes t - i < fuel \<Longrightarrow> i \<le> numofnodes t \<Longrightarrow>
    foreach_table fuel wr t (OT_INTEGER (of_nat i)) = Inr (entry_list wr (drop i (nodes t)))"
proof (induction fuel arbitrary: i)
  case (Suc fuel)
  have i: "unat (of_nat i :: 32 word) = i" "\<not> sint (of_nat i :: 32 word) < 0"
    using Suc.prems small by (simp_all add: unat_of_nat32 sint_of_nat32)
  show ?case
  proof (cases "Next_loop t i")
    case None
    then show ?thesis using i Next_loop_drop [OF len, where i = i and wr = wr] by (simp add: Next_def)
  next
    case (Some r)
    obtain j n where r: "r = (j, n)" by (cases r)
    have "i < j" "j \<le> numofnodes t" using Next_loop_bounds Some r by blast+
    then have "foreach_table fuel wr t (OT_INTEGER (of_nat j)) = Inr (entry_list wr (drop j (nodes t)))"
      using Suc by simp
    then show ?thesis using i Some r Next_loop_drop [OF len, where i = i and wr = wr] by (simp add: Next_def)
  qed
qed simp

lemma foreach_table_null: "foreach_table fuel wr t OT_NULL = foreach_table fuel wr t (OT_INTEGER 0)"
  by (cases fuel) (simp_all add: Next_def)

section \<open>Creation, copies and clearing\<close>

lemma pow2size_pow2: "\<exists>m'. pow2size n (MINPOWER2 * 2 ^ m) = MINPOWER2 * 2 ^ m'"
proof (induction n "MINPOWER2 * 2 ^ m :: nat" arbitrary: m rule: pow2size.induct)
  case (1 n)
  show ?case
  proof (cases "n > MINPOWER2 * 2 ^ m")
    case True
    then have "\<exists>m'. pow2size n (MINPOWER2 * 2 ^ Suc m) = MINPOWER2 * 2 ^ m'"
      using 1 [of "Suc m"] by (simp add: MINPOWER2_def)
    then show ?thesis using True by (simp add: pow2size.simps [of n "MINPOWER2 * 2 ^ m"] ac_simps)
  next
    case False
    then show ?thesis by (auto simp: pow2size.simps [of n "MINPOWER2 * 2 ^ m"])
  qed
qed

lemma Create_ok: "table_ok f2i (Create n)" "lookup (nodes (Create n)) = Map.empty"
proof -
  obtain m where m: "pow2size n MINPOWER2 = MINPOWER2 * 2 ^ m"
    using pow2size_pow2 [of n 0] by auto
  let ?t = "\<lparr>firstfree = 0, nodes = [], numofnodes = 0, usednodes = 0, delegate = None\<rparr>"
  have "(AllocNodes (pow2size n MINPOWER2) ?t)\<lparr>usednodes := 0\<rparr> = Create n"
    by (simp add: Create_def AllocNodes_def)
  then show "table_ok f2i (Create n)"
    using AllocNodes_ok(1) [OF m, of f2i ?t] by (simp add: compact_room_def)
  show "lookup (nodes (Create n)) = Map.empty"
    using AllocNodes_ok(2) [OF m, of ?t] by (simp add: Create_def)
qed

lemma SetSlot_ok:
  assumes t: "table_ok f2i t" and k: "k \<noteq> OT_NULL"
  shows "\<exists>t'. SetSlot f2i t k v = Some (t', lookup (nodes t) k \<noteq> None) \<and> table_ok f2i t' \<and>
    lookup (nodes t') = (if lookup (nodes t) k = None then lookup (nodes t) else (lookup (nodes t))(k \<mapsto> v))"
proof -
  obtain r where r: "Get_node (nodes t) k (mainpos f2i t k) = Some r"
    using Get_node_spec(2) [OF t k] by blast
  note S = Get_node_spec(1) [OF t k r]
  show ?thesis
  proof (cases r)
    case None
    then show ?thesis using r S t by (simp add: SetSlot_def)
  next
    case (Some i)
    then show ?thesis using r S overwrite_ok(1) [OF t, of i k v] by (simp add: SetSlot_def set_entry_def)
  qed
qed

lemma Remove_ok:
  assumes t: "table_ok f2i t" and k: "k \<noteq> OT_NULL"
  shows "\<exists>t'. Remove f2i t k = Some t' \<and> table_ok f2i t' \<and>
    lookup (nodes t') = (lookup (nodes t))(k := None) \<and> delegate t' = delegate t"
proof -
  obtain r where r: "Get_node (nodes t) k (mainpos f2i t k) = Some r"
    using Get_node_spec(2) [OF t k] by blast
  note S = Get_node_spec(1) [OF t k r]
  show ?thesis
  proof (cases r)
    case None
    then have "(lookup (nodes t))(k := None) = lookup (nodes t)" using S by (simp add: fun_upd_idem)
    then show ?thesis using None r t by (simp add: Remove_def)
  next
    case (Some i)
    then have i: "i \<in> live (nodes t)" "key (nodes t ! i) = k" using S by simp_all
    note B = bury_ok [OF t i(1)]
    obtain t' where t': "Rehash f2i False
        (t\<lparr>nodes := upd_node i (\<lambda>x. x\<lparr>val := OT_NULL, key := OT_NULL\<rparr>) (nodes t),
           usednodes := usednodes t - 1\<rparr>) = Some t'" "table_ok f2i t'"
      "lookup (nodes t') = (lookup (nodes t))(k := None)" "delegate t' = delegate t"
      by (rule Rehash_ok [OF B(1), of False]) (use B(2) i(2) in simp)
    have "Remove f2i t k = Some t'" using r Some t'(1) by (simp add: Remove_def)
    then show ?thesis using t'(2-4) by blast
  qed
qed

lemma Clear_ok:
  assumes t: "table_ok f2i t"
  shows "\<exists>t'. Clear f2i t = Some t' \<and> table_ok f2i t' \<and> lookup (nodes t') = Map.empty"
proof -
  let ?t = "(ClearNodes t)\<lparr>usednodes := 0\<rparr>"
  obtain m where m: "numofnodes t = MINPOWER2 * 2 ^ m" using t by (auto simp: table_ok_def)
  have l: "live (nodes ?t) = {}" by (auto simp: ClearNodes_def live_def)
  obtain t' where t': "Rehash_with (NewSlot_rec (Suc (Suc (Suc 0))) f2i) True ?t = Some t'" "table_ok f2i t'"
    "lookup (nodes t') = lookup (nodes ?t)"
    by (rule Rehash_with_ok [of ?t m True "Suc (Suc 0)" f2i])
       (use t m l numofnodes_pos [OF t] in \<open>simp_all add: ClearNodes_def table_ok_def keys_distinct_def\<close>)
  have "Clear f2i t = Some t'" using t'(1) by (simp only: Clear_def Rehash_unfold)
  moreover have "lookup (nodes t') = Map.empty"
    using t'(3) by (simp add: ClearNodes_def lookup_map_null)
  ultimately show ?thesis using t'(2) by blast
qed

lemma Clone_ok:
  assumes t: "table_ok f2i t"
  shows "\<exists>t'. Clone f2i t = Some t' \<and> table_ok f2i t' \<and> lookup (nodes t') = lookup (nodes t) \<and>
    delegate t' = delegate t"
proof -
  from slots.reinsert_ok [OF table_okD(4) [OF t] Create_ok(1), of f2i "numofnodes t"] obtain t' where
    t': "reinsert (NewSlot f2i) (nodes t) (Create (numofnodes t)) = Some t'" "table_ok f2i t'"
      "lookup (nodes t') = lookup (nodes (Create (numofnodes t))) ++ lookup (nodes t)" by blast
  have "mainpos f2i (t'\<lparr>delegate := delegate t\<rparr>) = mainpos f2i t'" by (rule mainpos_cong) simp
  then have "table_ok f2i (t'\<lparr>delegate := delegate t\<rparr>)" using t'(2) by (simp add: table_ok_def)
  moreover have "Clone f2i t = Some (t'\<lparr>delegate := delegate t\<rparr>)"
    using t'(1) Clone_loop_reinsert [OF table_okD(1) [OF t], of f2i 0] by (simp add: Clone_def)
  ultimately show ?thesis using t'(3) by (simp add: Create_ok(2))
qed

section \<open>Histories of operations\<close>

text \<open>
  A history is a sequence of calls a client makes on one table; \<open>run_table\<close> performs it on the
  model of the code, \<open>run_map\<close> on a finite map. Callers never pass a null key (\<open>NewSlot\<close> asserts it).
\<close>

datatype table_op =
    Op_NewSlot sqobject sqobject
  | Op_Set sqobject sqobject
  | Op_Remove sqobject
  | Op_Clear
  | Op_Rehash bool
  | Op_Clone

fun op_key_ok :: "table_op \<Rightarrow> bool" where
  "op_key_ok (Op_NewSlot k v) = (k \<noteq> OT_NULL)"
| "op_key_ok (Op_Set k v) = (k \<noteq> OT_NULL)"
| "op_key_ok (Op_Remove k) = (k \<noteq> OT_NULL)"
| "op_key_ok _ = True"

fun do_op :: "(32 word \<Rightarrow> 32 word) \<Rightarrow> table_op \<Rightarrow> sqtable \<Rightarrow> sqtable option" where
  "do_op f2i (Op_NewSlot k v) t = map_option fst (NewSlot f2i t k v)"
| "do_op f2i (Op_Set k v) t = map_option fst (SetSlot f2i t k v)"
| "do_op f2i (Op_Remove k) t = Remove f2i t k"
| "do_op f2i Op_Clear t = Clear f2i t"
| "do_op f2i (Op_Rehash force) t = Rehash f2i force t"
| "do_op f2i Op_Clone t = Clone f2i t"

fun run_table :: "(32 word \<Rightarrow> 32 word) \<Rightarrow> table_op list \<Rightarrow> sqtable \<Rightarrow> sqtable option" where
  "run_table f2i [] t = Some t"
| "run_table f2i (op # ops) t = do { t' \<leftarrow> do_op f2i op t; run_table f2i ops t' }"

fun map_op :: "table_op \<Rightarrow> (sqobject \<rightharpoonup> sqobject) \<Rightarrow> (sqobject \<rightharpoonup> sqobject)" where
  "map_op (Op_NewSlot k v) m = m(k \<mapsto> v)"
| "map_op (Op_Set k v) m = (if m k = None then m else m(k \<mapsto> v))"
| "map_op (Op_Remove k) m = m(k := None)"
| "map_op Op_Clear m = Map.empty"
| "map_op (Op_Rehash force) m = m"
| "map_op Op_Clone m = m"

definition run_map :: "table_op list \<Rightarrow> (sqobject \<rightharpoonup> sqobject)" where
  "run_map ops = fold map_op ops Map.empty"

lemma do_op_ok:
  assumes t: "table_ok f2i t" and k: "op_key_ok op"
  obtains t' where "do_op f2i op t = Some t'" "table_ok f2i t'"
    "lookup (nodes t') = map_op op (lookup (nodes t))"
proof (cases op)
  case (Op_NewSlot k v)
  with k slots.ins_ok [OF t, of k v] that show ?thesis by force
next
  case (Op_Set k v)
  with k SetSlot_ok [OF t, of k v] that show ?thesis by force
next
  case (Op_Remove k)
  with k Remove_ok [OF t, of k] that show ?thesis by force
next
  case Op_Clear
  with Clear_ok [OF t] that show ?thesis by force
next
  case (Op_Rehash force)
  obtain t' where "Rehash f2i force t = Some t'" "table_ok f2i t'" "lookup (nodes t') = lookup (nodes t)"
    by (rule Rehash_ok [OF t])
  with Op_Rehash that show ?thesis by simp
next
  case Op_Clone
  with Clone_ok [OF t] that show ?thesis by force
qed

lemma run_table_ok:
  "table_ok f2i t \<Longrightarrow> list_all op_key_ok ops \<Longrightarrow>
   \<exists>t'. run_table f2i ops t = Some t' \<and> table_ok f2i t' \<and>
     lookup (nodes t') = fold map_op ops (lookup (nodes t))"
proof (induction ops arbitrary: t)
  case (Cons op ops)
  obtain t1 where t1: "do_op f2i op t = Some t1" "table_ok f2i t1"
    "lookup (nodes t1) = map_op op (lookup (nodes t))"
    by (rule do_op_ok [of f2i t op]) (use Cons.prems in auto)
  then show ?case using Cons.IH [OF t1(2)] Cons.prems(2) by simp
qed simp

text \<open>Three insertions into a table of four nodes, one of them chained to the last node.\<close>

definition example_ops :: "table_op list" where
  "example_ops = [Op_NewSlot (OT_INTEGER 1) (OT_BOOL True), Op_NewSlot (OT_INTEGER 5) (OT_INTEGER 7),
     Op_NewSlot (OT_STRING ''a'') (OT_WEAKREF 8)]"

definition example_table :: sqtable where
  "example_table =
     \<lparr>firstfree = 2,
      nodes = [\<lparr>val = OT_WEAKREF 8, key = OT_STRING ''a'', nxt = None\<rparr>,
               \<lparr>val = OT_BOOL True, key = OT_INTEGER 1, nxt = Some 3\<rparr>, free_node,
               \<lparr>val = OT_INTEGER 7, key = OT_INTEGER 5, nxt = None\<rparr>],
      numofnodes = 4, usednodes = 3, delegate = None\<rparr>"

lemma example_run: "run_table (\<lambda>x. x) example_ops (Create 4) = Some example_table"
  by code_simp

lemma example_table_ok: "table_ok (\<lambda>x. x) example_table"
  using run_table_ok [OF Create_ok(1) [of "\<lambda>x. x" 4], of example_ops] example_run
  by (auto simp: example_ops_def)

section \<open>Correctness of the table\<close>

lemma Get_lookup:
  assumes "table_ok f2i t"
  shows "Get f2i wr t k = Some (map_option (realval wr) (lookup (nodes t) k))"
proof (cases "k = OT_NULL")
  case False
  obtain r where r: "Get_node (nodes t) k (mainpos f2i t k) = Some r"
    using Get_node_spec(2) [OF assms False] by blast
  have "lookup (nodes t) k = map_option (\<lambda>i. val (nodes t ! i)) r"
    using Get_node_spec(1) [OF assms False r] by (cases r) simp_all
  then show ?thesis using r False by (simp add: Get_def option.map_comp o_def)
qed (simp add: Get_def lookup_def)

text \<open>
  C1. Every history of calls with non-null keys on a new table of any initial size returns (no walk
  of a chain or of the free pointer runs on, no rehash recurses without end), the invariant holds
  afterwards, and the table stands for the map the history describes: the hash table with moved
  nodes, tombstones, growth and shrinking refines a finite map.
\<close>

theorem table_history_refines_map:
  assumes "list_all op_key_ok ops"
  shows "\<exists>t. run_table f2i ops (Create n) = Some t \<and> table_ok f2i t \<and> lookup (nodes t) = run_map ops"
  using run_table_ok [OF Create_ok(1) assms, of f2i n] by (simp add: Create_ok(2) run_map_def)

theorem table_history_refines_map_witness:
  "\<exists>t. run_table (\<lambda>x. x)
         [Op_NewSlot (OT_INTEGER 1) (OT_BOOL True), Op_NewSlot (OT_INTEGER 5) (OT_INTEGER 7),
          Op_Remove (OT_INTEGER 1)] (Create 4) = Some t \<and>
       table_ok (\<lambda>x. x) t \<and> lookup (nodes t) (OT_INTEGER 5) = Some (OT_INTEGER 7) \<and>
       lookup (nodes t) (OT_INTEGER 1) = None"
proof -
  obtain t where t: "run_table (\<lambda>x. x)
         [Op_NewSlot (OT_INTEGER 1) (OT_BOOL True), Op_NewSlot (OT_INTEGER 5) (OT_INTEGER 7),
          Op_Remove (OT_INTEGER 1)] (Create 4) = Some t" "table_ok (\<lambda>x. x) t"
    "lookup (nodes t) = run_map
         [Op_NewSlot (OT_INTEGER 1) (OT_BOOL True), Op_NewSlot (OT_INTEGER 5) (OT_INTEGER 7),
          Op_Remove (OT_INTEGER 1)]"
    using table_history_refines_map [of "[Op_NewSlot (OT_INTEGER 1) (OT_BOOL True),
        Op_NewSlot (OT_INTEGER 5) (OT_INTEGER 7), Op_Remove (OT_INTEGER 1)]" "\<lambda>x. x" 4]
    by auto
  then show ?thesis by (auto simp: run_map_def)
qed

text \<open>
  C20. \<open>Get\<close> always returns, and returns the value the map has for the key, a weak reference
  replaced by its target; a null key is never found. The number \<open>CountUsed\<close> reports is the number of
  keys, and stays below the size of the array.
\<close>

theorem Get_and_CountUsed_refine_map:
  assumes "table_ok f2i t"
  shows "Get f2i wr t k = Some (map_option (realval wr) (lookup (nodes t) k)) \<and>
    CountUsed t = card (dom (lookup (nodes t))) \<and> CountUsed t < numofnodes t"
  using Get_lookup [OF assms] usednodes_dom [OF assms] used_less [OF assms] by (simp add: CountUsed_def)

theorem Get_and_CountUsed_refine_map_witness:
  "Get (\<lambda>x. x) (\<lambda>p. OT_INTEGER p) example_table (OT_STRING ''a'') = Some (Some (OT_INTEGER 8)) \<and>
   CountUsed example_table < 4"
  using Get_and_CountUsed_refine_map [OF example_table_ok, of "\<lambda>p. OT_INTEGER p" "OT_STRING ''a''"]
  by (simp add: lookup_def) (simp add: example_table_def)

text \<open>
  C23. A script's \<open>foreach\<close> over a table that is not modified meanwhile ends after at most one round
  per node and visits every entry exactly once, with weak references replaced by their targets.
\<close>

theorem foreach_table_visits_each_entry_once:
  assumes "table_ok f2i t" "numofnodes t < 2 ^ 31" "numofnodes t < fuel"
  shows "\<exists>xs. foreach_table fuel wr t OT_NULL = Inr xs \<and> distinct (map fst xs) \<and>
    map_of xs = map_option (realval wr) \<circ> lookup (nodes t)"
proof -
  have "foreach_table fuel wr t OT_NULL = Inr (entry_list wr (nodes t))"
    using foreach_table_from [OF table_okD(1) [OF assms(1)] assms(2), of 0 fuel wr] assms(3)
    by (simp add: foreach_table_null)
  then show ?thesis using map_of_entry_list [OF table_okD(4) [OF assms(1)]] by simp
qed

theorem foreach_table_visits_each_entry_once_witness:
  "\<exists>xs. foreach_table 5 (\<lambda>p. OT_INTEGER p) example_table OT_NULL = Inr xs \<and> distinct (map fst xs) \<and>
     map_of xs (OT_STRING ''a'') = Some (OT_INTEGER 8)"
proof -
  have n: "numofnodes example_table < 2 ^ 31" "numofnodes example_table < 5"
    by (simp_all add: example_table_def)
  have "lookup (nodes example_table) (OT_STRING ''a'') = Some (OT_WEAKREF 8)"
    by (simp add: lookup_def example_table_def)
  then show ?thesis
    using foreach_table_visits_each_entry_once [OF example_table_ok n, of "\<lambda>p. OT_INTEGER p"] by auto
qed

text \<open>
  \<open>NewSlot\<close> does not report whether it made a slot: when the last free node goes to the new key it
  rehashes with the key already placed, finds the key again and returns false, as for a key that
  was there before. The table itself is right.
\<close>

theorem NewSlot_reports_false_for_new_slot:
  "\<exists>t. lookup (nodes example_table) (OT_INTEGER 6) = None \<and>
     NewSlot (\<lambda>x. x) example_table (OT_INTEGER 6) (OT_BOOL True) = Some (t, False) \<and>
     lookup (nodes t) (OT_INTEGER 6) = Some (OT_BOOL True)"
proof -
  have "lookup (nodes example_table) (OT_INTEGER 6) = None" by code_simp
  moreover have "map_option snd (NewSlot (\<lambda>x. x) example_table (OT_INTEGER 6) (OT_BOOL True)) = Some False"
    by code_simp
  moreover obtain t b where "NewSlot (\<lambda>x. x) example_table (OT_INTEGER 6) (OT_BOOL True) = Some (t, b)"
    "lookup (nodes t) = (lookup (nodes example_table))(OT_INTEGER 6 \<mapsto> OT_BOOL True)"
    using slots.ins_ok [OF example_table_ok, of "OT_INTEGER 6" "OT_BOOL True"] by blast
  ultimately show ?thesis by simp
qed

end
