(* ===== verification/Rng.thy ===== *)
theory Rng
  imports SqObject
begin

text \<open>
  The random numbers of \<open>acorns.cpp\<close>: the PCG32 generator that is reseeded from the clock on every
  call (\<open>doRandom\<close>), the script function \<open>random\<close> (\<open>sqrandom\<close>), and the quotes that are picked with
  it. The clock \<open>micros()\<close> is an argument. Machine words keep their widths: the state is 64 bits,
  the output and \<open>SQInteger\<close> 32.
\<close>

section \<open>The generator\<close>

record rng =
  entropy :: "64 word"
  rng_key :: "64 word"

definition rng_init :: rng where
  "rng_init = \<lparr>entropy = 88172645463325252, rng_key = 787987897897\<rparr>"

definition doRandom :: "32 word \<Rightarrow> rng \<Rightarrow> 32 word \<times> rng" where
  "doRandom micros g =
     (let oldstate = entropy g + ucast micros;
          entropy' = oldstate * 6364136223846793005 + (rng_key g OR 1);
          xorshifted = ucast (drop_bit 27 (drop_bit 18 oldstate XOR oldstate)) :: 32 word;
          rot = ucast (drop_bit 59 oldstate) :: 32 word
      in (drop_bit (unat rot) xorshifted OR push_bit (unat ((- rot) AND 31)) xorshifted,
          g\<lparr>entropy := entropy'\<rparr>))"

text \<open>
  \<open>sqrandom\<close> on the frame of a native call: the arguments are the objects at 2 and 3, above \<open>this\<close>.
  An argument that is no number leaves its variable at 0. The remainder is computed on unsigned
  words, to which \<open>mx\<close> is converted; a zero divisor is a fault. \<open>None\<close> is \<open>SQ_ERROR\<close>.
\<close>

definition arg_integer :: "(32 word \<Rightarrow> 32 word) \<Rightarrow> sqobject list \<Rightarrow> nat \<Rightarrow> 32 word" where
  "arg_integer f2i stk idx = (case sq_getinteger f2i (stk ! (idx - 1)) of None \<Rightarrow> 0 | Some i \<Rightarrow> i)"

definition sqrandom ::
  "(32 word \<Rightarrow> 32 word) \<Rightarrow> 32 word \<Rightarrow> sqobject list \<Rightarrow> rng \<Rightarrow> (32 word option \<times> rng) outcome" where
  "sqrandom f2i micros stk g =
     (if length stk = 2 then
        let mx = arg_integer f2i stk 2; (r, g') = doRandom micros g in
        if mx = 0 then Inl DivideByZero else Inr (Some (r mod mx), g')
      else if length stk = 3 then
        let mn = arg_integer f2i stk 2; mx = arg_integer f2i stk 3; (r, g') = doRandom micros g in
        if mx = 0 then Inl DivideByZero else Inr (Some (r mod mx + mn), g')
      else Inr (None, g))"

section \<open>Strings in flash and the quotes\<close>

text \<open>
  \<open>readprogstr\<close>: the first loop counts the characters up to and including the terminator, the second
  copies them into a block of \<open>len + 2\<close> bytes, whose cap the copy must not exceed. The memory that
  \<open>ifsh\<close> points to is the list \<open>mem\<close>; reading past it is a fault. \<open>ok\<close> is whether \<open>malloc\<close> succeeds.
\<close>

fun progstr_len :: "char list \<Rightarrow> nat \<Rightarrow> nat outcome" where
  "progstr_len [] len = Inl OutOfBounds"
| "progstr_len (c # p) len = (if c = NUL then Inr (len + 1) else progstr_len p (len + 1))"

fun progstr_copy :: "nat \<Rightarrow> char list \<Rightarrow> char list \<Rightarrow> char list outcome" where
  "progstr_copy cap [] buf = Inl OutOfBounds"
| "progstr_copy cap (c # p) buf =
     (if length buf \<ge> cap then Inl OutOfBounds
      else if c = NUL then Inr (buf @ [c]) else progstr_copy cap p (buf @ [c]))"

definition readprogstr :: "bool \<Rightarrow> char list option \<Rightarrow> string outcome" where
  "readprogstr ok ifsh =
     (case ifsh of
        None \<Rightarrow> Inr ''NULLPTR''
      | Some mem \<Rightarrow>
          andthen (progstr_len mem 0)
            (\<lambda>len. if \<not> ok then Inr ''MALLOCERR''
                   else andthen (progstr_copy (len + 2) mem []) (\<lambda>buf. Inr (cstr buf))))"

definition quotes :: "string list" where
  \<open>quotes =
    [''"The men waited some time at the outpost."'',
     ''"This road is longer for some than others."'',
     ''"He carefully packed his travelsack before setting out."'',
     ''"His staff had been with him on many adventures."'',
     ''"From the top of the hill, he could see for miles."'',
     ''"She knew better than the others why the river was dry."'',
     ''"Only the fireflies lit the path as they made their way through the dark forest."'',
     ''"The treasure they sought had been buried years ago."'',
     ''"The stone glowed faintly when they passed by the door."'',
     ''"The mountain rose before them at the end of the path."'',
     ''"Her mother had warned her about this road."'',
     ''"The Caravansarai was still miles ahead."'',
     ''"His cloak was well-worn and had many small pockets"'',
     ''"Roads go ever ever on,'' @ [CHR 0x0A] @
      ''Over rock and under tree,'' @ [CHR 0x0A] @
      ''By caves where never sun has shone,'' @ [CHR 0x0A] @
      ''By streams that never find the sea;'' @ [CHR 0x0A] @
      ''Over snow by winter sown,'' @ [CHR 0x0A] @
      ''And through the merry flowers of June,'' @ [CHR 0x0A] @
      ''Over grass and over stone,'' @ [CHR 0x0A] @
      ''And under mountains in the moon."'' @ [CHR 0x0A] @
      ''-- J. R. R. Tolkien '',
     ''"The runes read 'I serve but the good,'' @ [CHR 0x0A] @
      ''        of life and liberty'"'' @ [CHR 0x0A] @
      ''    -Leslie Fish, "The Arizona Sword"'',
     ''"It's dangerous to go alone! Take this."'']\<close>

text \<open>The pointer table ends with a null pointer; each entry points to a terminated string.\<close>

definition acorn_Quoteslist :: "char list option list" where
  "acorn_Quoteslist = map (\<lambda>q. Some (q @ [NUL])) quotes @ [None]"

fun count_quotes :: "char list option list \<Rightarrow> nat \<Rightarrow> nat" where
  "count_quotes (Some q # qs) i = count_quotes qs (i + 1)"
| "count_quotes _ i = i"

definition numQuotes :: nat where
  "numQuotes = count_quotes acorn_Quoteslist 0"

definition acorn_getQuote :: "bool \<Rightarrow> 32 word \<Rightarrow> rng \<Rightarrow> string outcome \<times> rng" where
  "acorn_getQuote ok micros g =
     (let (r, g') = doRandom micros g
      in (readprogstr ok (acorn_Quoteslist ! (unat (r mod of_nat numQuotes))), g'))"

section \<open>Lemmas\<close>

text \<open>The C idiom for a rotation to the right.\<close>

lemma rotate_amount: "r < 32 \<Longrightarrow> unat ((- of_nat r) AND 31 :: 32 word) = (32 - r) mod 32"
proof -
  have "\<forall>r \<in> set [0..<32]. unat ((- of_nat r) AND 31 :: 32 word) = (32 - r) mod 32" by code_simp
  then show "r < 32 \<Longrightarrow> unat ((- of_nat r) AND 31 :: 32 word) = (32 - r) mod 32" by simp
qed

lemma rotate_idiom:
  fixes x :: "32 word"
  assumes "r < 32"
  shows "drop_bit r x OR push_bit (unat ((- of_nat r) AND 31 :: 32 word)) x = word_rotr r x"
proof (cases "r = 0")
  case False
  then have amount: "unat ((- of_nat r) AND 31 :: 32 word) = 32 - r" using assms by (simp add: rotate_amount)
  show ?thesis
  proof (rule bit_word_eqI)
    fix n assume n: "n < LENGTH(32)"
    have "n + r < 32 \<Longrightarrow> (n + r) mod 32 = n + r" "\<not> n + r < 32 \<Longrightarrow> (n + r) mod 32 = n + r - 32"
      using n assms by (simp_all add: mod_if)
    moreover have "\<not> n + r < 32 \<Longrightarrow> \<not> bit x (r + n)" by (auto dest: bit_imp_le_length)
    ultimately show "bit (drop_bit r x OR push_bit (unat ((- of_nat r) AND 31 :: 32 word)) x) n =
        bit (word_rotr r x) n"
      unfolding amount using n assms
      by (cases "n + r < 32") (auto simp: bit_simps bit_word_rotr_iff add.commute)
  qed
next
  case True
  moreover have "word_rotr 0 x = x" by (rule bit_word_eqI) (simp add: bit_word_rotr_iff)
  ultimately show ?thesis by simp
qed

text \<open>The multiplier of the generator is odd, so it has an inverse modulo \<open>2\<^sup>6\<^sup>4\<close>.\<close>

lemma lcg_inverse: "(6364136223846793005 :: 64 word) * 13877824140714322085 = 1"
  by simp

lemma affine_bij:
  fixes m :: "64 word"
  assumes "m * n = 1"
  shows "bij (\<lambda>s. (s + d) * m + c)"
proof (rule o_bij)
  have m: "m * n = 1" "n * m = 1" using assms by (simp_all add: mult.commute)
  show "(\<lambda>y. (y - c) * n - d) \<circ> (\<lambda>s. (s + d) * m + c) = id"
    by (simp add: fun_eq_iff mult.assoc m)
  show "(\<lambda>s. (s + d) * m + c) \<circ> (\<lambda>y. (y - c) * n - d) = id"
    by (simp add: fun_eq_iff mult.assoc m)
qed

lemma progstr_len_ok: "NUL \<notin> set s \<Longrightarrow> progstr_len (s @ NUL # rest) n = Inr (n + length s + 1)"
  by (induction s arbitrary: n) auto

lemma progstr_copy_ok:
  "NUL \<notin> set s \<Longrightarrow> length buf + length s < cap \<Longrightarrow>
   progstr_copy cap (s @ NUL # rest) buf = Inr (buf @ s @ [NUL])"
  by (induction s arbitrary: buf) auto

lemma readprogstr_ok: "NUL \<notin> set s \<Longrightarrow> readprogstr True (Some (s @ NUL # rest)) = Inr s"
  by (simp add: readprogstr_def progstr_len_ok progstr_copy_ok)

lemma numQuotes_eq: "numQuotes = length quotes" "length quotes = 16"
proof -
  have "count_quotes (map (\<lambda>q. Some (q @ [NUL])) qs @ [None]) i = i + length qs" for qs i
    by (induction qs arbitrary: i) auto
  then show "numQuotes = length quotes" by (simp add: numQuotes_def acorn_Quoteslist_def)
  show "length quotes = 16" by (simp add: quotes_def)
qed

lemma quotes_no_NUL: "q \<in> set quotes \<Longrightarrow> NUL \<notin> set q"
proof -
  have "list_all (\<lambda>q. NUL \<notin> set q) quotes" by code_simp
  then show "q \<in> set quotes \<Longrightarrow> NUL \<notin> set q" by (simp add: list_all_iff)
qed

section \<open>Properties\<close>

text \<open>The output function of PCG32 (XSH RR) on a 64-bit state, as its reference describes it.\<close>

definition pcg32_output :: "64 word \<Rightarrow> 32 word" where
  "pcg32_output s = word_rotr (unat (drop_bit 59 s)) (ucast (drop_bit 27 (drop_bit 18 s XOR s)))"

lemma rot_less: "unat (drop_bit 59 (s :: 64 word)) < 32"
proof -
  have "unat s < 2 ^ 64" using unsigned_less [of s] by simp
  then have "unat s div 2 ^ 59 < 32" by (simp add: less_mult_imp_div_less)
  then show ?thesis by (simp add: drop_bit_eq_div unat_div_distrib)
qed

text \<open>
  C28. \<open>doRandom\<close> computes the PCG32 output of the reseeded state (its shifts are the rotation by the
  top five bits, also for a rotation by zero), and for every clock value and key its state change is
  a bijection of the 64-bit states: a call never loses entropy.
\<close>

theorem doRandom_is_pcg32:
  "fst (doRandom micros g) = pcg32_output (entropy g + ucast micros) \<and>
   bij (\<lambda>e. entropy (snd (doRandom micros (g\<lparr>entropy := e\<rparr>))))"
proof
  let ?s = "entropy g + ucast micros"
  let ?d = "drop_bit 59 ?s" and ?x = "ucast (drop_bit 27 (drop_bit 18 ?s XOR ?s)) :: 32 word"
  have a: "unat (ucast ?d :: 32 word) = unat ?d"
    using rot_less [of ?s] by (simp add: unsigned_ucast_eq take_bit_nat_eq_self)
  have b: "(ucast ?d :: 32 word) = of_nat (unat ?d)" by simp
  have "fst (doRandom micros g) =
      drop_bit (unat (ucast ?d :: 32 word)) ?x OR push_bit (unat ((- ucast ?d) AND 31 :: 32 word)) ?x"
    by (simp only: doRandom_def Let_def fst_conv)
  also have "\<dots> = pcg32_output ?s"
    unfolding a unfolding b rotate_idiom [OF rot_less] pcg32_output_def ..
  finally show "fst (doRandom micros g) = pcg32_output ?s" .
  have "entropy (snd (doRandom micros (g\<lparr>entropy := e\<rparr>))) =
      (e + ucast micros) * 6364136223846793005 + (rng_key g OR 1)" for e
    by (cases g) (simp only: doRandom_def Let_def snd_conv rng.select_convs rng.update_convs)
  then show "bij (\<lambda>e. entropy (snd (doRandom micros (g\<lparr>entropy := e\<rparr>))))"
    using affine_bij [OF lcg_inverse, of "ucast micros" "rng_key g OR 1"] by simp
qed

text \<open>
  \<open>random(max)\<close> with a positive maximum returns a number in \<open>0 ..< max\<close>, and \<open>random(min, max)\<close>
  one in \<open>min ..< min + max\<close> when that bound does not overflow; so the second argument is the length
  of the range and not its end. A zero maximum, or one that is no number, divides by zero.
\<close>

theorem sqrandom_range:
  assumes "0 < sint mx" "sint mn + sint mx \<le> 2 ^ 31"
  shows "(\<exists>x g'. sqrandom f2i micros [this, OT_INTEGER mx] g = Inr (Some x, g') \<and>
            0 \<le> sint x \<and> sint x < sint mx) \<and>
         (\<exists>x g'. sqrandom f2i micros [this, OT_INTEGER mn, OT_INTEGER mx] g = Inr (Some x, g') \<and>
            sint mn \<le> sint x \<and> sint x < sint mn + sint mx) \<and>
         sqrandom f2i micros [this, OT_INTEGER 0] g = Inl DivideByZero \<and>
         sqrandom f2i micros [this, OT_STRING s] g = Inl DivideByZero"
proof -
  obtain r g' where r: "doRandom micros g = (r, g')" by (cases "doRandom micros g")
  have mx: "mx \<noteq> 0" using assms(1) by auto
  have q: "0 \<le> sint (r mod mx)" "sint (r mod mx) < sint mx" using sint_mod_bounds [OF assms(1)] by blast+
  have "sint mn + sint (r mod mx) < 2 ^ 31" using q assms(2) by simp
  then have "sint (r mod mx + mn) = sint (r mod mx) + sint mn"
    using q(1) sint_ge [of mn] by (simp add: sint_add32)
  then show ?thesis
    using r mx q by (simp add: sqrandom_def arg_integer_def Let_def numeral_3_eq_3)
qed

theorem sqrandom_range_witness:
  "\<exists>x g'. sqrandom (\<lambda>x. x) 5 [OT_NULL, OT_INTEGER (- 2), OT_INTEGER 10] rng_init = Inr (Some x, g') \<and>
     - 2 \<le> sint x \<and> sint x < 8"
  using sqrandom_range [of 10 "- 2" "\<lambda>x. x" 5 OT_NULL rng_init "[]"] by simp

text \<open>
  The documented range of \<open>random(min, max)\<close> ends at \<open>max\<close>, but a result can lie above it: on a
  fresh generator, at clock value 900000000, the script call \<open>random(10, 20)\<close> returns 28.
\<close>

theorem sqrandom_leaves_documented_range:
  "\<exists>g'. sqrandom f2i 900000000 [this, OT_INTEGER 10, OT_INTEGER 20] rng_init = Inr (Some 28, g')"
proof -
  have "fst (doRandom 900000000 rng_init) mod 20 + 10 = 28" by code_simp
  then show ?thesis
    by (cases "doRandom 900000000 rng_init")
       (simp add: sqrandom_def arg_integer_def Let_def numeral_3_eq_3)
qed

text \<open>
  A quote is always one of the sixteen of the list: the index stays below the null pointer that
  ends the list, and \<open>readprogstr\<close> copies the whole string without leaving its buffer.
\<close>

theorem acorn_getQuote_ok: "\<exists>q \<in> set quotes. fst (acorn_getQuote True micros g) = Inr q"
proof -
  obtain r g' where r: "doRandom micros g = (r, g')" by (cases "doRandom micros g")
  let ?i = "unat (r mod of_nat numQuotes)"
  have "r mod of_nat numQuotes < of_nat numQuotes"
    by (rule word_mod_less) (simp add: numQuotes_eq)
  then have i: "?i < length quotes" by (simp add: word_less_nat_alt numQuotes_eq)
  then have "acorn_Quoteslist ! ?i = Some (quotes ! ?i @ [NUL])"
    by (simp add: acorn_Quoteslist_def nth_append)
  then show ?thesis
    using i r readprogstr_ok [OF quotes_no_NUL [OF nth_mem [OF i]], of "[]"]
    by (auto simp: acorn_getQuote_def)
qed

end
