(* ===== verification/Programs.thy ===== *)
theory Programs
  imports Rng
begin

text \<open>
  The process table of \<open>acorns.cpp\<close>: programs, their busy and reference counts, the request queue of
  the thread pool, input buffers, loading and closing. A \<open>loadedProgram *\<close> is an address in the
  store \<open>progs\<close>; a freed block is not in the store, so that a use after \<open>free\<close> is a fault. Blocks that
  belong to one owner (input buffers, working directories) are values in that owner.

  Every function here runs under the global interpreter lock. Where the code releases the lock,
  the function takes a list \<open>env\<close>, one entry per release, of what other tasks do to the shared state
  meanwhile; \<open>Diverges\<close> says that the list ended while the code was still waiting.
\<close>

section \<open>State\<close>

definition ACORNS_MAXPROGRAMS :: nat where
  "ACORNS_MAXPROGRAMS = 8"

definition PROG_HASH_LEN :: nat where
  "PROG_HASH_LEN = 24"

text \<open>
  \<open>busy\<close> and \<open>refcount\<close> are of type \<open>char\<close>: eight bits. Function pointers, interpreters and their
  thread objects are addresses.
\<close>

record loadedProgram =
  slot :: "nat option"
  programID :: "char list"
  hash :: "char list"
  workingDir :: "string option"
  inputBuffer :: "char list option"
  inputBufferLen :: int
  busy :: "8 word"
  vm :: "addr option"
  threadObj :: addr
  parent :: "addr option"
  refcount :: "8 word"
  callbackRecievers :: "addr option"
  printfunc :: "addr option"
  errorfunc :: "addr option"

datatype task = RunLoaded | RunInputBuffer | UserTask addr

record request =
  rq_f :: task
  rq_program :: addr
  rq_arg :: nat

text \<open>What the manager asks of an interpreter, in order.\<close>

datatype vm_event =
    NewThread addr
  | Compile addr string
  | Call addr
  | Release addr addr
  | ForceClose addr

record acorns =
  progs :: "addr \<rightharpoonup> loadedProgram"
  rootInterpreter :: "addr option"
  loadedPrograms :: "addr option list"
  activeProgram :: "addr option"
  sharedMode :: bool
  request_queue :: "request list"
  gen :: rng
  vm_log :: "vm_event list"

definition prog_at :: "acorns \<Rightarrow> addr \<Rightarrow> loadedProgram outcome" where
  "prog_at st a = of_opt UseAfterFree (progs st a)"

definition set_prog :: "addr \<Rightarrow> loadedProgram \<Rightarrow> acorns \<Rightarrow> acorns" where
  "set_prog a p st = st\<lparr>progs := (progs st)(a \<mapsto> p)\<rparr>"

definition free_prog :: "addr \<Rightarrow> acorns \<Rightarrow> acorns" where
  "free_prog a st = st\<lparr>progs := (progs st)(a := None)\<rparr>"

definition log_vm :: "vm_event \<Rightarrow> acorns \<Rightarrow> acorns" where
  "log_vm e st = st\<lparr>vm_log := vm_log st @ [e]\<rparr>"

section \<open>Free and busy\<close>

text \<open>
  The walk from a program to its parents. The first argument bounds it; a program has the root
  interpreter as its parent and the root has none, so that a bound of two programs is enough.
\<close>

fun setbusy_loop :: "nat \<Rightarrow> addr option \<Rightarrow> acorns \<Rightarrow> acorns outcome" where
  "setbusy_loop n None st = Inr st"
| "setbusy_loop 0 (Some a) st = Inl Diverges"
| "setbusy_loop (Suc n) (Some a) st =
     andthen (prog_at st a)
       (\<lambda>p. setbusy_loop n (parent p) (set_prog a (p\<lparr>busy := busy p + 1\<rparr>) st))"

fun setfree_loop :: "nat \<Rightarrow> addr option \<Rightarrow> acorns \<Rightarrow> acorns outcome" where
  "setfree_loop n None st = Inr st"
| "setfree_loop 0 (Some a) st = Inl Diverges"
| "setfree_loop (Suc n) (Some a) st =
     andthen (prog_at st a)
       (\<lambda>p. setfree_loop n (parent p) (set_prog a (p\<lparr>busy := busy p - 1\<rparr>) st))"

definition setbusy :: "addr \<Rightarrow> acorns \<Rightarrow> acorns outcome" where
  "setbusy a st = setbusy_loop 2 (Some a) st"

definition setfree :: "addr \<Rightarrow> acorns \<Rightarrow> acorns outcome" where
  "setfree a st = setfree_loop 2 (Some a) st"

section \<open>Requests\<close>

definition QUEUE_LEN :: nat where
  "QUEUE_LEN = 25"

text \<open>\<open>_makeRequest\<close>: sending waits while the queue is full.\<close>

definition u_makeRequest :: "addr \<Rightarrow> task \<Rightarrow> nat \<Rightarrow> acorns \<Rightarrow> acorns outcome" where
  "u_makeRequest program f arg st =
     andthen (prog_at st program)
       (\<lambda>p. let st' = set_prog program (p\<lparr>refcount := refcount p + 1\<rparr>) st in
            if length (request_queue st') \<ge> QUEUE_LEN then Inl Diverges
            else Inr (st'\<lparr>request_queue := request_queue st' @
                         [\<lparr>rq_f = f, rq_program = program, rq_arg = arg\<rparr>]\<rparr>))"

section \<open>The program table\<close>

text \<open>
  Where a program pointer is stored: the variable \<open>rootInterpreter\<close> or an entry of the table. A null
  identifier stands for the root interpreter.
\<close>

datatype slotref = RootSlot | Slot nat

fun slot_loop :: "acorns \<Rightarrow> string \<Rightarrow> nat \<Rightarrow> addr option list \<Rightarrow> nat option outcome" where
  "slot_loop st ident i [] = Inr None"
| "slot_loop st ident i (None # as) = slot_loop st ident (Suc i) as"
| "slot_loop st ident i (Some a # as) =
     andthen (prog_at st a)
       (\<lambda>p. if cstr (programID p) = ident then Inr (Some i) else slot_loop st ident (Suc i) as)"

definition programSlotForId :: "string option \<Rightarrow> acorns \<Rightarrow> slotref option outcome" where
  "programSlotForId ident st =
     (case ident of
        None \<Rightarrow> Inr (if rootInterpreter st = None then None else Some RootSlot)
      | Some s \<Rightarrow> andthen (slot_loop st s 0 (loadedPrograms st)) (\<lambda>r. Inr (map_option Slot r)))"

fun prog_loop :: "acorns \<Rightarrow> string \<Rightarrow> addr option list \<Rightarrow> addr option outcome" where
  "prog_loop st ident [] = Inr None"
| "prog_loop st ident (None # as) = prog_loop st ident as"
| "prog_loop st ident (Some a # as) =
     andthen (prog_at st a)
       (\<lambda>p. if cstr (programID p) = ident then Inr (Some a) else prog_loop st ident as)"

definition programForId :: "string option \<Rightarrow> acorns \<Rightarrow> addr option outcome" where
  "programForId ident st =
     (case ident of
        None \<Rightarrow> Inr (rootInterpreter st)
      | Some s \<Rightarrow> prog_loop st s (loadedPrograms st))"

definition read_slot :: "slotref \<Rightarrow> acorns \<Rightarrow> addr option" where
  "read_slot s st = (case s of RootSlot \<Rightarrow> rootInterpreter st | Slot i \<Rightarrow> loadedPrograms st ! i)"

definition write_slot :: "slotref \<Rightarrow> addr option \<Rightarrow> acorns \<Rightarrow> acorns" where
  "write_slot s x st =
     (case s of
        RootSlot \<Rightarrow> st\<lparr>rootInterpreter := x\<rparr>
      | Slot i \<Rightarrow> st\<lparr>loadedPrograms := (loadedPrograms st)[i := x]\<rparr>)"

definition deref_prog :: "addr \<Rightarrow> acorns \<Rightarrow> acorns outcome" where
  "deref_prog a st =
     andthen (prog_at st a)
       (\<lambda>p. let p' = p\<lparr>refcount := refcount p - 1\<rparr> in
            if refcount p' = 0 then Inr (free_prog a st) else Inr (set_prog a p' st))"

definition makeRequest :: "string option \<Rightarrow> task \<Rightarrow> nat \<Rightarrow> acorns \<Rightarrow> acorns outcome" where
  "makeRequest ident f arg st =
     andthen (programForId ident st)
       (\<lambda>r. let st' = st\<lparr>activeProgram := r\<rparr> in
            case r of None \<Rightarrow> Inr st' | Some a \<Rightarrow> u_makeRequest a f arg st')"

section \<open>Input buffers\<close>

definition clearInput :: "string option \<Rightarrow> acorns \<Rightarrow> acorns outcome" where
  "clearInput ident st =
     andthen (programForId ident st)
       (\<lambda>r. let st' = st\<lparr>activeProgram := r\<rparr> in
            case r of
              None \<Rightarrow> Inr st'
            | Some a \<Rightarrow>
                andthen (prog_at st' a)
                  (\<lambda>p. if inputBuffer p = None then Inr st'
                       else Inr (set_prog a (p\<lparr>inputBuffer := None, inputBufferLen := 0\<rparr>) st')))"

text \<open>\<open>memcpy\<close> of \<open>n\<close> bytes into a block at a position; both blocks must hold them.\<close>

definition copy_into :: "char list \<Rightarrow> int \<Rightarrow> char list \<Rightarrow> int \<Rightarrow> char list outcome" where
  "copy_into block pos src n =
     (if n < 0 \<or> pos < 0 \<or> int (length block) < pos + n \<or> int (length src) < n then Inl OutOfBounds
      else Inr (take (nat pos) block @ take (nat n) src @ drop (nat (pos + n)) block))"

text \<open>
  A new block of a size the caller asked for: bytes of the list \<open>junk\<close> (what happens to be in
  memory), or none when the allocator has no memory (\<open>junk\<close> is shorter than the request). \<open>realloc\<close>
  keeps the old bytes that fit.
\<close>

definition c_malloc :: "char list \<Rightarrow> int \<Rightarrow> char list option" where
  "c_malloc junk n = (if n < 0 \<or> int (length junk) < n then None else Some (take (nat n) junk))"

definition c_realloc :: "char list \<Rightarrow> char list \<Rightarrow> int \<Rightarrow> char list option" where
  "c_realloc junk old n =
     map_option (\<lambda>new. take (length new) (old @ drop (length old) new)) (c_malloc junk n)"

definition writeToInput ::
  "char list \<Rightarrow> string option \<Rightarrow> char list \<Rightarrow> int \<Rightarrow> int \<Rightarrow> acorns \<Rightarrow> acorns outcome" where
  "writeToInput junk ident data len0 position0 st =
     andthen (programForId ident st)
       (\<lambda>r. let st' = st\<lparr>activeProgram := r\<rparr> in
            case r of
              None \<Rightarrow> Inr st'
            | Some a \<Rightarrow>
                andthen (prog_at st' a)
                  (\<lambda>p. let len = (if len0 = -1 then int (length (cstr data)) else len0);
                           position = (if position0 = -1 then inputBufferLen p else position0);
                           needed = len + position;
                           addlen = (if len = 1 then 0 else 1)
                       in case inputBuffer p of
                            None \<Rightarrow>
                              (case c_malloc junk (len + 2) of
                                 None \<Rightarrow> Inl NullDeref
                               | Some b \<Rightarrow>
                                   andthen (copy_into b position data len)
                                     (\<lambda>b'. Inr (set_prog a
                                        (p\<lparr>inputBuffer := Some b', inputBufferLen := needed\<rparr>) st')))
                          | Some b \<Rightarrow>
                              (case c_realloc junk b (needed + addlen) of
                                 None \<Rightarrow> Inr st'
                               | Some x \<Rightarrow>
                                   andthen (copy_into x position data len)
                                     (\<lambda>b'. Inr (set_prog a
                                        (p\<lparr>inputBuffer := Some b', inputBufferLen := needed\<rparr>) st')))))"

section \<open>Closing\<close>

text \<open>Two values of \<open>esp_random()\<close> and one of \<open>micros()\<close>, read when a program is closed or loaded.\<close>

type_synonym noise = "32 word \<times> 32 word \<times> 32 word"

type_synonym env = "(acorns \<Rightarrow> acorns) list"

definition reseed :: "noise \<Rightarrow> rng \<Rightarrow> rng" where
  "reseed nz g = (case nz of (r1, r2, _) \<Rightarrow>
     g\<lparr>entropy := entropy g + ucast r1, rng_key := rng_key g + ucast r2\<rparr>)"

definition stir :: "noise \<Rightarrow> rng \<Rightarrow> rng" where
  "stir nz g = (case nz of (_, _, micros) \<Rightarrow> snd (doRandom micros (reseed nz g)))"

text \<open>
  \<open>while ((*old)->busy)\<close>: the slot is read again after every release of the lock, and the loop is
  left when it has become empty.
\<close>

fun wait_slot :: "env \<Rightarrow> slotref \<Rightarrow> acorns \<Rightarrow> (acorns \<times> env) outcome" where
  "wait_slot [] s st =
     andthen (of_opt NullDeref (read_slot s st))
       (\<lambda>a. andthen (prog_at st a) (\<lambda>p. if busy p = 0 then Inr (st, []) else Inl Diverges))"
| "wait_slot (e # es) s st =
     andthen (of_opt NullDeref (read_slot s st))
       (\<lambda>a. andthen (prog_at st a)
         (\<lambda>p. if busy p = 0 then Inr (st, e # es)
              else let st' = (e st)\<lparr>activeProgram := read_slot s (e st)\<rparr>
                   in if read_slot s st' = None then Inr (st', es) else wait_slot es s st'))"

definition shutdown_slot :: "slotref \<Rightarrow> acorns \<Rightarrow> acorns outcome" where
  "shutdown_slot s st =
     (case read_slot s st of
        None \<Rightarrow> Inr st
      | Some a \<Rightarrow>
          andthen (prog_at st a)
            (\<lambda>p. let p1 = p\<lparr>workingDir := None, inputBuffer := None, vm := None\<rparr>;
                     st1 = (case vm p of None \<Rightarrow> st | Some v \<Rightarrow> log_vm (Release v (threadObj p)) st)
                 in andthen (deref_prog a (set_prog a p1 st1))
                      (\<lambda>st2. Inr (write_slot s None st2))))"

definition u_closeProgram :: "noise \<Rightarrow> string option \<Rightarrow> env \<Rightarrow> acorns \<Rightarrow> (acorns \<times> env) outcome" where
  "u_closeProgram nz ident env st0 =
     (let st = st0\<lparr>gen := stir nz (gen st0)\<rparr> in
      andthen (programSlotForId ident st)
        (\<lambda>old. case old of
                 None \<Rightarrow> Inr (st, env)
               | Some s \<Rightarrow>
                   andthen (wait_slot env s st)
                     (\<lambda>(st1, env1). andthen (shutdown_slot s st1) (\<lambda>st2. Inr (st2, env1)))))"

definition forceclose :: "string option \<Rightarrow> acorns \<Rightarrow> acorns outcome" where
  "forceclose ident st =
     andthen (programForId ident st)
       (\<lambda>old. case old of
                None \<Rightarrow> Inr st
              | Some a \<Rightarrow>
                  andthen (prog_at st a)
                    (\<lambda>p. andthen (of_opt NullDeref (vm p)) (\<lambda>v. Inr (log_vm (ForceClose v) st))))"

definition closeProgram :: "noise \<Rightarrow> string option \<Rightarrow> bool \<Rightarrow> env \<Rightarrow> acorns \<Rightarrow> (acorns \<times> env) outcome" where
  "closeProgram nz ident force env st =
     andthen (if force then forceclose ident st else Inr st) (u_closeProgram nz ident env)"

text \<open>
  The script function \<open>forceClose\<close>. The identifier is copied into a buffer of 32 bytes; \<open>None\<close> is the
  error result. An argument that is no string leaves the pointer uninitialised and its size at -1.
\<close>

definition sqcloseProgram :: "noise \<Rightarrow> sqobject \<Rightarrow> env \<Rightarrow> acorns \<Rightarrow> (acorns \<times> env) option outcome" where
  "sqcloseProgram nz arg env st =
     (case arg of
        OT_STRING s \<Rightarrow>
          if length s > 31 then Inr None
          else let id2 = cstr (s @ [NUL]) in
               andthen (forceclose (Some id2) st)
                 (\<lambda>st1. andthen (u_closeProgram nz (Some id2) env st1) (\<lambda>r. Inr (Some r)))
      | _ \<Rightarrow> Inl OutOfBounds)"

section \<open>Running\<close>

text \<open>
  What the interpreter does with the closure on top of its stack is a parameter: \<open>call v st\<close> is the
  state after the call, with whatever the script and the tasks that ran while it yielded did, and
  whether it ended without an error.
\<close>

type_synonym interp = "addr \<Rightarrow> acorns \<Rightarrow> acorns \<times> bool"

definition vm_of :: "addr \<Rightarrow> acorns \<Rightarrow> addr outcome" where
  "vm_of a st = andthen (prog_at st a) (\<lambda>p. of_opt NullDeref (vm p))"

definition runLoaded :: "interp \<Rightarrow> noise \<Rightarrow> addr \<Rightarrow> nat \<Rightarrow> env \<Rightarrow> acorns \<Rightarrow> (acorns \<times> env) outcome" where
  "runLoaded call nz a d env st =
     andthen (vm_of a st)
       (\<lambda>v. let (st1, ok) = call v (log_vm (Call v) st) in
            if \<not> ok \<and> d = 1 then
              andthen (setfree a st1)
                (\<lambda>st2. andthen (prog_at st2 a)
                  (\<lambda>p. andthen (u_closeProgram nz (Some (cstr (programID p))) env st2)
                    (\<lambda>(st3, env3). andthen (setbusy a st3) (\<lambda>st4. Inr (st4, env3)))))
            else andthen (vm_of a st1) (\<lambda>_. Inr (st1, env)))"

text \<open>\<open>compiles\<close> says whether the compiler accepts a source text.\<close>

definition runInputBuffer ::
  "(string \<Rightarrow> bool) \<Rightarrow> interp \<Rightarrow> noise \<Rightarrow> addr \<Rightarrow> nat \<Rightarrow> env \<Rightarrow> acorns \<Rightarrow> (acorns \<times> env) outcome" where
  "runInputBuffer compiles call nz a d env st =
     andthen (prog_at st a)
       (\<lambda>p. andthen (of_opt NullDeref (inputBuffer p))
         (\<lambda>b. if inputBufferLen p < 0 \<or> int (length b) \<le> inputBufferLen p then Inl OutOfBounds
              else let b' = b[nat (inputBufferLen p) := NUL];
                       st1 = set_prog a (p\<lparr>inputBuffer := Some b'\<rparr>) st
                   in andthen (vm_of a st1)
                        (\<lambda>v. let src = take (nat (inputBufferLen p) + 1) b';
                                 st2 = log_vm (Compile v src) st1
                             in if compiles src then
                                  andthen (runLoaded call nz a 0 env st2)
                                    (\<lambda>(st3, env3). andthen (prog_at st3 a)
                                      (\<lambda>p3. Inr (set_prog a
                                         (p3\<lparr>inputBuffer := None, inputBufferLen := 0\<rparr>) st3, env3)))
                                else Inr (st2, env))))"

section \<open>Loading\<close>

text \<open>
  What a load gets from the allocator and from \<open>sq_newthread\<close>: the address of the new program, the
  bytes that were in its memory, a new interpreter and its thread object.
\<close>

record fresh =
  fr_addr :: addr
  fr_junk :: loadedProgram
  fr_vm :: addr
  fr_thread :: addr

fun free_slot :: "nat \<Rightarrow> addr option list \<Rightarrow> nat option" where
  "free_slot i [] = None"
| "free_slot i (None # as) = Some i"
| "free_slot i (Some a # as) = free_slot (Suc i) as"

text \<open>\<open>while (old->busy)\<close>: here the program itself is looked at after every release of the lock.\<close>

fun wait_prog :: "env \<Rightarrow> addr \<Rightarrow> acorns \<Rightarrow> (acorns \<times> env) outcome" where
  "wait_prog [] a st = andthen (prog_at st a) (\<lambda>p. if busy p = 0 then Inr (st, []) else Inl Diverges)"
| "wait_prog (e # es) a st =
     andthen (prog_at st a) (\<lambda>p. if busy p = 0 then Inr (st, e # es) else wait_prog es a (e st))"

text \<open>\<open>strcpy\<close> of a short identifier; of a long one fifteen bytes, and no terminator.\<close>

definition store_id :: "string \<Rightarrow> char list \<Rightarrow> char list" where
  "store_id ident junk =
     (if length ident < 16 then ident @ NUL # drop (length ident + 1) junk
      else take 15 ident @ drop 15 junk)"

definition new_program ::
  "fresh \<Rightarrow> nat \<Rightarrow> addr option \<Rightarrow> addr \<Rightarrow> string \<Rightarrow> char list \<Rightarrow> addr option \<Rightarrow> addr option
     \<Rightarrow> string option \<Rightarrow> loadedProgram" where
  "new_program fr i root v ident code onerror onprint wd =
     \<lparr>slot = Some i,
      programID = store_id ident (programID (fr_junk fr)),
      hash = take PROG_HASH_LEN code,
      workingDir = wd,
      inputBuffer = None,
      inputBufferLen = 0,
      busy = 0,
      vm = Some v,
      threadObj = fr_thread fr,
      parent = root,
      refcount = 1,
      callbackRecievers = None,
      printfunc = onprint,
      errorfunc = onerror\<rparr>"

text \<open>The end of \<open>_loadProgram\<close>: a free slot is taken, the program is created, compiled and run.\<close>

definition install_program ::
  "(string \<Rightarrow> bool) \<Rightarrow> interp \<Rightarrow> noise \<Rightarrow> fresh \<Rightarrow> char list \<Rightarrow> string option \<Rightarrow> bool \<Rightarrow> addr option
     \<Rightarrow> addr option \<Rightarrow> string option \<Rightarrow> env \<Rightarrow> acorns \<Rightarrow> (acorns \<times> env \<times> int) outcome" where
  "install_program compiles call nz fr code ident synchronous onerror onprint wd env st =
     (case free_slot 0 (loadedPrograms st) of
        None \<Rightarrow> Inr (st, env, 1)
      | Some i \<Rightarrow>
          andthen (of_opt NullDeref (rootInterpreter st))
            (\<lambda>root. andthen (vm_of root st)
              (\<lambda>rootvm. andthen (of_opt NullDeref ident)
                (\<lambda>s. if length code < PROG_HASH_LEN \<or> NUL \<notin> set code then Inl OutOfBounds
                     else
                       let a = fr_addr fr;
                           v = (if sharedMode st then rootvm else fr_vm fr);
                           st1 = (if sharedMode st then st else log_vm (NewThread v) st);
                           st2 = write_slot (Slot i) (Some a)
                                   (set_prog a (new_program fr i (Some root) v s code onerror onprint wd) st1);
                           st3 = log_vm (Compile v (cstr code)) st2
                       in if compiles (cstr code) then
                            if synchronous then
                              andthen (setbusy a st3)
                                (\<lambda>st4. andthen (runLoaded call nz a 1 env st4)
                                  (\<lambda>(st5, env5). case read_slot (Slot i) st5 of
                                       None \<Rightarrow> Inr (st5, env5, 0)
                                     | Some b \<Rightarrow> andthen (setfree b st5) (\<lambda>st6. Inr (st6, env5, 0))))
                            else andthen (u_makeRequest a RunLoaded 1 st3) (\<lambda>st4. Inr (st4, env, 0))
                          else andthen (u_closeProgram nz ident env st3)
                                 (\<lambda>(st4, env4). Inr (st4, env4, 0))))))"

definition u_loadProgram ::
  "(string \<Rightarrow> bool) \<Rightarrow> interp \<Rightarrow> noise \<Rightarrow> fresh \<Rightarrow> char list option \<Rightarrow> string option \<Rightarrow> bool
     \<Rightarrow> addr option \<Rightarrow> addr option \<Rightarrow> string option \<Rightarrow> env \<Rightarrow> acorns \<Rightarrow> (acorns \<times> env \<times> int) outcome" where
  "u_loadProgram compiles call nz fr code0 ident synchronous onerror onprint wd env st0 =
     (let st = st0\<lparr>gen := reseed nz (gen st0)\<rparr> in
      andthen (programForId ident st)
        (\<lambda>old. case old of
           None \<Rightarrow>
             (case code0 of
                None \<Rightarrow> Inr (st, env, 1)
              | Some code \<Rightarrow>
                  install_program compiles call nz fr code ident synchronous onerror onprint wd env st)
         | Some a \<Rightarrow>
             andthen (prog_at st a)
               (\<lambda>p. case (case code0 of None \<Rightarrow> inputBuffer p | Some c \<Rightarrow> Some c) of
                  None \<Rightarrow> Inr (st, env, 1)
                | Some code \<Rightarrow>
                    let st1 = set_prog a (p\<lparr>inputBuffer := None\<rparr>) st in
                    if length code < PROG_HASH_LEN then Inl OutOfBounds
                    else if hash p = take PROG_HASH_LEN code then Inr (st1, env, 0)
                    else
                      andthen (wait_prog env a st1)
                        (\<lambda>(st2, env2). andthen (u_closeProgram nz ident env2 st2)
                          (\<lambda>(st3, env3). install_program compiles call nz fr code ident synchronous
                                            onerror onprint wd env3 st3)))))"

definition loadProgram ::
  "(string \<Rightarrow> bool) \<Rightarrow> interp \<Rightarrow> noise \<Rightarrow> fresh \<Rightarrow> char list \<Rightarrow> string option \<Rightarrow> env \<Rightarrow> acorns
     \<Rightarrow> (acorns \<times> env \<times> int) outcome" where
  "loadProgram compiles call nz fr code ident env st =
     andthen (u_loadProgram compiles call nz fr (Some code) ident False None None None env st)
       (\<lambda>(st', env', _). Inr (st', env', 0))"

definition runProgram ::
  "(string \<Rightarrow> bool) \<Rightarrow> interp \<Rightarrow> noise \<Rightarrow> fresh \<Rightarrow> char list \<Rightarrow> string option \<Rightarrow> addr option
     \<Rightarrow> addr option \<Rightarrow> string option \<Rightarrow> env \<Rightarrow> acorns \<Rightarrow> (acorns \<times> env \<times> int) outcome" where
  "runProgram compiles call nz fr code ident onerror onprint wd env st =
     andthen (u_loadProgram compiles call nz fr (Some code) ident True onerror onprint wd env st)
       (\<lambda>(st', env', _). Inr (st', env', 0))"

definition loadInputBuffer ::
  "(string \<Rightarrow> bool) \<Rightarrow> interp \<Rightarrow> noise \<Rightarrow> fresh \<Rightarrow> string option \<Rightarrow> bool \<Rightarrow> env \<Rightarrow> acorns
     \<Rightarrow> (acorns \<times> env \<times> int) outcome" where
  "loadInputBuffer compiles call nz fr ident forceClose env st =
     andthen (if forceClose then forceclose ident st else Inr st)
       (\<lambda>st1. andthen (u_loadProgram compiles call nz fr None ident False None None None env st1)
         (\<lambda>(st', env', _). Inr (st', env', 0)))"

definition isRunning :: "string option \<Rightarrow> char list option \<Rightarrow> acorns \<Rightarrow> int outcome" where
  "isRunning ident hsh st =
     andthen (programForId ident st)
       (\<lambda>r. case r of
              None \<Rightarrow> Inr 0
            | Some a \<Rightarrow>
                (case hsh of
                   None \<Rightarrow> Inr 1
                 | Some h \<Rightarrow>
                     andthen (prog_at st a)
                       (\<lambda>p. if length h < PROG_HASH_LEN then Inl OutOfBounds
                            else Inr (if hash p = take PROG_HASH_LEN h then 1 else 0))))"

section \<open>The store\<close>

lemma prog_at_Inr [simp, outcome_simps]: "prog_at st a = Inr p \<longleftrightarrow> progs st a = Some p"
  by (simp add: prog_at_def)

lemma prog_at_Some [simp]: "progs st a = Some p \<Longrightarrow> prog_at st a = Inr p"
  by (simp add: prog_at_def)

lemma prog_at_None: "progs st a = None \<Longrightarrow> prog_at st a = Inl UseAfterFree"
  by (simp add: prog_at_def)

lemma store_simps [simp]:
  "progs (set_prog a p st) = (progs st)(a \<mapsto> p)"
  "progs (free_prog a st) = (progs st)(a := None)"
  "progs (log_vm e st) = progs st"
  "progs (write_slot s x st) = progs st"
  "rootInterpreter (set_prog a p st) = rootInterpreter st"
  "rootInterpreter (free_prog a st) = rootInterpreter st"
  "rootInterpreter (log_vm e st) = rootInterpreter st"
  "loadedPrograms (set_prog a p st) = loadedPrograms st"
  "loadedPrograms (free_prog a st) = loadedPrograms st"
  "loadedPrograms (log_vm e st) = loadedPrograms st"
  "request_queue (set_prog a p st) = request_queue st"
  "request_queue (free_prog a st) = request_queue st"
  "request_queue (log_vm e st) = request_queue st"
  "request_queue (write_slot s x st) = request_queue st"
  "vm_log (set_prog a p st) = vm_log st"
  "vm_log (free_prog a st) = vm_log st"
  "vm_log (log_vm e st) = vm_log st @ [e]"
  "vm_log (write_slot s x st) = vm_log st"
  by (cases s; simp add: set_prog_def free_prog_def log_vm_def write_slot_def)+

lemma slot_simps [simp]:
  "read_slot s (set_prog a p st) = read_slot s st"
  "read_slot s (free_prog a st) = read_slot s st"
  "read_slot s (log_vm e st) = read_slot s st"
  "rootInterpreter (write_slot (Slot i) x st) = rootInterpreter st"
  "loadedPrograms (write_slot (Slot i) x st) = (loadedPrograms st)[i := x]"
  by (cases s; simp add: read_slot_def write_slot_def)+

section \<open>Well-formed program tables\<close>

definition table_wf :: "acorns \<Rightarrow> bool" where
  "table_wf st \<longleftrightarrow>
     length (loadedPrograms st) = ACORNS_MAXPROGRAMS \<and>
     (\<exists>r R. rootInterpreter st = Some r \<and> progs st r = Some R \<and> parent R = None \<and> vm R \<noteq> None \<and>
        Some r \<notin> set (loadedPrograms st)) \<and>
     (\<forall>a. Some a \<in> set (loadedPrograms st) \<longrightarrow>
        (\<exists>p. progs st a = Some p \<and> parent p = rootInterpreter st \<and> vm p \<noteq> None \<and> refcount p \<noteq> 0)) \<and>
     distinct (filter (\<lambda>x. x \<noteq> None) (loadedPrograms st))"

text \<open>No two entries of the table have the same identifier.\<close>

definition ids_unique :: "acorns \<Rightarrow> bool" where
  "ids_unique st \<longleftrightarrow>
     (\<forall>a b p q. Some a \<in> set (loadedPrograms st) \<longrightarrow> Some b \<in> set (loadedPrograms st) \<longrightarrow>
        progs st a = Some p \<longrightarrow> progs st b = Some q \<longrightarrow> cstr (programID p) = cstr (programID q) \<longrightarrow> a = b)"

definition has_id :: "acorns \<Rightarrow> string \<Rightarrow> addr \<Rightarrow> bool" where
  "has_id st s a \<longleftrightarrow> (\<exists>p. progs st a = Some p \<and> cstr (programID p) = s)"

lemma table_wfD:
  assumes "table_wf st"
  shows "length (loadedPrograms st) = ACORNS_MAXPROGRAMS"
    "Some a \<in> set (loadedPrograms st) \<Longrightarrow>
       \<exists>p. progs st a = Some p \<and> parent p = rootInterpreter st \<and> vm p \<noteq> None \<and> refcount p \<noteq> 0"
    "distinct (filter (\<lambda>x. x \<noteq> None) (loadedPrograms st))"
  using assms by (auto simp: table_wf_def)

lemma table_wf_root:
  assumes "table_wf st"
  obtains r R where "rootInterpreter st = Some r" "progs st r = Some R" "parent R = None" "vm R \<noteq> None"
    "Some r \<notin> set (loadedPrograms st)"
  using assms by (auto simp: table_wf_def)

lemma prog_loop_spec:
  "\<forall>a. Some a \<in> set as \<longrightarrow> progs st a \<noteq> None \<Longrightarrow>
   \<exists>r. prog_loop st s as = Inr r \<and>
     (case r of None \<Rightarrow> \<forall>a. Some a \<in> set as \<longrightarrow> \<not> has_id st s a
      | Some a \<Rightarrow> Some a \<in> set as \<and> has_id st s a)"
proof (induction as)
  case (Cons x as)
  then have IH: "\<exists>r. prog_loop st s as = Inr r \<and>
     (case r of None \<Rightarrow> \<forall>a. Some a \<in> set as \<longrightarrow> \<not> has_id st s a
      | Some a \<Rightarrow> Some a \<in> set as \<and> has_id st s a)" by simp
  show ?case
  proof (cases x)
    case None
    with IH show ?thesis by (auto split: option.splits)
  next
    case (Some a)
    then obtain p where p: "progs st a = Some p" using Cons.prems by auto
    show ?thesis
    proof (cases "cstr (programID p) = s")
      case True
      then show ?thesis using p Some by (auto simp: has_id_def)
    next
      case False
      then have "\<not> has_id st s a" using p by (simp add: has_id_def)
      then show ?thesis using IH p Some False by (auto split: option.splits)
    qed
  qed
qed simp

lemma slot_loop_spec:
  "\<forall>a. Some a \<in> set as \<longrightarrow> progs st a \<noteq> None \<Longrightarrow>
   \<exists>r. slot_loop st s i as = Inr r \<and>
     prog_loop st s as = Inr (case r of None \<Rightarrow> None | Some j \<Rightarrow> as ! (j - i)) \<and>
     (case r of None \<Rightarrow> True | Some j \<Rightarrow> i \<le> j \<and> j - i < length as \<and> as ! (j - i) \<noteq> None)"
proof (induction as arbitrary: i)
  case (Cons x as)
  have "\<forall>a. Some a \<in> set as \<longrightarrow> progs st a \<noteq> None" using Cons.prems by simp
  from Cons.IH [OF this, of "Suc i"] obtain r where r: "slot_loop st s (Suc i) as = Inr r"
     "prog_loop st s as = Inr (case r of None \<Rightarrow> None | Some j \<Rightarrow> as ! (j - Suc i))"
     "case r of None \<Rightarrow> True | Some j \<Rightarrow> Suc i \<le> j \<and> j - Suc i < length as \<and> as ! (j - Suc i) \<noteq> None"
    by blast
  have shift: "(x # as) ! (j - i) = as ! (j - Suc i)" if "Suc i \<le> j" for j
    using that by (simp add: nth_Cons' diff_diff_eq)
  show ?case
  proof (cases x)
    case None
    with r show ?thesis by (cases r) (auto simp: shift)
  next
    case (Some a)
    then obtain p where p: "progs st a = Some p" using Cons.prems by auto
    then show ?thesis using r Some by (cases r) (auto simp: shift)
  qed
qed simp

lemma programForId_spec:
  assumes "table_wf st"
  obtains r where "programForId (Some s) st = Inr r"
    "case r of None \<Rightarrow> \<forall>a. Some a \<in> set (loadedPrograms st) \<longrightarrow> \<not> has_id st s a
     | Some a \<Rightarrow> Some a \<in> set (loadedPrograms st) \<and> has_id st s a"
proof -
  have "\<forall>a. Some a \<in> set (loadedPrograms st) \<longrightarrow> progs st a \<noteq> None"
    using table_wfD(2) [OF assms] by blast
  from prog_loop_spec [OF this, where s = s] that show ?thesis by (auto simp: programForId_def)
qed

lemma programSlotForId_spec:
  assumes "table_wf st"
  obtains r where "programSlotForId (Some s) st = Inr (map_option Slot r)"
    "programForId (Some s) st = Inr (case r of None \<Rightarrow> None | Some j \<Rightarrow> loadedPrograms st ! j)"
    "case r of None \<Rightarrow> True | Some j \<Rightarrow> j < length (loadedPrograms st) \<and> loadedPrograms st ! j \<noteq> None"
proof -
  have "\<forall>a. Some a \<in> set (loadedPrograms st) \<longrightarrow> progs st a \<noteq> None"
    using table_wfD(2) [OF assms] by blast
  from slot_loop_spec [OF this, where s = s and i = 0] obtain r where
    "slot_loop st s 0 (loadedPrograms st) = Inr r"
    "prog_loop st s (loadedPrograms st) = Inr (case r of None \<Rightarrow> None | Some j \<Rightarrow> loadedPrograms st ! j)"
    "case r of None \<Rightarrow> True | Some j \<Rightarrow> j < length (loadedPrograms st) \<and> loadedPrograms st ! j \<noteq> None"
    by (auto simp del: One_nat_def cong: option.case_cong)
  then show ?thesis using that by (simp add: programSlotForId_def programForId_def)
qed

section \<open>Free and busy\<close>

definition bump :: "8 word \<Rightarrow> addr \<Rightarrow> acorns \<Rightarrow> acorns" where
  "bump d a st = st\<lparr>progs := \<lambda>x. if x = a then map_option (\<lambda>p. p\<lparr>busy := busy p + d\<rparr>) (progs st x) else progs st x\<rparr>"

text \<open>A program and its ancestors: itself and, unless it is the root, the root.\<close>

definition child_of_root :: "acorns \<Rightarrow> addr \<Rightarrow> bool" where
  "child_of_root st a \<longleftrightarrow>
     (\<exists>p r R. progs st a = Some p \<and> rootInterpreter st = Some r \<and> progs st r = Some R \<and> parent R = None \<and>
        (if a = r then True else parent p = Some r))"

definition adjust_busy :: "8 word \<Rightarrow> addr \<Rightarrow> acorns \<Rightarrow> acorns" where
  "adjust_busy d a st =
     (let st1 = bump d a st in
      case rootInterpreter st of Some r \<Rightarrow> if r = a then st1 else bump d r st1 | None \<Rightarrow> st1)"

lemma set_prog_bump: "progs st a = Some p \<Longrightarrow> set_prog a (p\<lparr>busy := busy p + d\<rparr>) st = bump d a st"
  by (simp add: set_prog_def bump_def fun_eq_iff)

lemma setbusy_eq:
  assumes "child_of_root st a"
  shows "setbusy a st = Inr (adjust_busy 1 a st)" "setfree a st = Inr (adjust_busy (- 1) a st)"
proof -
  obtain p r R where p: "progs st a = Some p" "rootInterpreter st = Some r" "progs st r = Some R"
    "parent R = None" "if a = r then True else parent p = Some r"
    using assms by (auto simp: child_of_root_def)
  have b: "progs (bump d a st) r = Some R" if "a \<noteq> r" for d using that p by (simp add: bump_def)
  show "setbusy a st = Inr (adjust_busy 1 a st)"
    using p b by (cases "a = r")
      (simp_all add: setbusy_def numeral_2_eq_2 adjust_busy_def Let_def set_prog_bump)
  show "setfree a st = Inr (adjust_busy (- 1) a st)"
    using p b set_prog_bump [of st a p "- 1"] set_prog_bump [of "bump (- 1) a st" r R "- 1"]
    by (cases "a = r") (simp_all add: setfree_def numeral_2_eq_2 adjust_busy_def Let_def)
qed

lemma bump_bump [simp]: "bump d a (bump e a st) = bump (e + d) a st"
  by (auto simp: bump_def fun_eq_iff option.map_comp o_def add.assoc split: option.splits)

lemma bump_zero [simp]: "bump 0 a st = st"
proof -
  have "(\<lambda>x. if x = a then map_option (\<lambda>p. p\<lparr>busy := busy p + 0\<rparr>) (progs st x) else progs st x) = progs st"
    by (auto simp: fun_eq_iff option.map_id [unfolded id_def])
  then show ?thesis unfolding bump_def by simp
qed

lemma bump_commute: "bump d a (bump e b st) = bump e b (bump d a st)"
  by (auto simp: bump_def fun_eq_iff option.map_comp o_def add.commute add.left_commute)

end
