(* ===== verification/Pool.thy ===== *)
theory Pool
  imports Programs
begin

text \<open>
  The thread pool of \<open>acorns.cpp\<close> as a state machine. A pool thread runs \<open>InterpreterTask\<close>; the code
  between taking and releasing the global lock is one step (\<open>thread_act\<close>), and the steps of the
  threads interleave with those of the tasks that make requests, load and close programs. The
  invariant counts references and busy marks exactly; from it follow the absence of use after free
  and the mutual exclusion of threads on one program.
\<close>

section \<open>Threads\<close>

definition ACORNS_THREADS :: nat where
  "ACORNS_THREADS = 4"

text \<open>
  Where a thread is in \<open>InterpreterTask\<close>: at \<open>xQueueReceive\<close>, before it has the lock, in the loop that
  waits for the program, in \<open>rq.f\<close>, waiting in the \<open>_closeProgram\<close> of a failed \<open>runLoaded\<close>, or past it.
\<close>

datatype thread =
    Idle
  | Got request
  | Waiting request
  | Running request
  | Closing request slotref
  | Returning request

record pool =
  shared :: acorns
  threads :: "thread list"

definition begin_run :: "request \<Rightarrow> acorns \<Rightarrow> (acorns \<times> thread) outcome" where
  "begin_run rq st = andthen (setbusy (rq_program rq) st) (\<lambda>st'. Inr (st', Running rq))"

definition end_run :: "request \<Rightarrow> acorns \<Rightarrow> (acorns \<times> thread) outcome" where
  "end_run rq st =
     andthen (setfree (rq_program rq) st)
       (\<lambda>st1. andthen (deref_prog (rq_program rq) st1) (\<lambda>st2. Inr (st2, Idle)))"

text \<open>
  One locked section of a thread. \<open>failed\<close> is whether the script it runs ended in an error; what the
  script itself does to the shared state are steps of other tasks while the thread is \<open>Running\<close>.
\<close>

fun thread_act :: "noise \<Rightarrow> bool \<Rightarrow> thread \<Rightarrow> acorns \<Rightarrow> (acorns \<times> thread) outcome" where
  "thread_act nz failed Idle st =
     (case request_queue st of
        [] \<Rightarrow> Inr (st, Idle)
      | rq # rest \<Rightarrow> Inr (st\<lparr>request_queue := rest\<rparr>, Got rq))"
| "thread_act nz failed (Got rq) st =
     andthen (prog_at st (rq_program rq))
       (\<lambda>p. let st' = st\<lparr>activeProgram := Some (rq_program rq)\<rparr> in
            if busy p \<noteq> 0 then Inr (st', Waiting rq) else begin_run rq st')"
| "thread_act nz failed (Waiting rq) st =
     andthen (prog_at st (rq_program rq))
       (\<lambda>p. let st' = st\<lparr>activeProgram := Some (rq_program rq)\<rparr> in
            if vm p = None then andthen (deref_prog (rq_program rq) st') (\<lambda>st''. Inr (st'', Idle))
            else if busy p \<noteq> 0 then Inr (st', Waiting rq)
            else begin_run rq st')"
| "thread_act nz failed (Running rq) st =
     (if failed \<and> rq_f rq = RunLoaded \<and> rq_arg rq = 1 then
        andthen (setfree (rq_program rq) st)
          (\<lambda>st1. andthen (prog_at st1 (rq_program rq))
            (\<lambda>p. let st2 = st1\<lparr>gen := stir nz (gen st1)\<rparr> in
                 andthen (programSlotForId (Some (cstr (programID p))) st2)
                   (\<lambda>old. case old of
                            None \<Rightarrow> andthen (setbusy (rq_program rq) st2) (\<lambda>st3. Inr (st3, Returning rq))
                          | Some s \<Rightarrow> Inr (st2, Closing rq s))))
      else end_run rq st)"
| "thread_act nz failed (Closing rq s) st =
     (case read_slot s st of
        None \<Rightarrow> andthen (setbusy (rq_program rq) st) (\<lambda>st1. Inr (st1, Returning rq))
      | Some a \<Rightarrow>
          andthen (prog_at st a)
            (\<lambda>p. if busy p \<noteq> 0 then Inr (st, Closing rq s)
                 else andthen (shutdown_slot s st)
                        (\<lambda>st1. andthen (setbusy (rq_program rq) st1) (\<lambda>st2. Inr (st2, Returning rq)))))"
| "thread_act nz failed (Returning rq) st = end_run rq st"

section \<open>Steps of the system\<close>

text \<open>
  The steps of the other tasks: a request for a loaded program or the root, the end of \<open>_closeProgram\<close>
  on an entry whose program is not busy, the creation of a program in a free entry (with the request
  to run it), and everything that only touches input buffers, working directories, callbacks and
  bookkeeping (\<open>same_counts\<close>).
\<close>

definition same_counts :: "acorns \<Rightarrow> acorns \<Rightarrow> bool" where
  "same_counts st st' \<longleftrightarrow>
     rootInterpreter st' = rootInterpreter st \<and> loadedPrograms st' = loadedPrograms st \<and>
     request_queue st' = request_queue st \<and>
     (\<forall>a. map_option (\<lambda>p. (parent p, refcount p, busy p, vm p)) (progs st' a) =
          map_option (\<lambda>p. (parent p, refcount p, busy p, vm p)) (progs st a))"

definition create_program ::
  "fresh \<Rightarrow> nat \<Rightarrow> addr \<Rightarrow> addr \<Rightarrow> string \<Rightarrow> char list \<Rightarrow> acorns \<Rightarrow> acorns" where
  "create_program fr i r v ident code st =
     write_slot (Slot i) (Some (fr_addr fr))
       (set_prog (fr_addr fr) (new_program fr i (Some r) v ident code None None None) st)"

inductive pool_step :: "pool \<Rightarrow> pool \<Rightarrow> bool" where
  thread: "i < length (threads ps) \<Longrightarrow> thread_act nz failed (threads ps ! i) (shared ps) = Inr (st', th) \<Longrightarrow>
     pool_step ps (ps\<lparr>shared := st', threads := (threads ps)[i := th]\<rparr>)"
| request: "makeRequest ident f arg (shared ps) = Inr st' \<Longrightarrow>
     pool_step ps (ps\<lparr>shared := st'\<rparr>)"
| close: "i < ACORNS_MAXPROGRAMS \<Longrightarrow> read_slot (Slot i) (shared ps) = Some a \<Longrightarrow>
     progs (shared ps) a = Some p \<Longrightarrow> busy p = 0 \<Longrightarrow> shutdown_slot (Slot i) (shared ps) = Inr st' \<Longrightarrow>
     pool_step ps (ps\<lparr>shared := st'\<rparr>)"
| load: "i < ACORNS_MAXPROGRAMS \<Longrightarrow> read_slot (Slot i) (shared ps) = None \<Longrightarrow>
     progs (shared ps) (fr_addr fr) = None \<Longrightarrow> rootInterpreter (shared ps) = Some r \<Longrightarrow>
     u_makeRequest (fr_addr fr) RunLoaded 1 (create_program fr i r v ident code (shared ps)) = Inr st' \<Longrightarrow>
     pool_step ps (ps\<lparr>shared := st'\<rparr>)"
| other: "same_counts (shared ps) st' \<Longrightarrow> pool_step ps (ps\<lparr>shared := st'\<rparr>)"

section \<open>Counting\<close>

fun holds :: "thread \<Rightarrow> addr option" where
  "holds Idle = None"
| "holds (Got rq) = Some (rq_program rq)"
| "holds (Waiting rq) = Some (rq_program rq)"
| "holds (Running rq) = Some (rq_program rq)"
| "holds (Closing rq s) = Some (rq_program rq)"
| "holds (Returning rq) = Some (rq_program rq)"

fun marks :: "thread \<Rightarrow> addr option" where
  "marks (Running rq) = Some (rq_program rq)"
| "marks (Returning rq) = Some (rq_program rq)"
| "marks _ = None"

fun runs :: "thread \<Rightarrow> addr option" where
  "runs (Running rq) = Some (rq_program rq)"
| "runs _ = None"

definition refs :: "acorns \<Rightarrow> thread list \<Rightarrow> addr \<Rightarrow> nat" where
  "refs st ths a = count_list (loadedPrograms st) (Some a) +
     count_list (map rq_program (request_queue st)) a + count_list (map holds ths) (Some a)"

definition marked :: "thread list \<Rightarrow> addr \<Rightarrow> nat" where
  "marked ths a = count_list (map marks ths) (Some a)"

definition total_marked :: "thread list \<Rightarrow> nat" where
  "total_marked ths = length (filter (\<lambda>t. marks t \<noteq> None) ths)"

definition running :: "thread list \<Rightarrow> addr \<Rightarrow> nat" where
  "running ths a = count_list (map runs ths) (Some a)"

text \<open>
  The store against given counts: references \<open>Rf\<close> and busy marks \<open>Af\<close> per program, \<open>At\<close> marks in all.
  The root interpreter's own reference count starts from \<open>base\<close>, and its busy count is that of all.
\<close>

definition store_ok :: "nat \<Rightarrow> addr \<Rightarrow> (addr \<Rightarrow> nat) \<Rightarrow> (addr \<Rightarrow> nat) \<Rightarrow> nat \<Rightarrow> acorns \<Rightarrow> bool" where
  "store_ok base r Rf Af At st \<longleftrightarrow>
     rootInterpreter st = Some r \<and>
     (\<exists>R. progs st r = Some R \<and> parent R = None \<and> unat (refcount R) = base + Rf r \<and> unat (busy R) = At) \<and>
     (\<forall>a p. progs st a = Some p \<longrightarrow> a \<noteq> r \<longrightarrow>
        parent p = Some r \<and> unat (refcount p) = Rf a \<and> unat (busy p) = Af a) \<and>
     (\<forall>a. 0 < Rf a \<longrightarrow> progs st a \<noteq> None)"

definition slot_bounded :: "thread \<Rightarrow> bool" where
  "slot_bounded t = (case t of Closing rq (Slot i) \<Rightarrow> i < ACORNS_MAXPROGRAMS | Closing rq RootSlot \<Rightarrow> False | _ \<Rightarrow> True)"

definition pool_ok :: "nat \<Rightarrow> addr \<Rightarrow> acorns \<Rightarrow> thread list \<Rightarrow> bool" where
  "pool_ok base r st ths \<longleftrightarrow>
     1 \<le> base \<and> base \<le> 200 \<and>
     length ths = ACORNS_THREADS \<and> length (request_queue st) \<le> QUEUE_LEN \<and>
     length (loadedPrograms st) = ACORNS_MAXPROGRAMS \<and>
     list_all slot_bounded ths \<and>
     (\<forall>a. count_list (loadedPrograms st) (Some a) \<le> 1) \<and>
     store_ok base r (refs st ths) (marked ths) (total_marked ths) st \<and>
     Some r \<notin> set (loadedPrograms st) \<and>
     (\<forall>a p. Some a \<in> set (loadedPrograms st) \<longrightarrow> progs st a = Some p \<longrightarrow> vm p \<noteq> None) \<and>
     (\<forall>a. running ths a \<le> 1)"

definition pool_inv :: "nat \<Rightarrow> pool \<Rightarrow> bool" where
  "pool_inv base ps \<longleftrightarrow> (\<exists>r. pool_ok base r (shared ps) (threads ps))"

section \<open>Generic lemmas\<close>

lemma count_list_update:
  "i < length xs \<Longrightarrow>
   count_list (xs[i := y]) z + of_bool (xs ! i = z) = count_list xs z + of_bool (y = z)"
proof (induction xs arbitrary: i)
  case (Cons x xs)
  then show ?case by (cases i) auto
qed simp

lemma length_filter_update:
  "i < length xs \<Longrightarrow>
   length (filter P (xs[i := y])) + of_bool (P (xs ! i)) = length (filter P xs) + of_bool (P y)"
proof (induction xs arbitrary: i)
  case (Cons x xs)
  then show ?case by (cases i) auto
qed simp

lemma unat_inc8: "unat (w :: 8 word) < 255 \<Longrightarrow> unat (w + 1) = unat w + 1"
  by (simp add: unat_word_ariths)

lemma unat_dec8: "unat (w :: 8 word) > 0 \<Longrightarrow> unat (w - 1) = unat w - 1"
  by (simp add: unat_minus_one unat_gt_0)

section \<open>Primitive changes of the store\<close>

lemma adjust_busy_frame [simp]:
  "rootInterpreter (adjust_busy d a st) = rootInterpreter st"
  "loadedPrograms (adjust_busy d a st) = loadedPrograms st"
  "request_queue (adjust_busy d a st) = request_queue st"
  "gen (adjust_busy d a st) = gen st"
  by (simp_all add: adjust_busy_def bump_def Let_def split: option.split)

lemma progs_bump: "progs (bump d a st) x =
    (if x = a then map_option (\<lambda>p. p\<lparr>busy := busy p + d\<rparr>) (progs st x) else progs st x)"
  by (simp add: bump_def)

lemma rootInterpreter_bump [simp]: "rootInterpreter (bump d a st) = rootInterpreter st"
  by (simp add: bump_def)

lemma progs_adjust_busy:
  "rootInterpreter st = Some r \<Longrightarrow>
   progs (adjust_busy d a st) x =
     (if x = a \<or> x = r then map_option (\<lambda>p. p\<lparr>busy := busy p + d\<rparr>) (progs st x) else progs st x)"
  by (auto simp: adjust_busy_def Let_def progs_bump)

lemma store_ok_child: "store_ok base r Rf Af At st \<Longrightarrow> progs st a \<noteq> None \<Longrightarrow> child_of_root st a"
  by (force simp: store_ok_def child_of_root_def)

lemma store_ok_refs: "store_ok base r Rf Af At st \<Longrightarrow> 0 < Rf a \<Longrightarrow> \<exists>p. progs st a = Some p"
  by (auto simp: store_ok_def)

lemma store_ok_mark:
  assumes "store_ok base r Rf Af At st" "At < 255" "\<And>x. Af x \<le> At"
  shows "store_ok base r Rf (Af(a := Af a + 1)) (At + 1) (adjust_busy 1 a st)"
proof -
  have r: "rootInterpreter st = Some r" using assms(1) by (simp add: store_ok_def)
  have "unat (busy p + 1) = Af x + 1" if "progs st x = Some p" "x \<noteq> r" for x p
    using assms(1,2) assms(3) [of x] that by (auto simp: store_ok_def unat_inc8)
  then show ?thesis
    using assms(1,2) by (auto simp: store_ok_def progs_adjust_busy [OF r] unat_inc8)
qed

lemma store_ok_unmark:
  assumes "store_ok base r Rf Af At st" "0 < At" "0 < Af a"
  shows "store_ok base r Rf (Af(a := Af a - 1)) (At - 1) (adjust_busy (- 1) a st)"
proof -
  have r: "rootInterpreter st = Some r" using assms(1) by (simp add: store_ok_def)
  have "unat (busy p - 1) = Af a - 1" if "progs st a = Some p" "a \<noteq> r" for p
    using assms that by (auto simp: store_ok_def unat_dec8)
  then show ?thesis
    using assms(1,2) by (auto simp: store_ok_def progs_adjust_busy [OF r] unat_dec8)
qed

lemma store_ok_deref:
  assumes ok: "store_ok base r Rf Af At st" and pos: "0 < Rf a" and base: "1 \<le> base"
  obtains st' where "deref_prog a st = Inr st'"
    "store_ok base r (Rf(a := Rf a - 1)) Af At st'"
    "rootInterpreter st' = rootInterpreter st" "loadedPrograms st' = loadedPrograms st"
    "request_queue st' = request_queue st"
    "\<And>x. x \<noteq> a \<Longrightarrow> progs st' x = progs st x"
    "\<And>p'. progs st' a = Some p' \<Longrightarrow> \<exists>p. progs st a = Some p \<and> vm p' = vm p \<and> programID p' = programID p"
    "1 < Rf a \<or> a = r \<Longrightarrow> progs st' a \<noteq> None"
proof -
  obtain p where p: "progs st a = Some p" using store_ok_refs [OF ok pos] by blast
  let ?p = "p\<lparr>refcount := refcount p - 1\<rparr>"
  have rc: "unat (refcount p) = (if a = r then base + Rf a else Rf a)"
    using ok p by (auto simp: store_ok_def)
  have rc': "unat (refcount ?p) = (if a = r then base + (Rf a - 1) else Rf a - 1)"
    using rc pos by (auto simp: unat_dec8)
  show ?thesis
  proof (cases "refcount ?p = 0")
    case True
    then have e: "a \<noteq> r" "Rf a = 1" using rc' base pos by (auto split: if_splits)
    have "deref_prog a st = Inr (free_prog a st)" using p True by (simp add: deref_prog_def)
    then show ?thesis
      by (rule that) (use ok e in \<open>auto simp: store_ok_def\<close>)
  next
    case False
    have "deref_prog a st = Inr (set_prog a ?p st)" using p False by (simp add: deref_prog_def)
    then show ?thesis
      by (rule that) (use ok p rc' in \<open>auto simp: store_ok_def split: if_splits\<close>)
  qed
qed

lemma store_ok_ref:
  assumes ok: "store_ok base r Rf Af At st" and p: "progs st a = Some p"
    and small: "base + Rf a < 255"
  shows "store_ok base r (Rf(a := Rf a + 1)) Af At (set_prog a (p\<lparr>refcount := refcount p + 1\<rparr>) st)"
proof -
  have "unat (refcount p) < 255" using ok p small by (cases "a = r") (auto simp: store_ok_def)
  then show ?thesis using ok p by (auto simp: store_ok_def unat_inc8)
qed

lemma store_ok_frame:
  "store_ok base r Rf Af At st \<Longrightarrow> rootInterpreter st' = rootInterpreter st \<Longrightarrow> progs st' = progs st \<Longrightarrow>
   store_ok base r Rf Af At st'"
  by (simp add: store_ok_def)

section \<open>Counts after a thread moved\<close>

lemma refs_thread:
  assumes "i < length ths"
  shows "holds t = holds (ths ! i) \<Longrightarrow> refs st (ths[i := t]) = refs st ths"
    "holds (ths ! i) = Some a \<Longrightarrow> holds t = None \<Longrightarrow>
       refs st (ths[i := t]) = (refs st ths)(a := refs st ths a - 1) \<and> 0 < refs st ths a"
    "holds (ths ! i) = Some a \<Longrightarrow> 0 < refs st ths a"
proof -
  have u: "count_list (map holds (ths[i := t])) (Some x) + of_bool (holds (ths ! i) = Some x) =
      count_list (map holds ths) (Some x) + of_bool (holds t = Some x)" for x
    using count_list_update [of i "map holds ths" "holds t" "Some x"] assms by (simp add: map_update)
  have h: "holds (ths ! i) = Some a \<Longrightarrow> Some a \<in> set (map holds ths)"
    using assms by (metis length_map nth_map nth_mem)
  show "holds t = holds (ths ! i) \<Longrightarrow> refs st (ths[i := t]) = refs st ths"
    using u by (auto simp: refs_def fun_eq_iff)
  show g: "holds (ths ! i) = Some a \<Longrightarrow> 0 < refs st ths a"
    using h count_list_0_iff [of "map holds ths" "Some a"] by (auto simp: refs_def)
  assume o: "holds (ths ! i) = Some a" "holds t = None"
  have "refs st (ths[i := t]) x = (if x = a then refs st ths a - 1 else refs st ths x)" for x
    using u [of x] o by (auto simp: refs_def split: if_splits)
  then show "refs st (ths[i := t]) = (refs st ths)(a := refs st ths a - 1) \<and> 0 < refs st ths a"
    using g o by auto
qed

lemma marks_thread:
  assumes "i < length ths"
  shows "marks t = marks (ths ! i) \<Longrightarrow>
      marked (ths[i := t]) = marked ths \<and> total_marked (ths[i := t]) = total_marked ths"
    "marks (ths ! i) = None \<Longrightarrow> marks t = Some a \<Longrightarrow>
      marked (ths[i := t]) = (marked ths)(a := marked ths a + 1) \<and>
      total_marked (ths[i := t]) = total_marked ths + 1"
    "marks (ths ! i) = Some a \<Longrightarrow> marks t = None \<Longrightarrow>
      marked (ths[i := t]) = (marked ths)(a := marked ths a - 1) \<and>
      total_marked (ths[i := t]) = total_marked ths - 1 \<and> 0 < marked ths a \<and> 0 < total_marked ths"
proof -
  have u: "marked (ths[i := t]) x + of_bool (marks (ths ! i) = Some x) =
      marked ths x + of_bool (marks t = Some x)" for x
    using count_list_update [of i "map marks ths" "marks t" "Some x"] assms
    by (simp add: map_update marked_def)
  have v: "total_marked (ths[i := t]) + of_bool (marks (ths ! i) \<noteq> None) =
      total_marked ths + of_bool (marks t \<noteq> None)"
    using length_filter_update [of i ths "\<lambda>t. marks t \<noteq> None" t] assms by (simp add: total_marked_def)
  show "marks t = marks (ths ! i) \<Longrightarrow>
      marked (ths[i := t]) = marked ths \<and> total_marked (ths[i := t]) = total_marked ths"
    using u v by (auto simp: fun_eq_iff)
  show "marked (ths[i := t]) = (marked ths)(a := marked ths a + 1) \<and>
      total_marked (ths[i := t]) = total_marked ths + 1"
    if m: "marks (ths ! i) = None" "marks t = Some a"
  proof -
    have "marked (ths[i := t]) x = (if x = a then marked ths a + 1 else marked ths x)" for x
      using u [of x] m by (auto split: if_splits)
    then show ?thesis using v m by auto
  qed
  assume m: "marks (ths ! i) = Some a" "marks t = None"
  have "marked (ths[i := t]) a + 1 = marked ths a" "total_marked (ths[i := t]) + 1 = total_marked ths"
    using u [of a] v m by simp_all
  moreover have "marked (ths[i := t]) x = marked ths x" if "x \<noteq> a" for x using u [of x] m that by simp
  ultimately show "marked (ths[i := t]) = (marked ths)(a := marked ths a - 1) \<and>
      total_marked (ths[i := t]) = total_marked ths - 1 \<and> 0 < marked ths a \<and> 0 < total_marked ths"
    by (auto simp: fun_eq_iff)
qed

lemma runs_thread:
  assumes "i < length ths"
  shows "running (ths[i := t]) x + of_bool (runs (ths ! i) = Some x) = running ths x + of_bool (runs t = Some x)"
  using count_list_update [of i "map runs ths" "runs t" "Some x"] assms
  by (simp add: map_update running_def)

lemma count_list_le: "(\<And>x. x \<in> set xs \<Longrightarrow> f x = Some a \<Longrightarrow> P x) \<Longrightarrow>
    count_list (map f xs) (Some a) \<le> length (filter P xs)"
  by (induction xs) auto

lemma marked_le_total: "marked ths a \<le> total_marked ths"
  unfolding marked_def total_marked_def by (rule count_list_le) simp

lemma total_marked_le: "total_marked ths \<le> length ths"
  by (simp add: total_marked_def)

lemma running_le_marked: "running ths a \<le> marked ths a"
proof (induction ths)
  case (Cons t ths)
  have "runs t = Some a \<Longrightarrow> marks t = Some a" by (cases t) auto
  with Cons show ?case by (auto simp: running_def marked_def)
qed (simp add: running_def marked_def)

lemma refs_bound: "pool_ok base r st ths \<Longrightarrow> refs st ths a \<le> 30"
proof -
  assume ok: "pool_ok base r st ths"
  have "count_list (map rq_program (request_queue st)) a \<le> 25"
    using count_le_length [of "map rq_program (request_queue st)" a] ok
    by (simp add: pool_ok_def QUEUE_LEN_def)
  moreover have "count_list (map holds ths) (Some a) \<le> 4"
    using count_le_length [of "map holds ths" "Some a"] ok by (simp add: pool_ok_def ACORNS_THREADS_def)
  moreover have "count_list (loadedPrograms st) (Some a) \<le> 1" using ok by (simp add: pool_ok_def)
  ultimately show ?thesis by (simp add: refs_def)
qed

lemma list_all_update: "list_all P xs \<Longrightarrow> P x \<Longrightarrow> list_all P (xs[i := x])"
  by (auto simp: list_all_iff dest: set_update_subset_insert [THEN subsetD])

lemma pool_okD:
  assumes "pool_ok base r st ths"
  shows "store_ok base r (refs st ths) (marked ths) (total_marked ths) st" "1 \<le> base" "base \<le> 200"
    "length ths = ACORNS_THREADS" "total_marked ths < 255" "rootInterpreter st = Some r"
    "running ths a \<le> 1"
  using assms total_marked_le [of ths] by (auto simp: pool_ok_def ACORNS_THREADS_def store_ok_def)

lemma pool_ok_alloc:
  assumes "pool_ok base r st ths" "i < length ths" "holds (ths ! i) = Some a"
  obtains p where "progs st a = Some p" "child_of_root st a"
  using store_ok_refs [OF pool_okD(1) [OF assms(1)] refs_thread(3) [OF assms(2,3)]]
    store_ok_child [OF pool_okD(1) [OF assms(1)]] that by blast

section \<open>Primitive changes of the pool\<close>

lemma pool_ok_frame:
  assumes ok: "pool_ok base r st ths" and i: "i < length ths"
    and t: "holds t = holds (ths ! i)" "marks t = marks (ths ! i)" "runs t = runs (ths ! i)" "slot_bounded t"
    and st': "rootInterpreter st' = rootInterpreter st" "progs st' = progs st"
      "loadedPrograms st' = loadedPrograms st" "request_queue st' = request_queue st"
  shows "pool_ok base r st' (ths[i := t])"
proof -
  have "refs st' (ths[i := t]) = refs st ths"
    using refs_thread(1) [OF i t(1), of st'] st' by (simp add: refs_def fun_eq_iff)
  moreover have "running (ths[i := t]) = running ths"
    using runs_thread [OF i, of t] t(3) by (simp add: fun_eq_iff)
  ultimately show ?thesis
    using ok marks_thread(1) [OF i t(2)] st' t(4)
    by (auto simp: pool_ok_def store_ok_def list_all_update)
qed

lemma pool_ok_mark:
  assumes ok: "pool_ok base r st ths" and i: "i < length ths"
    and t: "holds t = Some a" "marks t = Some a" "slot_bounded t" "runs t \<in> {None, Some a}"
    and o: "holds (ths ! i) = Some a" "marks (ths ! i) = None"
    and excl: "runs t = Some a \<Longrightarrow> running ths a = 0"
  obtains st' where "setbusy a st = Inr st'" "pool_ok base r st' (ths[i := t])"
proof -
  let ?st = "adjust_busy 1 a st"
  obtain p where p: "progs st a = Some p" "child_of_root st a" by (rule pool_ok_alloc [OF ok i o(1)])
  have rt: "rootInterpreter st = Some r" using pool_okD(6) [OF ok] .
  have no_run: "runs (ths ! i) = None" using o(2) by (cases "ths ! i") auto
  have "refs ?st (ths[i := t]) = refs st ths"
    using refs_thread(1) [OF i, of t st] t(1) o(1) by (simp add: refs_def fun_eq_iff)
  moreover have "store_ok base r (refs st ths) ((marked ths)(a := marked ths a + 1)) (total_marked ths + 1) ?st"
    by (rule store_ok_mark [OF pool_okD(1,5) [OF ok] marked_le_total])
  moreover have "running (ths[i := t]) x \<le> 1" for x
    using runs_thread [OF i, of t x] no_run t(4) excl pool_okD(7) [OF ok, of x]
    by (auto split: if_splits)
  moreover have "\<forall>x q. Some x \<in> set (loadedPrograms st) \<longrightarrow> progs ?st x = Some q \<longrightarrow> vm q \<noteq> None"
    using ok by (auto simp: pool_ok_def progs_adjust_busy [OF rt] split: if_splits)
  ultimately have "pool_ok base r ?st (ths[i := t])"
    using ok marks_thread(2) [OF i o(2) t(2)] t(3) by (simp add: pool_ok_def list_all_update)
  with setbusy_eq(1) [OF p(2)] that show ?thesis by blast
qed

lemma pool_ok_unmark:
  assumes ok: "pool_ok base r st ths" and i: "i < length ths"
    and t: "holds t = Some a" "marks t = None" "slot_bounded t"
    and o: "holds (ths ! i) = Some a" "marks (ths ! i) = Some a"
  obtains st' where "setfree a st = Inr st'" "pool_ok base r st' (ths[i := t])"
    "loadedPrograms st' = loadedPrograms st"
    "\<And>x q. progs st' x = Some q \<Longrightarrow> \<exists>p. progs st x = Some p \<and> programID q = programID p"
proof -
  let ?st = "adjust_busy (- 1) a st"
  obtain p where p: "progs st a = Some p" "child_of_root st a" by (rule pool_ok_alloc [OF ok i o(1)])
  have rt: "rootInterpreter st = Some r" using pool_okD(6) [OF ok] .
  note M = marks_thread(3) [OF i o(2) t(2)]
  have no_run: "runs t = None" using t(2) by (cases t) auto
  have "refs ?st (ths[i := t]) = refs st ths"
    using refs_thread(1) [OF i, of t st] t(1) o(1) by (simp add: refs_def fun_eq_iff)
  moreover have "store_ok base r (refs st ths) ((marked ths)(a := marked ths a - 1)) (total_marked ths - 1) ?st"
    using M store_ok_unmark [OF pool_okD(1) [OF ok]] by blast
  moreover have "running (ths[i := t]) x \<le> 1" for x
    using runs_thread [OF i, of t x] no_run pool_okD(7) [OF ok, of x] by auto
  moreover have "\<forall>x q. Some x \<in> set (loadedPrograms st) \<longrightarrow> progs ?st x = Some q \<longrightarrow> vm q \<noteq> None"
    using ok by (auto simp: pool_ok_def progs_adjust_busy [OF rt] split: if_splits)
  ultimately have "pool_ok base r ?st (ths[i := t])"
    using ok M t(3) by (simp add: pool_ok_def list_all_update)
  moreover have "progs ?st x = Some q \<Longrightarrow> \<exists>p. progs st x = Some p \<and> programID q = programID p" for x q
    by (auto simp: progs_adjust_busy [OF rt] split: if_splits)
  ultimately show ?thesis using setbusy_eq(2) [OF p(2)] that [of ?st] by simp
qed

lemma pool_ok_drop:
  assumes ok: "pool_ok base r st ths" and i: "i < length ths"
    and o: "holds (ths ! i) = Some a" "marks (ths ! i) = None"
  obtains st' where "deref_prog a st = Inr st'" "pool_ok base r st' (ths[i := Idle])"
proof -
  have R: "refs st (ths[i := Idle]) = (refs st ths)(a := refs st ths a - 1)" "0 < refs st ths a"
    using refs_thread(2) [OF i o(1), of Idle st] by simp_all
  obtain st' where st': "deref_prog a st = Inr st'"
    "store_ok base r ((refs st ths)(a := refs st ths a - 1)) (marked ths) (total_marked ths) st'"
    "rootInterpreter st' = rootInterpreter st" "loadedPrograms st' = loadedPrograms st"
    "request_queue st' = request_queue st"
    "\<And>x. x \<noteq> a \<Longrightarrow> progs st' x = progs st x"
    "\<And>p'. progs st' a = Some p' \<Longrightarrow> \<exists>p. progs st a = Some p \<and> vm p' = vm p \<and> programID p' = programID p"
    by (rule store_ok_deref [OF pool_okD(1) [OF ok] R(2) pool_okD(2) [OF ok]]) blast
  have no_run: "runs (ths ! i) = None" using o(2) by (cases "ths ! i") auto
  have "refs st' (ths[i := Idle]) = (refs st ths)(a := refs st ths a - 1)"
    using R(1) st'(4,5) by (simp add: refs_def fun_eq_iff)
  moreover have "running (ths[i := Idle]) x \<le> 1" for x
    using runs_thread [OF i, of Idle x] no_run pool_okD(7) [OF ok, of x] by simp
  moreover have "\<forall>x q. Some x \<in> set (loadedPrograms st) \<longrightarrow> progs st' x = Some q \<longrightarrow> vm q \<noteq> None"
    using ok st'(6,7) unfolding pool_ok_def by metis
  ultimately have "pool_ok base r st' (ths[i := Idle])"
    using ok st'(2-5) marks_thread(1) [OF i, of Idle] o(2)
    by (simp add: pool_ok_def list_all_update slot_bounded_def)
  with st'(1) that show ?thesis by blast
qed


lemma count_list_clear:
  assumes "i < length xs" "xs ! i = Some a"
  shows "count_list (xs[i := None]) (Some x) = count_list xs (Some x) - of_bool (x = a)"
    "0 < count_list xs (Some a)"
proof -
  show "count_list (xs[i := None]) (Some x) = count_list xs (Some x) - of_bool (x = a)"
    using count_list_update [OF assms(1), of None "Some x"] assms(2) by auto
  have "Some a \<in> set xs" using assms by (metis nth_mem)
  then show "0 < count_list xs (Some a)" using count_list_0_iff [of xs "Some a"] by simp
qed

lemma in_set_count: "x \<in> set xs \<longleftrightarrow> 0 < count_list xs x"
  using count_list_0_iff [of xs x] by auto

lemma pool_ok_shutdown:
  assumes ok: "pool_ok base r st ths" and j: "j < ACORNS_MAXPROGRAMS"
    and s: "read_slot (Slot j) st = Some b"
  obtains st' where "shutdown_slot (Slot j) st = Inr st'" "pool_ok base r st' ths"
proof -
  have len: "length (loadedPrograms st) = ACORNS_MAXPROGRAMS" using ok by (simp add: pool_ok_def)
  have lj: "j < length (loadedPrograms st)" "loadedPrograms st ! j = Some b"
    using j s len by (simp_all add: read_slot_def)
  note C = count_list_clear [OF lj]
  have pos: "0 < refs st ths b" using C(2) by (simp add: refs_def)
  obtain p where p: "progs st b = Some p" using store_ok_refs [OF pool_okD(1) [OF ok] pos] by blast
  have br: "b \<noteq> r" using ok lj by (metis nth_mem pool_ok_def)
  define p1 where "p1 = p\<lparr>workingDir := None, inputBuffer := None, vm := None\<rparr>"
  define st1 where "st1 = (case vm p of None \<Rightarrow> st | Some v \<Rightarrow> log_vm (Release v (threadObj p)) st)"
  have f: "rootInterpreter st1 = rootInterpreter st" "progs st1 = progs st"
    "loadedPrograms st1 = loadedPrograms st" "request_queue st1 = request_queue st"
    by (simp_all add: st1_def split: option.split)
  have ok1: "store_ok base r (refs st ths) (marked ths) (total_marked ths) (set_prog b p1 st1)"
    using pool_okD(1) [OF ok] p br by (auto simp: store_ok_def f p1_def)
  obtain st2 where st2: "deref_prog b (set_prog b p1 st1) = Inr st2"
    "store_ok base r ((refs st ths)(b := refs st ths b - 1)) (marked ths) (total_marked ths) st2"
    "rootInterpreter st2 = rootInterpreter st" "loadedPrograms st2 = loadedPrograms st"
    "request_queue st2 = request_queue st"
    "\<And>x. x \<noteq> b \<Longrightarrow> progs st2 x = progs st x"
    by (rule store_ok_deref [OF ok1 pos pool_okD(2) [OF ok]]) (simp_all add: f)
  let ?st = "write_slot (Slot j) None st2"
  have "shutdown_slot (Slot j) st = Inr ?st"
    using s p st2(1) by (simp add: shutdown_slot_def Let_def p1_def st1_def)
  moreover have R: "refs ?st ths = (refs st ths)(b := refs st ths b - 1)"
    using C st2(4,5) by (auto simp: refs_def fun_eq_iff)
  moreover have sub: "Some x \<in> set (loadedPrograms ?st) \<Longrightarrow> Some x \<in> set (loadedPrograms st) \<and> x \<noteq> b" for x
  proof -
    assume "Some x \<in> set (loadedPrograms ?st)"
    then have "0 < count_list ((loadedPrograms st)[j := None]) (Some x)"
      using st2(4) by (simp add: in_set_count)
    then have "0 < count_list (loadedPrograms st) (Some x) - of_bool (x = b)" using C(1) by simp
    moreover have "count_list (loadedPrograms st) (Some x) \<le> 1" using ok by (simp add: pool_ok_def)
    ultimately show "Some x \<in> set (loadedPrograms st) \<and> x \<noteq> b" by (auto simp: in_set_count split: if_splits)
  qed
  have "pool_ok base r ?st ths"
    unfolding pool_ok_def
  proof (intro conjI)
    show "store_ok base r (refs ?st ths) (marked ths) (total_marked ths) ?st"
      unfolding R using st2(2) by (rule store_ok_frame) simp_all
    show "\<forall>a. count_list (loadedPrograms ?st) (Some a) \<le> 1"
      using C(1) st2(4) ok by (auto simp: pool_ok_def intro: le_trans [OF diff_le_self])
    show "Some r \<notin> set (loadedPrograms ?st)" using sub ok by (auto simp: pool_ok_def)
    show "\<forall>a p. Some a \<in> set (loadedPrograms ?st) \<longrightarrow> progs ?st a = Some p \<longrightarrow> vm p \<noteq> None"
      using sub st2(6) ok unfolding pool_ok_def by (metis store_simps(4))
  qed (use ok st2(4,5) in \<open>simp_all add: pool_ok_def\<close>)
  ultimately show ?thesis using that by blast
qed

section \<open>Every step keeps the invariant\<close>

lemma pool_ok_same:
  assumes "pool_ok base r st ths" "rootInterpreter st' = rootInterpreter st" "progs st' = progs st"
    "loadedPrograms st' = loadedPrograms st" "request_queue st' = request_queue st"
  shows "pool_ok base r st' ths"
  using assms by (auto simp: pool_ok_def store_ok_def refs_def [abs_def])

lemma pool_ok_not_busy:
  assumes ok: "pool_ok base r st ths" and p: "progs st a = Some p" "busy p = 0"
  shows "running ths a = 0"
proof -
  have "marked ths a = 0"
  proof (cases "a = r")
    case True
    then have "total_marked ths = 0" using pool_okD(1) [OF ok] p by (auto simp: store_ok_def)
    then show ?thesis using marked_le_total [of ths a] by simp
  next
    case False
    then have "unat (busy p) = marked ths a" using pool_okD(1) [OF ok] p(1) by (simp add: store_ok_def)
    then show ?thesis using p(2) by simp
  qed
  then show ?thesis using running_le_marked [of ths a] by simp
qed

lemma pool_ok_slots:
  assumes ok: "pool_ok base r st ths"
  obtains j where "programSlotForId (Some s) st = Inr (map_option Slot j)"
    "\<And>k. j = Some k \<Longrightarrow> k < ACORNS_MAXPROGRAMS"
proof -
  have "progs st a \<noteq> None" if "Some a \<in> set (loadedPrograms st)" for a
    using that store_ok_refs [OF pool_okD(1) [OF ok], of a] by (auto simp: refs_def in_set_count)
  then have "\<forall>a. Some a \<in> set (loadedPrograms st) \<longrightarrow> progs st a \<noteq> None" by blast
  from slot_loop_spec [OF this, where s = s and i = 0] obtain j where
    "slot_loop st s 0 (loadedPrograms st) = Inr j"
    "case j of None \<Rightarrow> True | Some k \<Rightarrow> k < length (loadedPrograms st)"
    by (auto split: option.splits)
  moreover have "length (loadedPrograms st) = ACORNS_MAXPROGRAMS" using ok by (simp add: pool_ok_def)
  ultimately show ?thesis
    using that [of j] by (cases j) (simp_all add: programSlotForId_def)
qed

lemma pool_ok_receive:
  assumes ok: "pool_ok base r st ths" and i: "i < length ths" "ths ! i = Idle"
    and q: "request_queue st = rq # rest"
  shows "pool_ok base r (st\<lparr>request_queue := rest\<rparr>) (ths[i := Got rq])"
proof -
  let ?st = "st\<lparr>request_queue := rest\<rparr>" and ?ths = "ths[i := Got rq]"
  have "count_list (map holds ?ths) (Some x) = count_list (map holds ths) (Some x) + of_bool (rq_program rq = x)" for x
    using count_list_update [of i "map holds ths" "holds (Got rq)" "Some x"] i by (simp add: map_update)
  then have R: "refs ?st ?ths = refs st ths" using q by (auto simp: refs_def fun_eq_iff)
  have "marked ?ths = marked ths" "total_marked ?ths = total_marked ths" "running ?ths = running ths"
    using marks_thread(1) [OF i(1), of "Got rq"] runs_thread [OF i(1), of "Got rq"] i(2)
    by (simp_all add: fun_eq_iff)
  moreover have "store_ok base r (refs st ths) (marked ths) (total_marked ths) ?st"
    using pool_okD(1) [OF ok] by (simp add: store_ok_def)
  ultimately show ?thesis
    using ok q R by (auto simp: pool_ok_def list_all_update slot_bounded_def)
qed

lemma begin_run_ok:
  assumes ok: "pool_ok base r st ths" and i: "i < length ths"
    and o: "holds (ths ! i) = Some (rq_program rq)" "marks (ths ! i) = None"
    and p: "progs st (rq_program rq) = Some p" "busy p = 0"
  obtains st' where "begin_run rq st = Inr (st', Running rq)" "pool_ok base r st' (ths[i := Running rq])"
proof -
  obtain st' where "setbusy (rq_program rq) st = Inr st'" "pool_ok base r st' (ths[i := Running rq])"
    by (rule pool_ok_mark [OF ok i, of "Running rq" "rq_program rq"])
       (use o pool_ok_not_busy [OF ok p] in \<open>simp_all add: slot_bounded_def\<close>)
  then show ?thesis using that by (simp add: begin_run_def)
qed

lemma end_run_ok:
  assumes ok: "pool_ok base r st ths" and i: "i < length ths"
    and o: "holds (ths ! i) = Some (rq_program rq)" "marks (ths ! i) = Some (rq_program rq)"
  obtains st' where "end_run rq st = Inr (st', Idle)" "pool_ok base r st' (ths[i := Idle])"
proof -
  obtain st1 where st1: "setfree (rq_program rq) st = Inr st1" "pool_ok base r st1 (ths[i := Got rq])"
    by (rule pool_ok_unmark [OF ok i, of "Got rq" "rq_program rq"])
       (use o in \<open>simp_all add: slot_bounded_def\<close>)
  obtain st2 where st2: "deref_prog (rq_program rq) st1 = Inr st2" "pool_ok base r st2 (ths[i := Got rq, i := Idle])"
    by (rule pool_ok_drop [OF st1(2), of i "rq_program rq"]) (use i in simp_all)
  have "end_run rq st = Inr (st2, Idle)" using st1(1) st2(1) by (simp add: end_run_def)
  then show ?thesis by (rule that) (use st2(2) in simp)
qed

lemma return_ok:
  assumes ok: "pool_ok base r st ths" and i: "i < length ths"
    and o: "holds (ths ! i) = Some (rq_program rq)" "marks (ths ! i) = None"
  obtains st' where "setbusy (rq_program rq) st = Inr st'" "pool_ok base r st' (ths[i := Returning rq])"
  by (rule pool_ok_mark [OF ok i, of "Returning rq" "rq_program rq"])
     (use o in \<open>simp_all add: slot_bounded_def\<close>)

lemma thread_act_fail_ok:
  assumes ok: "pool_ok base r st ths" and i: "i < length ths" "ths ! i = Running rq"
    and f: "failed" "rq_f rq = RunLoaded" "rq_arg rq = 1"
  obtains st' th where "thread_act nz failed (ths ! i) st = Inr (st', th)" "pool_ok base r st' (ths[i := th])"
proof -
  let ?a = "rq_program rq"
  obtain st1 where st1: "setfree ?a st = Inr st1" "pool_ok base r st1 (ths[i := Closing rq (Slot 0)])"
    by (rule pool_ok_unmark [OF ok i(1), of "Closing rq (Slot 0)" ?a])
       (use i in \<open>simp_all add: slot_bounded_def ACORNS_MAXPROGRAMS_def\<close>)
  obtain p where p: "progs st1 ?a = Some p"
    by (rule pool_ok_alloc [OF st1(2), of i ?a]) (use i in simp_all)
  let ?st2 = "st1\<lparr>gen := stir nz (gen st1)\<rparr>"
  have ok2: "pool_ok base r ?st2 (ths[i := Closing rq (Slot 0)])" by (rule pool_ok_same [OF st1(2)]) simp_all
  obtain j where j: "programSlotForId (Some (cstr (programID p))) ?st2 = Inr (map_option Slot j)"
    "\<And>k. j = Some k \<Longrightarrow> k < ACORNS_MAXPROGRAMS"
    by (rule pool_ok_slots [OF ok2, where s = "cstr (programID p)"]) blast
  show ?thesis
  proof (cases j)
    case None
    obtain st3 where st3: "setbusy ?a ?st2 = Inr st3"
      "pool_ok base r st3 (ths[i := Closing rq (Slot 0), i := Returning rq])"
      by (rule return_ok [OF ok2, of i rq]) (use i in simp_all)
    have "thread_act nz failed (ths ! i) st = Inr (st3, Returning rq)"
      using i f st1(1) p j None st3(1) by simp
    then show ?thesis by (rule that) (use st3(2) in simp)
  next
    case (Some k)
    have "thread_act nz failed (ths ! i) st = Inr (?st2, Closing rq (Slot k))"
      using i f st1(1) p j Some by simp
    moreover have "pool_ok base r ?st2 (ths[i := Closing rq (Slot 0), i := Closing rq (Slot k)])"
      by (rule pool_ok_frame [OF ok2]) (use i j Some in \<open>simp_all add: slot_bounded_def\<close>)
    ultimately show ?thesis using that by simp
  qed
qed

lemma thread_act_close_ok:
  assumes ok: "pool_ok base r st ths" and i: "i < length ths" "ths ! i = Closing rq s"
  obtains st' th where "thread_act nz failed (ths ! i) st = Inr (st', th)" "pool_ok base r st' (ths[i := th])"
proof -
  have "slot_bounded (ths ! i)" using ok i(1) unfolding pool_ok_def list_all_length by blast
  then obtain j where j: "s = Slot j" "j < ACORNS_MAXPROGRAMS"
    using i by (cases s) (auto simp: slot_bounded_def)
  show ?thesis
  proof (cases "read_slot s st")
    case None
    obtain st1 where "setbusy (rq_program rq) st = Inr st1" "pool_ok base r st1 (ths[i := Returning rq])"
      by (rule return_ok [OF ok i(1)]) (use i in simp_all)
    then show ?thesis using that i None by simp
  next
    case (Some b)
    have "Some b \<in> set (loadedPrograms st)"
      using Some j ok by (auto simp: read_slot_def pool_ok_def) (metis nth_mem)
    then have "0 < refs st ths b" by (simp add: refs_def in_set_count)
    then obtain p where p: "progs st b = Some p" using store_ok_refs [OF pool_okD(1) [OF ok]] by blast
    show ?thesis
    proof (cases "busy p = 0")
      case False
      then have "thread_act nz failed (ths ! i) st = Inr (st, ths ! i)" using i Some p by simp
      then show ?thesis by (rule that) (use ok in simp)
    next
      case True
      obtain st1 where st1: "shutdown_slot s st = Inr st1" "pool_ok base r st1 ths"
        using pool_ok_shutdown [OF ok j(2)] Some j(1) by blast
      obtain st2 where "setbusy (rq_program rq) st1 = Inr st2" "pool_ok base r st2 (ths[i := Returning rq])"
        by (rule return_ok [OF st1(2) i(1)]) (use i in simp_all)
      then show ?thesis using that i Some p True st1(1) by simp
    qed
  qed
qed

lemma thread_act_ok:
  assumes ok: "pool_ok base r st ths" and i: "i < length ths"
  obtains st' th where "thread_act nz failed (ths ! i) st = Inr (st', th)" "pool_ok base r st' (ths[i := th])"
proof (cases "ths ! i")
  case Idle
  show ?thesis
  proof (cases "request_queue st")
    case Nil
    then have "thread_act nz failed (ths ! i) st = Inr (st, ths ! i)" using Idle by simp
    then show ?thesis by (rule that) (use ok in simp)
  next
    case (Cons rq rest)
    then show ?thesis using that Idle pool_ok_receive [OF ok i Idle Cons] by simp
  qed
next
  case (Got rq)
  obtain p where p: "progs st (rq_program rq) = Some p" by (rule pool_ok_alloc [OF ok i]) (use Got in simp)
  let ?st = "st\<lparr>activeProgram := Some (rq_program rq)\<rparr>"
  have ok': "pool_ok base r ?st ths" by (rule pool_ok_same [OF ok]) simp_all
  show ?thesis
  proof (cases "busy p = 0")
    case True
    obtain st' where "begin_run rq ?st = Inr (st', Running rq)" "pool_ok base r st' (ths[i := Running rq])"
      by (rule begin_run_ok [OF ok' i]) (use Got p True in simp_all)
    then show ?thesis using that Got p True by simp
  next
    case False
    have "pool_ok base r ?st (ths[i := Waiting rq])"
      by (rule pool_ok_frame [OF ok i]) (simp_all add: Got slot_bounded_def)
    then show ?thesis using that Got p False by simp
  qed
next
  case (Waiting rq)
  obtain p where p: "progs st (rq_program rq) = Some p" by (rule pool_ok_alloc [OF ok i]) (use Waiting in simp)
  let ?st = "st\<lparr>activeProgram := Some (rq_program rq)\<rparr>"
  have ok': "pool_ok base r ?st ths" by (rule pool_ok_same [OF ok]) simp_all
  consider "vm p = None" | "vm p \<noteq> None" "busy p \<noteq> 0" | "vm p \<noteq> None" "busy p = 0" by blast
  then show ?thesis
  proof cases
    case 1
    obtain st' where "deref_prog (rq_program rq) ?st = Inr st'" "pool_ok base r st' (ths[i := Idle])"
      by (rule pool_ok_drop [OF ok' i]) (use Waiting in simp_all)
    then show ?thesis using that Waiting p 1 by simp
  next
    case 2
    have "pool_ok base r ?st (ths[i := Waiting rq])"
      by (rule pool_ok_frame [OF ok i]) (simp_all add: Waiting slot_bounded_def)
    then show ?thesis using that Waiting p 2 by simp
  next
    case 3
    obtain st' where "begin_run rq ?st = Inr (st', Running rq)" "pool_ok base r st' (ths[i := Running rq])"
      by (rule begin_run_ok [OF ok' i]) (use Waiting p 3 in simp_all)
    then show ?thesis using that Waiting p 3 by simp
  qed
next
  case (Running rq)
  show ?thesis
  proof (cases "failed \<and> rq_f rq = RunLoaded \<and> rq_arg rq = 1")
    case True
    then show ?thesis using thread_act_fail_ok [OF ok i Running] that by blast
  next
    case False
    obtain st' where "end_run rq st = Inr (st', Idle)" "pool_ok base r st' (ths[i := Idle])"
      by (rule end_run_ok [OF ok i]) (use Running in simp_all)
    moreover have "thread_act nz failed (ths ! i) st = end_run rq st" using Running False by auto
    ultimately show ?thesis using that by simp
  qed
next
  case (Closing rq s)
  then show ?thesis using thread_act_close_ok [OF ok i Closing] that by blast
next
  case (Returning rq)
  obtain st' where "end_run rq st = Inr (st', Idle)" "pool_ok base r st' (ths[i := Idle])"
    by (rule end_run_ok [OF ok i]) (use Returning in simp_all)
  then show ?thesis using that Returning by simp
qed

lemma pool_ok_queue:
  assumes ok: "pool_ok base r st ths" and p: "progs st a = Some p"
    and res: "u_makeRequest a f arg st = Inr st'"
  shows "pool_ok base r st' ths"
proof -
  let ?st = "set_prog a (p\<lparr>refcount := refcount p + 1\<rparr>) st"
  have q: "length (request_queue st) < QUEUE_LEN"
    and st': "st' = ?st\<lparr>request_queue := request_queue st @ [\<lparr>rq_f = f, rq_program = a, rq_arg = arg\<rparr>]\<rparr>"
    using res p by (auto simp: u_makeRequest_def Let_def split: if_splits)
  have "base + refs st ths a < 255" using refs_bound [OF ok, of a] pool_okD(3) [OF ok] by simp
  then have "store_ok base r ((refs st ths)(a := refs st ths a + 1)) (marked ths) (total_marked ths) ?st"
    by (rule store_ok_ref [OF pool_okD(1) [OF ok] p])
  moreover have "refs st' ths = (refs st ths)(a := refs st ths a + 1)"
    by (auto simp: refs_def fun_eq_iff st')
  ultimately have "store_ok base r (refs st' ths) (marked ths) (total_marked ths) st'"
    by (simp add: store_ok_def st')
  then show ?thesis using ok q p by (auto simp: pool_ok_def st' split: if_splits)
qed

lemma pool_ok_request:
  assumes ok: "pool_ok base r st ths" and res: "makeRequest ident f arg st = Inr st'"
  shows "pool_ok base r st' ths"
proof -
  obtain x where x: "programForId ident st = Inr x" using res by (auto simp: makeRequest_def andthen_Inr_iff)
  let ?st = "st\<lparr>activeProgram := x\<rparr>"
  have ok': "pool_ok base r ?st ths" by (rule pool_ok_same [OF ok]) simp_all
  show ?thesis
  proof (cases x)
    case None
    then show ?thesis using res x ok' by (simp add: makeRequest_def)
  next
    case (Some a)
    then have q: "u_makeRequest a f arg ?st = Inr st'" using res x by (simp add: makeRequest_def)
    then obtain p where "progs ?st a = Some p" by (auto simp: u_makeRequest_def andthen_Inr_iff)
    from pool_ok_queue [OF ok' this q] show ?thesis .
  qed
qed

lemma pool_ok_create:
  assumes ok: "pool_ok base r st ths" and i: "i < ACORNS_MAXPROGRAMS" "read_slot (Slot i) st = None"
    and fresh: "progs st (fr_addr fr) = None"
  shows "pool_ok base r (create_program fr i r v ident code st) ths"
proof -
  let ?a = "fr_addr fr" and ?st = "create_program fr i r v ident code st"
  have li: "i < length (loadedPrograms st)" "loadedPrograms st ! i = None"
    using ok i by (simp_all add: pool_ok_def read_slot_def)
  have "\<not> 0 < refs st ths ?a" using fresh store_ok_refs [OF pool_okD(1) [OF ok], of ?a] by auto
  then have zero: "refs st ths ?a = 0" by simp
  then have cz: "count_list (loadedPrograms st) (Some ?a) = 0" by (simp add: refs_def)
  have mz: "marked ths ?a = 0"
  proof -
    have "count_list (map marks ths) (Some ?a) \<le> count_list (map holds ths) (Some ?a)"
    proof (induction ths)
      case (Cons t ths)
      have "marks t = Some ?a \<Longrightarrow> holds t = Some ?a" by (cases t) auto
      with Cons show ?case by auto
    qed simp
    then show ?thesis using zero by (simp add: refs_def marked_def)
  qed
  have ar: "?a \<noteq> r" using fresh pool_okD(1) [OF ok] by (auto simp: store_ok_def)
  have C: "count_list ((loadedPrograms st)[i := Some ?a]) (Some x) =
      count_list (loadedPrograms st) (Some x) + of_bool (?a = x)" for x
    using count_list_update [OF li(1), of "Some ?a" "Some x"] li(2) by simp
  have R: "refs ?st ths = (refs st ths)(?a := 1)"
    using C zero by (auto simp: refs_def fun_eq_iff create_program_def)
  have sub: "Some x \<in> set (loadedPrograms ?st) \<Longrightarrow> x = ?a \<or> Some x \<in> set (loadedPrograms st)" for x
    by (auto simp: create_program_def dest: set_update_subset_insert [THEN subsetD])
  show ?thesis
    unfolding pool_ok_def
  proof (intro conjI)
    show "store_ok base r (refs ?st ths) (marked ths) (total_marked ths) ?st"
      unfolding R using pool_okD(1) [OF ok] ar mz
      by (auto simp: store_ok_def create_program_def new_program_def)
    show "\<forall>a. count_list (loadedPrograms ?st) (Some a) \<le> 1"
      using C cz ok by (auto simp: create_program_def pool_ok_def)
    show "Some r \<notin> set (loadedPrograms ?st)" using sub ar ok by (auto simp: pool_ok_def)
    show "\<forall>a p. Some a \<in> set (loadedPrograms ?st) \<longrightarrow> progs ?st a = Some p \<longrightarrow> vm p \<noteq> None"
    proof (intro allI impI)
      fix x p assume x: "Some x \<in> set (loadedPrograms ?st)" "progs ?st x = Some p"
      show "vm p \<noteq> None"
      proof (cases "x = ?a")
        case True
        then show ?thesis using x(2) by (auto simp: create_program_def new_program_def)
      next
        case False
        then have "progs st x = Some p" using x(2) by (simp add: create_program_def)
        then show ?thesis using sub [OF x(1)] False ok unfolding pool_ok_def by blast
      qed
    qed
  qed (use ok in \<open>simp_all add: pool_ok_def create_program_def\<close>)
qed

lemma pool_ok_other:
  assumes ok: "pool_ok base r st ths" and same: "same_counts st st'"
  shows "pool_ok base r st' ths"
proof -
  have e: "map_option (\<lambda>p. (parent p, refcount p, busy p, vm p)) (progs st' a) =
      map_option (\<lambda>p. (parent p, refcount p, busy p, vm p)) (progs st a)" for a
    using same by (simp add: same_counts_def)
  have D: "\<exists>p. progs st a = Some p \<and> parent q = parent p \<and> refcount q = refcount p \<and> busy q = busy p \<and> vm q = vm p"
    if "progs st' a = Some q" for a q
    using e [of a] that by (cases "progs st a") auto
  have U: "\<exists>q. progs st' a = Some q \<and> parent q = parent p \<and> refcount q = refcount p \<and> busy q = busy p \<and> vm q = vm p"
    if "progs st a = Some p" for a p
    using e [of a] that by (cases "progs st' a") auto
  have f: "rootInterpreter st' = rootInterpreter st" "loadedPrograms st' = loadedPrograms st"
    "request_queue st' = request_queue st" using same by (simp_all add: same_counts_def)
  have "refs st' ths = refs st ths" using f by (simp add: refs_def fun_eq_iff)
  moreover have "store_ok base r (refs st ths) (marked ths) (total_marked ths) st'"
    unfolding store_ok_def
  proof (intro conjI allI impI)
    fix a p assume "progs st' a = Some p" "a \<noteq> r"
    with D [of a p] pool_okD(1) [OF ok]
    show "parent p = Some r" "unat (refcount p) = refs st ths a" "unat (busy p) = marked ths a"
      unfolding store_ok_def by metis+
  next
    fix a assume "0 < refs st ths a"
    then obtain p where "progs st a = Some p" using store_ok_refs [OF pool_okD(1) [OF ok]] by blast
    from U [OF this] show "progs st' a \<noteq> None" by blast
  next
    show "rootInterpreter st' = Some r" using f pool_okD(6) [OF ok] by simp
    show "\<exists>R. progs st' r = Some R \<and> parent R = None \<and> unat (refcount R) = base + refs st ths r \<and>
      unat (busy R) = total_marked ths"
      using pool_okD(1) [OF ok] U unfolding store_ok_def by metis
  qed
  moreover have "\<forall>a p. Some a \<in> set (loadedPrograms st) \<longrightarrow> progs st' a = Some p \<longrightarrow> vm p \<noteq> None"
    using ok D unfolding pool_ok_def by metis
  ultimately show ?thesis using ok f by (simp add: pool_ok_def)
qed

lemma pool_step_inv: "pool_step ps ps' \<Longrightarrow> pool_inv base ps \<Longrightarrow> pool_inv base ps'"
proof (induction rule: pool_step.induct)
  case (thread i ps nz failed st' th)
  then obtain r where ok: "pool_ok base r (shared ps) (threads ps)" by (auto simp: pool_inv_def)
  obtain st'' th' where "thread_act nz failed (threads ps ! i) (shared ps) = Inr (st'', th')"
    "pool_ok base r st'' ((threads ps)[i := th'])"
    by (rule thread_act_ok [OF ok thread.hyps(1)])
  then show ?case using thread.hyps(2) by (auto simp: pool_inv_def)
next
  case (request ident f arg ps st')
  then obtain r where ok: "pool_ok base r (shared ps) (threads ps)" by (auto simp: pool_inv_def)
  from pool_ok_request [OF ok request.hyps] show ?case by (auto simp: pool_inv_def)
next
  case (close i ps a p st')
  then obtain r where ok: "pool_ok base r (shared ps) (threads ps)" by (auto simp: pool_inv_def)
  from pool_ok_shutdown [OF ok close.hyps(1,2)] close.hyps(5)
  show ?case by (auto simp: pool_inv_def)
next
  case (load i ps fr r v ident code st')
  then obtain r' where ok: "pool_ok base r' (shared ps) (threads ps)" by (auto simp: pool_inv_def)
  have "r' = r" using pool_okD(6) [OF ok] load.hyps(4) by simp
  with ok have ok: "pool_ok base r (shared ps) (threads ps)" by simp
  let ?st = "create_program fr i r v ident code (shared ps)"
  have ok1: "pool_ok base r ?st (threads ps)" by (rule pool_ok_create [OF ok load.hyps(1-3)])
  obtain p where "progs ?st (fr_addr fr) = Some p" by (simp add: create_program_def)
  from pool_ok_queue [OF ok1 this load.hyps(5)] show ?case by (auto simp: pool_inv_def)
next
  case (other ps st')
  then obtain r where ok: "pool_ok base r (shared ps) (threads ps)" by (auto simp: pool_inv_def)
  from pool_ok_other [OF ok other.hyps] show ?case by (auto simp: pool_inv_def)
qed

section \<open>The pool after start-up\<close>

interpretation pool_machine: step_invariant pool_step "pool_inv base" for base
  by unfold_locales (rule pool_step_inv)

text \<open>
  The root interpreter as \<open>begin\<close> leaves it. The block comes from \<open>malloc\<close>; \<open>begin\<close> does not set the
  members \<open>slot\<close>, \<open>programID\<close>, \<open>threadObj\<close>, \<open>refcount\<close>, \<open>callbackRecievers\<close> and \<open>printfunc\<close>, which keep
  what was in memory (\<open>junk\<close>). The table is empty and no request is queued.
\<close>

definition begin_root :: "loadedProgram \<Rightarrow> addr \<Rightarrow> loadedProgram" where
  "begin_root junk v =
     junk\<lparr>vm := Some v, workingDir := None, hash := take PROG_HASH_LEN ''//RootInterpreter123456789abcde'',
          busy := 0, inputBuffer := None, inputBufferLen := 0, parent := None, errorfunc := None\<rparr>"

definition begin_state :: "bool \<Rightarrow> rng \<Rightarrow> loadedProgram \<Rightarrow> addr \<Rightarrow> addr \<Rightarrow> acorns" where
  "begin_state shared_mode g junk r v =
     \<lparr>progs = [r \<mapsto> begin_root junk v], rootInterpreter = Some r,
      loadedPrograms = replicate ACORNS_MAXPROGRAMS None, activeProgram = None,
      sharedMode = shared_mode, request_queue = [], gen = g, vm_log = []\<rparr>"

definition begin_pool :: "bool \<Rightarrow> rng \<Rightarrow> loadedProgram \<Rightarrow> addr \<Rightarrow> addr \<Rightarrow> pool" where
  "begin_pool shared_mode g junk r v =
     \<lparr>shared = begin_state shared_mode g junk r v, threads = replicate ACORNS_THREADS Idle\<rparr>"

lemma count_list_replicate_None: "count_list (replicate n None) (Some a) = 0"
  by (induction n) auto

lemma begin_pool_inv:
  assumes "1 \<le> unat (refcount junk)" "unat (refcount junk) \<le> 200"
  shows "pool_inv (unat (refcount junk)) (begin_pool m g junk r v)"
proof -
  let ?st = "begin_state m g junk r v" and ?ths = "replicate ACORNS_THREADS Idle"
  have "refs ?st ?ths = (\<lambda>_. 0)" "marked ?ths = (\<lambda>_. 0)" "total_marked ?ths = 0" "running ?ths = (\<lambda>_. 0)"
    by (simp_all add: refs_def marked_def total_marked_def running_def begin_state_def fun_eq_iff
        count_list_replicate_None)
  then have "pool_ok (unat (refcount junk)) r ?st ?ths"
    using assms by (auto simp: pool_ok_def store_ok_def begin_state_def begin_root_def slot_bounded_def
        QUEUE_LEN_def count_list_replicate_None list_all_iff split: if_splits)
  then show ?thesis by (auto simp: pool_inv_def begin_pool_def)
qed

section \<open>Properties\<close>




section \<open>A run of the pool\<close>

text \<open>
  A program is loaded, which queues the request to run it; it is closed before a thread has taken
  the request; then a thread takes it and starts.
\<close>

definition ex_junk :: loadedProgram where
  "ex_junk = \<lparr>slot = None, programID = replicate 24 NUL, hash = [], workingDir = None, inputBuffer = None,
     inputBufferLen = 0, busy = 0, vm = None, threadObj = 0, parent = None, refcount = 1,
     callbackRecievers = None, printfunc = None, errorfunc = None\<rparr>"

definition ex_fresh :: fresh where
  "ex_fresh = \<lparr>fr_addr = 2, fr_junk = ex_junk, fr_vm = 12, fr_thread = 13\<rparr>"

definition ex_begin :: pool where
  "ex_begin = begin_pool False rng_init ex_junk 1 11"

definition ex_request :: request where
  "ex_request = \<lparr>rq_f = RunLoaded, rq_program = 2, rq_arg = 1\<rparr>"

definition ex_loaded :: acorns where
  "ex_loaded = projr (u_makeRequest 2 RunLoaded 1 (create_program ex_fresh 0 1 12 ''a'' [] (shared ex_begin)))"

definition ex_closed :: acorns where
  "ex_closed = projr (shutdown_slot (Slot 0) ex_loaded)"

definition ex_started :: acorns where
  "ex_started = fst (projr (begin_run ex_request
     (ex_closed\<lparr>request_queue := [], activeProgram := Some 2\<rparr>)))"

definition ex_pool :: pool where
  "ex_pool = ex_begin\<lparr>shared := ex_started, threads := [Running ex_request, Idle, Idle, Idle]\<rparr>"

lemmas ex_defs = ex_junk_def ex_fresh_def ex_begin_def ex_request_def begin_pool_def begin_state_def
  begin_root_def create_program_def new_program_def write_slot_def read_slot_def set_prog_def
  u_makeRequest_def shutdown_slot_def deref_prog_def log_vm_def begin_run_def setbusy_def prog_at_def
  QUEUE_LEN_def ACORNS_MAXPROGRAMS_def ACORNS_THREADS_def store_id_def Let_def

lemma ex_load: "u_makeRequest 2 RunLoaded 1 (create_program ex_fresh 0 1 12 ''a'' [] (shared ex_begin)) = Inr ex_loaded"
  by (simp add: ex_loaded_def ex_defs)

lemma ex_close: "shutdown_slot (Slot 0) ex_loaded = Inr ex_closed"
  by (simp add: ex_closed_def ex_loaded_def ex_defs)

lemma ex_start: "begin_run ex_request (ex_closed\<lparr>request_queue := [], activeProgram := Some 2\<rparr>) =
    Inr (ex_started, Running ex_request)"
  by (simp add: ex_started_def ex_closed_def ex_loaded_def ex_defs numeral_2_eq_2)

lemma ex_state:
  "read_slot (Slot 0) (shared ex_begin) = None" "progs (shared ex_begin) 2 = None"
  "rootInterpreter (shared ex_begin) = Some 1" "threads ex_begin = [Idle, Idle, Idle, Idle]"
  "read_slot (Slot 0) ex_loaded = Some 2" "request_queue ex_closed = [ex_request]"
  "\<exists>p. progs ex_loaded 2 = Some p \<and> busy p = 0" "\<exists>p. progs ex_closed 2 = Some p \<and> busy p = 0"
  "\<exists>p. progs ex_started 2 = Some p \<and> vm p = None \<and> busy p = 1 \<and> refcount p = 1"
  "rootInterpreter ex_started = Some 1"
  by (simp_all add: ex_started_def ex_closed_def ex_loaded_def ex_defs numeral_2_eq_2 numeral_eq_Suc)

lemma ex_pool_reachable: "pool_step\<^sup>*\<^sup>* ex_begin ex_pool"
proof -
  let ?p1 = "ex_begin\<lparr>shared := ex_loaded\<rparr>"
  let ?p2 = "ex_begin\<lparr>shared := ex_closed\<rparr>"
  let ?p3 = "ex_begin\<lparr>shared := ex_closed\<lparr>request_queue := []\<rparr>, threads := [Got ex_request, Idle, Idle, Idle]\<rparr>"
  have "pool_step ex_begin ?p1"
    by (rule pool_step.load [of 0 _ ex_fresh 1 12 "''a''" "[]"])
       (use ex_state ex_load in \<open>simp_all add: ACORNS_MAXPROGRAMS_def ex_fresh_def\<close>)
  moreover have "pool_step ?p1 ?p2"
  proof -
    obtain p where p: "progs ex_loaded 2 = Some p" "busy p = 0" using ex_state by blast
    have "pool_step ?p1 (?p1\<lparr>shared := ex_closed\<rparr>)"
      by (rule pool_step.close [of 0 _ 2 p]) (use p ex_state ex_close in \<open>simp_all add: ACORNS_MAXPROGRAMS_def\<close>)
    then show ?thesis by simp
  qed
  moreover have "pool_step ?p2 ?p3"
  proof -
    have "pool_step ?p2 (?p2\<lparr>shared := ex_closed\<lparr>request_queue := []\<rparr>, threads := (threads ?p2)[0 := Got ex_request]\<rparr>)"
      by (rule pool_step.thread [of 0 _ "(0, 0, 0)" False]) (use ex_state in simp_all)
    then show ?thesis using ex_state by simp
  qed
  moreover have "pool_step ?p3 ex_pool"
  proof -
    obtain p where p: "progs ex_closed 2 = Some p" "busy p = 0" using ex_state by blast
    have "pool_step ?p3 (?p3\<lparr>shared := ex_started, threads := (threads ?p3)[0 := Running ex_request]\<rparr>)"
      by (rule pool_step.thread [of 0 _ "(0, 0, 0)" False]) (use p ex_start in \<open>simp_all add: ex_request_def\<close>)
    then show ?thesis by (simp add: ex_pool_def)
  qed
  ultimately show ?thesis by (meson converse_rtranclp_into_rtranclp rtranclp.rtrancl_refl)
qed


lemma ex_junk_refs: "1 \<le> unat (refcount ex_junk)" "unat (refcount ex_junk) \<le> 200"
  by (simp_all add: ex_junk_def)




text \<open>
  The pool looks for a closed program only while it waits. A request that was queued before its
  program was closed, and whose program is not busy when a thread takes it, is therefore started on
  a program without an interpreter, and \<open>runLoaded\<close> dereferences a null pointer.
\<close>

theorem closed_program_is_started:
  "\<exists>ps rq. pool_step\<^sup>*\<^sup>* ex_begin ps \<and> threads ps ! 0 = Running rq \<and> rq_f rq = RunLoaded \<and>
     (\<forall>call nz env. runLoaded call nz (rq_program rq) (rq_arg rq) env (shared ps) = Inl NullDeref)"
proof -
  have "runLoaded call nz 2 d env (shared ex_pool) = Inl NullDeref" for call nz d env
    using ex_state by (auto simp: ex_pool_def runLoaded_def vm_of_def)
  then show ?thesis
    using ex_pool_reachable
    by (intro exI [of _ ex_pool] exI [of _ ex_request]) (simp add: ex_pool_def ex_request_def)
qed

text \<open>The same for a request to a root interpreter whose reference count happens to be zero.\<close>

definition ex_begin0 :: pool where
  "ex_begin0 = begin_pool False rng_init (ex_junk\<lparr>refcount := 0\<rparr>) 1 11"

definition ex_request0 :: request where
  "ex_request0 = \<lparr>rq_f = RunInputBuffer, rq_program = 1, rq_arg = 0\<rparr>"

definition ex_asked0 :: acorns where
  "ex_asked0 = projr (makeRequest None RunInputBuffer 0 (shared ex_begin0))"

definition ex_started0 :: acorns where
  "ex_started0 = fst (projr (begin_run ex_request0
     (ex_asked0\<lparr>request_queue := [], activeProgram := Some 1\<rparr>)))"

definition ex_ended0 :: acorns where
  "ex_ended0 = fst (projr (end_run ex_request0 ex_started0))"

lemmas ex_defs0 = ex_defs ex_begin0_def ex_request0_def makeRequest_def programForId_def end_run_def
  setfree_def free_prog_def

lemma ex_run0:
  "makeRequest None RunInputBuffer 0 (shared ex_begin0) = Inr ex_asked0"
  "begin_run ex_request0 (ex_asked0\<lparr>request_queue := [], activeProgram := Some 1\<rparr>) =
     Inr (ex_started0, Running ex_request0)"
  "end_run ex_request0 ex_started0 = Inr (ex_ended0, Idle)"
  "request_queue ex_asked0 = [ex_request0]" "\<exists>p. progs ex_asked0 1 = Some p \<and> busy p = 0"
  "threads ex_begin0 = [Idle, Idle, Idle, Idle]"
  "rootInterpreter ex_ended0 = Some 1" "progs ex_ended0 1 = None"
  by (simp_all add: ex_ended0_def ex_started0_def ex_asked0_def ex_defs0 numeral_2_eq_2 numeral_eq_Suc)

lemma ex_reach0: "pool_step\<^sup>*\<^sup>* ex_begin0 (ex_begin0\<lparr>shared := ex_ended0, threads := [Idle, Idle, Idle, Idle]\<rparr>)"
proof -
  let ?p1 = "ex_begin0\<lparr>shared := ex_asked0\<rparr>"
  let ?p2 = "ex_begin0\<lparr>shared := ex_asked0\<lparr>request_queue := []\<rparr>, threads := [Got ex_request0, Idle, Idle, Idle]\<rparr>"
  let ?p3 = "ex_begin0\<lparr>shared := ex_started0, threads := [Running ex_request0, Idle, Idle, Idle]\<rparr>"
  let ?p4 = "ex_begin0\<lparr>shared := ex_ended0, threads := [Idle, Idle, Idle, Idle]\<rparr>"
  obtain p where p: "progs ex_asked0 1 = Some p" "busy p = 0" using ex_run0 by blast
  have "pool_step ex_begin0 ?p1" by (rule pool_step.request) (rule ex_run0(1))
  moreover have "pool_step ?p1 ?p2"
    using pool_step.thread [of 0 ?p1 "(0, 0, 0)" False "ex_asked0\<lparr>request_queue := []\<rparr>" "Got ex_request0"] ex_run0
    by simp
  moreover have "pool_step ?p2 ?p3"
    using pool_step.thread [of 0 ?p2 "(0, 0, 0)" False ex_started0 "Running ex_request0"] ex_run0(2) p
    by (simp add: ex_request0_def)
  moreover have "pool_step ?p3 ?p4"
    using pool_step.thread [of 0 ?p3 "(0, 0, 0)" False ex_ended0 Idle] ex_run0(3) by simp
  ultimately show ?thesis by (meson converse_rtranclp_into_rtranclp rtranclp.rtrancl_refl)
qed


end
