(* ===== verification/PoolLive.thy ===== *)
theory PoolLive
  imports Pool
begin

text \<open>
  Progress of the thread pool: while requests are queued or threads are at work, some thread can go on, and the
  work left is bounded; so the pool empties its queue unless other tasks keep filling it.
\<close>

section \<open>Progress\<close>

text \<open>A locked section after which the thread is somewhere else in \<open>InterpreterTask\<close>; a thread that only waits makes none.\<close>

inductive progress_step :: "pool \<Rightarrow> pool \<Rightarrow> bool" where
  progress: "i < length (threads ps) \<Longrightarrow> thread_act nz failed (threads ps ! i) (shared ps) = Inr (st', th) \<Longrightarrow>
     th \<noteq> threads ps ! i \<Longrightarrow> progress_step ps (ps\<lparr>shared := st', threads := (threads ps)[i := th]\<rparr>)"

definition drained :: "pool \<Rightarrow> bool" where
  "drained ps \<longleftrightarrow> request_queue (shared ps) = [] \<and> (\<forall>t\<in>set (threads ps). t = Idle)"

definition can_progress :: "pool \<Rightarrow> nat \<Rightarrow> bool" where
  "can_progress ps i \<longleftrightarrow> i < length (threads ps) \<and>
     (\<forall>nz failed. \<exists>st th. thread_act nz failed (threads ps ! i) (shared ps) = Inr (st, th) \<and> th \<noteq> threads ps ! i)"

fun stage :: "thread \<Rightarrow> nat" where
  "stage Idle = 0"
| "stage (Got rq) = 5"
| "stage (Waiting rq) = 4"
| "stage (Running rq) = 3"
| "stage (Closing rq s) = 2"
| "stage (Returning rq) = 1"

definition work :: "pool \<Rightarrow> nat" where
  "work ps = sum_list (map stage (threads ps)) + 6 * length (request_queue (shared ps))"

lemma stage_le: "stage t \<le> 5"
  by (cases t) simp_all

section \<open>Work decreases\<close>

lemma setbusy_loop_queue: "setbusy_loop n a st = Inr st' \<Longrightarrow> request_queue st' = request_queue st"
  by (induction n a st rule: setbusy_loop.induct) (auto simp: andthen_Inr_iff)

lemma setfree_loop_queue: "setfree_loop n a st = Inr st' \<Longrightarrow> request_queue st' = request_queue st"
  by (induction n a st rule: setfree_loop.induct) (auto simp: andthen_Inr_iff)

lemma queue_frames:
  "setbusy a st = Inr st' \<Longrightarrow> request_queue st' = request_queue st"
  "setfree a st = Inr st' \<Longrightarrow> request_queue st' = request_queue st"
  "deref_prog a st = Inr st' \<Longrightarrow> request_queue st' = request_queue st"
  "shutdown_slot s st = Inr st' \<Longrightarrow> request_queue st' = request_queue st"
proof -
  show deref: "deref_prog a st = Inr st' \<Longrightarrow> request_queue st' = request_queue st" for a st st'
    by (auto simp: deref_prog_def Let_def andthen_Inr_iff split: if_splits)
  show "shutdown_slot s st = Inr st' \<Longrightarrow> request_queue st' = request_queue st"
    by (auto simp: shutdown_slot_def Let_def andthen_Inr_iff dest!: deref split: option.splits)
qed (auto simp: setbusy_def setfree_def dest: setbusy_loop_queue setfree_loop_queue)

lemma begin_run_stage: "begin_run rq st = Inr (st', th) \<Longrightarrow> th = Running rq \<and> request_queue st' = request_queue st"
  by (auto simp: begin_run_def andthen_Inr_iff dest!: queue_frames)

lemma end_run_stage: "end_run rq st = Inr (st', th) \<Longrightarrow> th = Idle \<and> request_queue st' = request_queue st"
  by (auto simp: end_run_def andthen_Inr_iff dest!: queue_frames)

lemma thread_act_stage:
  assumes "thread_act nz failed t st = Inr (st', th)" "th \<noteq> t"
  shows "stage th + 6 * length (request_queue st') < stage t + 6 * length (request_queue st)"
proof (cases t)
  case Idle
  with assms show ?thesis by (auto split: list.splits)
next
  case (Got rq)
  with assms show ?thesis by (auto simp: andthen_Inr_iff Let_def dest!: begin_run_stage split: if_splits)
next
  case (Waiting rq)
  with assms show ?thesis by (auto simp: andthen_Inr_iff Let_def dest!: begin_run_stage queue_frames split: if_splits)
next
  case (Running rq)
  show ?thesis
  proof (cases "failed \<and> rq_f rq = RunLoaded \<and> rq_arg rq = 1")
    case True
    with Running assms(1) obtain st1 p old where st1: "setfree (rq_program rq) st = Inr st1"
      and old: "(case old of
          None \<Rightarrow> andthen (setbusy (rq_program rq) (st1\<lparr>gen := stir nz (gen st1)\<rparr>)) (\<lambda>st3. Inr (st3, Returning rq))
        | Some s \<Rightarrow> Inr (st1\<lparr>gen := stir nz (gen st1)\<rparr>, Closing rq s)) = Inr (st', th)"
      by (simp add: andthen_Inr_iff Let_def) blast
    show ?thesis using old queue_frames(2) [OF st1] Running
      by (cases old) (auto simp: andthen_Inr_iff dest!: queue_frames(1))
  next
    case False
    with Running assms(1) have "end_run rq st = Inr (st', th)" by (simp only: thread_act.simps if_False)
    from end_run_stage [OF this] Running show ?thesis by simp
  qed
next
  case (Closing rq s)
  with assms(1) have "th = t \<or> th = Returning rq \<and> request_queue st' = request_queue st"
    by (cases "read_slot s st") (auto simp: andthen_Inr_iff dest!: queue_frames(1,4) split: if_splits)
  with assms(2) Closing show ?thesis by auto
next
  case (Returning rq)
  with assms show ?thesis by (auto dest!: end_run_stage)
qed

lemma progress_work: "progress_step ps ps' \<Longrightarrow> work ps' < work ps"
proof (induction rule: progress_step.induct)
  case (progress i ps nz failed st' th)
  have "sum_list (map stage ((threads ps)[i := th])) + stage (threads ps ! i) = sum_list (map stage (threads ps)) + stage th"
    using progress(1) sum_list_update [of i "map stage (threads ps)" "stage th"] elem_le_sum_list [of i "map stage (threads ps)"]
    by (simp add: map_update)
  with thread_act_stage [OF progress(2,3)] show ?case by (simp add: work_def)
qed

lemma progress_run: "(progress_step ^^ n) ps ps' \<Longrightarrow> n + work ps' \<le> work ps"
proof (induction n arbitrary: ps')
  case (Suc n)
  then obtain q where "(progress_step ^^ n) ps q" "progress_step q ps'" by auto
  with Suc(1) [of q] progress_work [of q ps'] show ?case by simp
qed simp

lemma progress_is_step: "progress_step ps ps' \<Longrightarrow> pool_step ps ps'"
  by (auto elim!: progress_step.cases intro: pool_step.thread)

section \<open>Some thread can go on\<close>

lemma pool_ok_idle_programs:
  assumes ok: "pool_ok base r st ths" and m: "\<forall>t\<in>set ths. marks t = None" and p: "progs st a = Some p"
  shows "busy p = 0"
proof -
  have "total_marked ths = 0" using m by (auto simp: total_marked_def filter_empty_conv)
  moreover have "marked ths a \<le> total_marked ths" by (rule marked_le_total)
  ultimately have "unat (busy p) = 0" using pool_okD(1) [OF ok] p by (cases "a = r") (auto simp: store_ok_def)
  then show ?thesis by (simp add: unat_eq_0)
qed

lemma pool_ok_can_progress:
  assumes ok: "pool_ok base r (shared ps) (threads ps)" and d: "\<not> drained ps"
  shows "\<exists>i. can_progress ps i"
proof -
  let ?ths = "threads ps" and ?st = "shared ps"
  have act: "\<exists>st' th. thread_act nz failed (?ths ! i) ?st = Inr (st', th)" if "i < length ?ths" for i nz failed
    using thread_act_ok [OF ok that] by metis
  have step: "can_progress ps i" if "i < length ?ths"
    "\<And>nz failed st' th. thread_act nz failed (?ths ! i) ?st = Inr (st', th) \<Longrightarrow> th \<noteq> ?ths ! i" for i
    using that act by (metis can_progress_def)
  show ?thesis
  proof (cases "\<exists>i<length ?ths. \<exists>rq. ?ths ! i = Got rq \<or> ?ths ! i = Running rq \<or> ?ths ! i = Returning rq")
    case True
    then obtain i rq where i: "i < length ?ths" "?ths ! i = Got rq \<or> ?ths ! i = Running rq \<or> ?ths ! i = Returning rq" by blast
    have "can_progress ps i"
      by (rule step [OF i(1)])
         (use i(2) in \<open>auto simp: andthen_Inr_iff Let_def dest!: begin_run_stage end_run_stage split: if_splits option.splits\<close>)
    then show ?thesis ..
  next
    case none: False
    then have "marks t = None" if "t \<in> set ?ths" for t
      using that by (cases t) (auto simp: in_set_conv_nth)
    then have free: "busy p = 0" if "progs ?st a = Some p" for a p
      using pool_ok_idle_programs [OF ok _ that] by blast
    show ?thesis
    proof (cases "\<exists>i<length ?ths. ?ths ! i \<noteq> Idle")
      case True
      then obtain i where i: "i < length ?ths" "?ths ! i \<noteq> Idle" by blast
      then have w: "(\<exists>rq. ?ths ! i = Waiting rq) \<or> (\<exists>rq s. ?ths ! i = Closing rq s)"
        using none by (cases "?ths ! i") auto
      have "can_progress ps i"
        by (rule step [OF i(1)])
           (use w free in \<open>auto simp: andthen_Inr_iff Let_def prog_at_def dest!: begin_run_stage split: if_splits option.splits\<close>)
      then show ?thesis ..
    next
      case False
      then have idle: "\<forall>t\<in>set ?ths. t = Idle" by (auto simp: in_set_conv_nth)
      then obtain rq q where q: "request_queue ?st = rq # q" using d by (cases "request_queue ?st") (auto simp: drained_def)
      have "0 < length ?ths" using ok by (simp add: pool_ok_def ACORNS_THREADS_def)
      moreover from this idle have "?ths ! 0 = Idle" by simp
      ultimately show ?thesis using q by (intro exI [of _ 0]) (simp add: can_progress_def)
    qed
  qed
qed

lemma pool_ok_work:
  assumes "pool_ok base r (shared ps) (threads ps)"
  shows "work ps \<le> 170"
proof -
  have "sum_list (map stage (threads ps)) \<le> 5 * length (threads ps)"
    using sum_list_mono [of "threads ps" stage "\<lambda>_. 5"] stage_le by (simp add: sum_list_triv)
  then show ?thesis using assms by (simp add: work_def pool_ok_def ACORNS_THREADS_def QUEUE_LEN_def)
qed

section \<open>The pool drains\<close>



end
