(* ===== verification/Loading.thy ===== *)
theory Loading
  imports Programs
begin

text \<open>
  What the functions of the process table achieve: input buffers collect what is written to them,
  busy marks are undone, a closed program is gone, and a loaded one is running. The theorems at the
  end show the paths on which the code leaves its blocks of memory.
\<close>

section \<open>Loading from files\<close>

text \<open>
  The loop of \<open>loadFromFile\<close> that looks for the last slash; the pointer starts at the first character,
  also when there is no slash. The identifier is what follows the character it stops at.
\<close>

fun last_slash :: "string \<Rightarrow> nat \<Rightarrow> nat \<Rightarrow> nat" where
  "last_slash [] i sl = sl"
| "last_slash (c # cs) i sl = last_slash cs (i + 1) (if c = CHR ''/'' then i else sl)"

definition file_id :: "string \<Rightarrow> string" where
  "file_id fn = drop (last_slash fn 0 0 + 1) fn"

text \<open>
  A release of the lock at a point where the code does not wait: the next entry of \<open>env\<close>, if there is
  one, is what other tasks do there.
\<close>

fun release :: "env \<Rightarrow> acorns \<Rightarrow> acorns \<times> env" where
  "release [] st = (st, [])"
| "release (e # es) st = (e st, es)"

text \<open>
  \<open>files\<close> gives the contents of the files that can be opened. The buffer has two bytes more than the
  file; the first is the terminator, the second stays as \<open>malloc\<close> left it (\<open>junk\<close>).
\<close>

definition loadFromFile ::
  "(string \<Rightarrow> string option) \<Rightarrow> char \<Rightarrow> (string \<Rightarrow> bool) \<Rightarrow> interp \<Rightarrow> noise \<Rightarrow> fresh \<Rightarrow> string \<Rightarrow> env
     \<Rightarrow> acorns \<Rightarrow> (acorns \<times> env) outcome" where
  "loadFromFile files junk compiles call nz fr fn env st =
     (case files fn of
        None \<Rightarrow> Inr (st, env)
      | Some contents \<Rightarrow>
          let (st1, env1) = release env st in
          andthen (loadProgram compiles call nz fr (contents @ [NUL, junk]) (Some (file_id fn)) env1 st1)
            (\<lambda>(st2, env2, _). Inr (release env2 st2)))"

text \<open>
  \<open>loadFromDir\<close> builds every path in one buffer of 256 bytes. \<open>dirs\<close> gives the entries of a directory
  that can be opened, with what each load needs.
\<close>

definition dir_prefix :: "string \<Rightarrow> string outcome" where
  "dir_prefix dir =
     (if dir = [] \<or> length dir \<ge> 256 then Inl OutOfBounds
      else Inr (if last dir = CHR ''/'' then dir else dir @ ''/''))"

fun dir_loop ::
  "(string \<Rightarrow> string option) \<Rightarrow> char \<Rightarrow> (string \<Rightarrow> bool) \<Rightarrow> interp \<Rightarrow> string \<Rightarrow> (string \<times> noise \<times> fresh) list
     \<Rightarrow> env \<Rightarrow> acorns \<Rightarrow> (acorns \<times> env) outcome" where
  "dir_loop files junk compiles call prefix [] env st = Inr (st, env)"
| "dir_loop files junk compiles call prefix ((name, nz, fr) # des) env st =
     (if length (prefix @ name) \<ge> 256 then Inl OutOfBounds
      else let (st1, env1) = release env st in
           andthen (loadFromFile files junk compiles call nz fr (prefix @ name) env1 st1)
             (\<lambda>(st2, env2). let (st3, env3) = release env2 st2 in
                dir_loop files junk compiles call prefix des env3 st3))"

definition loadFromDir ::
  "(string \<Rightarrow> (string \<times> noise \<times> fresh) list option) \<Rightarrow> (string \<Rightarrow> string option) \<Rightarrow> char
     \<Rightarrow> (string \<Rightarrow> bool) \<Rightarrow> interp \<Rightarrow> string \<Rightarrow> env \<Rightarrow> acorns \<Rightarrow> (acorns \<times> env) outcome" where
  "loadFromDir dirs files junk compiles call dir env st =
     (case dirs dir of
        None \<Rightarrow> Inr (st, env)
      | Some des \<Rightarrow>
          andthen (dir_prefix dir) (\<lambda>prefix. dir_loop files junk compiles call prefix des env st))"

section \<open>Input buffers\<close>

definition buf_ok :: "loadedProgram \<Rightarrow> bool" where
  "buf_ok p \<longleftrightarrow> (case inputBuffer p of
      None \<Rightarrow> inputBufferLen p = 0
    | Some b \<Rightarrow> 0 \<le> inputBufferLen p \<and> inputBufferLen p \<le> int (length b))"

definition buffered :: "loadedProgram \<Rightarrow> char list" where
  "buffered p = (case inputBuffer p of None \<Rightarrow> [] | Some b \<Rightarrow> take (nat (inputBufferLen p)) b)"

text \<open>The block has a byte after the contents, for the terminator \<open>_runInputBuffer\<close> writes.\<close>

definition has_room :: "loadedProgram \<Rightarrow> bool" where
  "has_room p \<longleftrightarrow> (\<exists>b. inputBuffer p = Some b \<and> inputBufferLen p < int (length b))"

lemma copy_into_at:
  assumes "0 \<le> pos" "pos + int (length src) \<le> int (length block)"
  shows "copy_into block pos src (int (length src)) =
    Inr (take (nat pos) block @ src @ drop (nat pos + length src) block)"
  using assms by (simp add: copy_into_def nat_add_distrib)

lemma writeToInput_append:
  assumes id: "programForId ident st = Inr (Some a)" and p: "progs st a = Some p" and ok: "buf_ok p"
    and mem: "length (buffered p) + length data + 2 \<le> length junk"
  obtains p' where "writeToInput junk ident data (int (length data)) (- 1) st =
      Inr (set_prog a p' (st\<lparr>activeProgram := Some a\<rparr>))"
    "buf_ok p'" "buffered p' = buffered p @ data" "length data \<noteq> 1 \<Longrightarrow> has_room p'"
    "programID p' = programID p" "vm p' = vm p" "inputBuffer p' \<noteq> None"
    "length data = 1 \<Longrightarrow> inputBuffer p \<noteq> None \<Longrightarrow> \<not> has_room p'"
proof (cases "inputBuffer p")
  case None
  let ?b = "take (length data + 2) junk"
  let ?p = "p\<lparr>inputBuffer := Some (data @ drop (length data) ?b), inputBufferLen := int (length data)\<rparr>"
  have l: "inputBufferLen p = 0" "buffered p = []" using None ok by (simp_all add: buf_ok_def buffered_def)
  have b: "c_malloc junk (int (length data) + 2) = Some ?b"
    using mem l by (simp add: c_malloc_def nat_add_distrib)
  have "copy_into ?b 0 data (int (length data)) = Inr (data @ drop (length data) ?b)"
    using copy_into_at [of 0 data ?b] mem l by simp
  then have "writeToInput junk ident data (int (length data)) (- 1) st =
      Inr (set_prog a ?p (st\<lparr>activeProgram := Some a\<rparr>))"
    using id p None l b by (simp add: writeToInput_def Let_def)
  then show ?thesis
    by (rule that) (use mem l None in \<open>simp_all add: buf_ok_def buffered_def has_room_def\<close>)
next
  case (Some b)
  let ?add = "if length data = 1 then 0 else 1 :: nat"
  obtain n where n: "inputBufferLen p = int n" using Some ok by (auto simp: buf_ok_def elim: nonneg_int_cases)
  have l: "n \<le> length b" "buffered p = take n b"
    using Some ok n by (simp_all add: buf_ok_def buffered_def)
  define x where "x = take (n + length data + ?add) (b @ drop (length b) (take (n + length data + ?add) junk))"
  let ?b = "take n x @ data @ drop (n + length data) x"
  let ?p = "p\<lparr>inputBuffer := Some ?b, inputBufferLen := int (length data) + inputBufferLen p\<rparr>"
  have m: "n + length data + 2 \<le> length junk" using mem l by simp
  have len: "length x = n + length data + ?add" and tk: "take n x = take n b"
    using m l by (simp_all add: x_def)
  have "c_realloc junk b (int (n + length data + ?add)) = Some x"
    using m by (simp only: c_realloc_def c_malloc_def nat_int x_def) (simp add: min_def)
  moreover have "int (length data) + inputBufferLen p + (if int (length data) = 1 then 0 else 1) =
      int (n + length data + ?add)" using n by simp
  ultimately have "c_realloc junk b
      (int (length data) + inputBufferLen p + (if int (length data) = 1 then 0 else 1)) = Some x"
    by (simp only:)
  moreover have "copy_into x (inputBufferLen p) data (int (length data)) = Inr ?b"
    using copy_into_at [of "int n" data x] len n by simp
  ultimately have "writeToInput junk ident data (int (length data)) (- 1) st =
      Inr (set_prog a ?p (st\<lparr>activeProgram := Some a\<rparr>))"
    using id p Some by (simp only: writeToInput_def Let_def) (simp add: n)
  moreover have "nat (int (length data) + inputBufferLen p) = n + length data"
    using n by (simp add: nat_add_distrib)
  ultimately show ?thesis
    using len l n tk by (intro that [of ?p]) (simp_all add: buf_ok_def buffered_def has_room_def)
qed

lemma prog_loop_cong:
  "(\<And>x. map_option programID (progs st' x) = map_option programID (progs st x)) \<Longrightarrow>
   prog_loop st' s as = prog_loop st s as"
proof (induction as)
  case (Cons x as)
  show ?case
  proof (cases x)
    case (Some a)
    have "map_option programID (progs st' a) = map_option programID (progs st a)" by (rule Cons.prems)
    with Cons Some show ?thesis
      by (cases "progs st a"; cases "progs st' a") (auto simp: prog_at_def)
  qed (use Cons in simp)
qed simp

lemma programForId_cong:
  "rootInterpreter st' = rootInterpreter st \<Longrightarrow> loadedPrograms st' = loadedPrograms st \<Longrightarrow>
   (\<And>x. map_option programID (progs st' x) = map_option programID (progs st x)) \<Longrightarrow>
   programForId ident st' = programForId ident st"
  using prog_loop_cong [of st' st] by (simp add: programForId_def split: option.split)

text \<open>A text sent to a program in pieces, each appended to the input buffer.\<close>

fun write_chunks :: "char list \<Rightarrow> string option \<Rightarrow> char list list \<Rightarrow> acorns \<Rightarrow> acorns outcome" where
  "write_chunks junk ident [] st = Inr st"
| "write_chunks junk ident (c # cs) st =
     andthen (writeToInput junk ident c (int (length c)) (- 1) st) (write_chunks junk ident cs)"

lemma write_chunks_ok:
  "programForId ident st = Inr (Some a) \<Longrightarrow> progs st a = Some p \<Longrightarrow> buf_ok p \<Longrightarrow>
   length (buffered p) + length (concat cs) + 2 \<le> length junk \<Longrightarrow>
   \<exists>st' p'. write_chunks junk ident cs st = Inr st' \<and> progs st' a = Some p' \<and> buf_ok p' \<and>
     buffered p' = buffered p @ concat cs \<and> vm p' = vm p \<and> vm_log st' = vm_log st \<and>
     programForId ident st' = Inr (Some a) \<and>
     (cs \<noteq> [] \<longrightarrow> inputBuffer p' \<noteq> None) \<and>
     (cs \<noteq> [] \<longrightarrow> length (last cs) \<noteq> 1 \<longrightarrow> has_room p') \<and>
     (cs \<noteq> [] \<longrightarrow> length (last cs) = 1 \<longrightarrow> butlast cs \<noteq> [] \<or> inputBuffer p \<noteq> None \<longrightarrow> \<not> has_room p')"
proof (induction cs arbitrary: st p)
  case (Cons c cs)
  obtain p1 where p1: "writeToInput junk ident c (int (length c)) (- 1) st =
      Inr (set_prog a p1 (st\<lparr>activeProgram := Some a\<rparr>))"
    "buf_ok p1" "buffered p1 = buffered p @ c" "length c \<noteq> 1 \<Longrightarrow> has_room p1"
    "programID p1 = programID p" "vm p1 = vm p" "inputBuffer p1 \<noteq> None"
    "length c = 1 \<Longrightarrow> inputBuffer p \<noteq> None \<Longrightarrow> \<not> has_room p1"
    by (rule writeToInput_append [OF Cons.prems(1-3), of c junk]) (use Cons.prems(4) in \<open>auto simp: less_eq_Suc_le\<close>)
  let ?st = "set_prog a p1 (st\<lparr>activeProgram := Some a\<rparr>)"
  have "programForId ident ?st = programForId ident st"
    by (rule programForId_cong) (use Cons.prems(2) p1(5) in simp_all)
  then have id: "programForId ident ?st = Inr (Some a)" using Cons.prems(1) by simp
  have "\<exists>st' p'. write_chunks junk ident cs ?st = Inr st' \<and> progs st' a = Some p' \<and> buf_ok p' \<and>
     buffered p' = buffered p1 @ concat cs \<and> vm p' = vm p1 \<and> vm_log st' = vm_log ?st \<and>
     programForId ident st' = Inr (Some a) \<and>
     (cs \<noteq> [] \<longrightarrow> inputBuffer p' \<noteq> None) \<and>
     (cs \<noteq> [] \<longrightarrow> length (last cs) \<noteq> 1 \<longrightarrow> has_room p') \<and>
     (cs \<noteq> [] \<longrightarrow> length (last cs) = 1 \<longrightarrow> butlast cs \<noteq> [] \<or> inputBuffer p1 \<noteq> None \<longrightarrow> \<not> has_room p')"
    by (rule Cons.IH [OF id]) (use p1 Cons.prems(4) in simp_all)
  then show ?case using p1 by (cases "cs = []") auto
qed simp

section \<open>Busy marks\<close>

lemma table_child:
  assumes "table_wf st" "rootInterpreter st = Some a \<or> Some a \<in> set (loadedPrograms st)"
  shows "child_of_root st a"
proof -
  obtain r R where r: "rootInterpreter st = Some r" "progs st r = Some R" "parent R = None"
    by (rule table_wf_root [OF assms(1)])
  show ?thesis
  proof (cases "a = r")
    case True
    then show ?thesis using r by (auto simp: child_of_root_def)
  next
    case False
    then obtain p where "progs st a = Some p" "parent p = Some r"
      using assms(2) table_wfD(2) [OF assms(1)] r by auto
    then show ?thesis using r False by (auto simp: child_of_root_def)
  qed
qed

lemma child_of_root_alt:
  "child_of_root st a \<longleftrightarrow>
     (\<exists>r. rootInterpreter st = Some r \<and> map_option parent (progs st r) = Some None \<and>
        (a = r \<or> map_option parent (progs st a) = Some (Some r)))"
  by (auto simp: child_of_root_def)

lemma child_of_root_bump [simp]: "child_of_root (bump d b st) a \<longleftrightarrow> child_of_root st a"
proof -
  have "map_option parent (progs (bump d b st) x) = map_option parent (progs st x)" for x
    by (auto simp: bump_def option.map_comp o_def)
  moreover have "rootInterpreter (bump d b st) = rootInterpreter st" by (simp add: bump_def)
  ultimately show ?thesis by (simp only: child_of_root_alt)
qed

lemma adjust_busy_inverse: "adjust_busy (- 1) a (adjust_busy 1 a st) = st"
proof -
  have r: "rootInterpreter (bump d b st') = rootInterpreter st'" for d b st' by (simp add: bump_def)
  show ?thesis
  proof (cases "rootInterpreter st")
    case None
    then show ?thesis by (simp add: adjust_busy_def Let_def r)
  next
    case (Some x)
    have "bump (- 1) a (bump 1 x (bump 1 a st)) = bump 1 x (bump (- 1) a (bump 1 a st))"
      by (rule bump_commute)
    with Some show ?thesis by (simp add: adjust_busy_def Let_def r)
  qed
qed

lemma child_of_root_adjust [simp]: "child_of_root (adjust_busy d b st) a \<longleftrightarrow> child_of_root st a"
  by (simp add: adjust_busy_def Let_def split: option.split)

section \<open>Closing\<close>

lemma table_wf_gen [simp]: "table_wf (st\<lparr>gen := g\<rparr>) = table_wf st" "ids_unique (st\<lparr>gen := g\<rparr>) = ids_unique st"
  "programForId ident (st\<lparr>gen := g\<rparr>) = programForId ident st"
proof -
  show "table_wf (st\<lparr>gen := g\<rparr>) = table_wf st" by (simp add: table_wf_def)
  show "ids_unique (st\<lparr>gen := g\<rparr>) = ids_unique st" by (simp add: ids_unique_def)
  show "programForId ident (st\<lparr>gen := g\<rparr>) = programForId ident st" by (rule programForId_cong) simp_all
qed

text \<open>The state after the program \<open>a\<close> in entry \<open>j\<close> was closed.\<close>

definition closed_state :: "nat \<Rightarrow> addr \<Rightarrow> loadedProgram \<Rightarrow> acorns \<Rightarrow> acorns \<Rightarrow> bool" where
  "closed_state j a p st st' \<longleftrightarrow>
     loadedPrograms st' = (loadedPrograms st)[j := None] \<and> rootInterpreter st' = rootInterpreter st \<and>
     request_queue st' = request_queue st \<and> sharedMode st' = sharedMode st \<and>
     vm_log st' = vm_log st @ (case vm p of None \<Rightarrow> [] | Some v \<Rightarrow> [Release v (threadObj p)]) \<and>
     progs st' = (progs st)(a := if refcount p = 1 then None else
       Some (p\<lparr>workingDir := None, inputBuffer := None, vm := None, refcount := refcount p - 1\<rparr>))"

lemma sharedMode_simps [simp]:
  "sharedMode (set_prog a p st) = sharedMode st" "sharedMode (free_prog a st) = sharedMode st"
  "sharedMode (log_vm e st) = sharedMode st" "sharedMode (write_slot (Slot j) x st) = sharedMode st"
  by (simp_all add: set_prog_def free_prog_def log_vm_def write_slot_def)

lemma shutdown_slot_eq:
  assumes "loadedPrograms st ! j = Some a" "progs st a = Some p"
  obtains st' where "shutdown_slot (Slot j) st = Inr st'" "closed_state j a p st st'"
proof -
  let ?p1 = "p\<lparr>workingDir := None, inputBuffer := None, vm := None\<rparr>"
  let ?st1 = "case vm p of None \<Rightarrow> st | Some v \<Rightarrow> log_vm (Release v (threadObj p)) st"
  let ?st2 = "if refcount p = 1 then free_prog a (set_prog a ?p1 ?st1)
    else set_prog a (?p1\<lparr>refcount := refcount p - 1\<rparr>) (set_prog a ?p1 ?st1)"
  have "shutdown_slot (Slot j) st = Inr (write_slot (Slot j) None ?st2)"
    using assms by (simp add: shutdown_slot_def read_slot_def deref_prog_def Let_def)
  moreover have "closed_state j a p st (write_slot (Slot j) None ?st2)"
    by (cases "vm p") (simp_all add: closed_state_def)
  ultimately show ?thesis by (rule that)
qed

lemma set_clear:
  assumes "distinct (filter (\<lambda>x. x \<noteq> None) xs)" "j < length xs" "xs ! j = Some a"
  shows "Some b \<in> set (xs[j := None]) \<longleftrightarrow> Some b \<in> set xs \<and> b \<noteq> a"
    "distinct (filter (\<lambda>x. x \<noteq> None) (xs[j := None]))"
proof -
  have x: "xs = take j xs @ Some a # drop (Suc j) xs" using assms(2,3) by (metis id_take_nth_drop)
  have u: "xs[j := None] = take j xs @ None # drop (Suc j) xs" using assms(2) by (rule upd_conv_take_nth_drop)
  have d: "distinct (filter (\<lambda>x. x \<noteq> None) (take j xs @ Some a # drop (Suc j) xs))" using assms(1) x by simp
  show "Some b \<in> set (xs[j := None]) \<longleftrightarrow> Some b \<in> set xs \<and> b \<noteq> a"
    using d by (subst u, subst (3) x) auto
  show "distinct (filter (\<lambda>x. x \<noteq> None) (xs[j := None]))"
    using d by (subst u) auto
qed

lemma closed_state_wf:
  assumes wf: "table_wf st" "ids_unique st" and j: "j < length (loadedPrograms st)"
    "loadedPrograms st ! j = Some a" and p: "progs st a = Some p" and c: "closed_state j a p st st'"
  shows "table_wf st'" "ids_unique st'"
    "programForId (Some (cstr (programID p))) st' = Inr None"
    "s \<noteq> cstr (programID p) \<Longrightarrow> programForId (Some s) st' = programForId (Some s) st"
proof -
  note S = set_clear [OF table_wfD(3) [OF wf(1)] j]
  have lp: "loadedPrograms st' = (loadedPrograms st)[j := None]" and rt: "rootInterpreter st' = rootInterpreter st"
    and pr: "\<And>x. x \<noteq> a \<Longrightarrow> progs st' x = progs st x" using c by (simp_all add: closed_state_def)
  have al: "Some a \<in> set (loadedPrograms st)" using j by (metis nth_mem)
  obtain r R where r: "rootInterpreter st = Some r" "progs st r = Some R" "parent R = None" "vm R \<noteq> None"
    "Some r \<notin> set (loadedPrograms st)" by (rule table_wf_root [OF wf(1)])
  have ra: "r \<noteq> a" using r(5) al by auto
  show wf': "table_wf st'"
    unfolding table_wf_def
  proof (intro conjI allI impI)
    show "\<exists>r R. rootInterpreter st' = Some r \<and> progs st' r = Some R \<and> parent R = None \<and> vm R \<noteq> None \<and>
        Some r \<notin> set (loadedPrograms st')"
      using r ra by (intro exI [of _ r] exI [of _ R]) (simp add: rt pr lp S(1))
    fix b assume "Some b \<in> set (loadedPrograms st')"
    then show "\<exists>q. progs st' b = Some q \<and> parent q = rootInterpreter st' \<and> vm q \<noteq> None \<and> refcount q \<noteq> 0"
      using table_wfD(2) [OF wf(1)] by (simp add: lp S(1) pr rt)
  qed (use table_wfD(1) [OF wf(1)] S(2) in \<open>simp_all add: lp\<close>)
  show "ids_unique st'"
    using wf(2) unfolding ids_unique_def lp S(1) by (metis pr)
  have none: "\<not> has_id st' (cstr (programID p)) b" if "Some b \<in> set (loadedPrograms st')" for b
    using that wf(2) al p by (auto simp: lp S(1) pr has_id_def ids_unique_def)
  show "programForId (Some (cstr (programID p))) st' = Inr None"
    by (rule programForId_spec [OF wf', of "cstr (programID p)"]) (use none in \<open>auto split: option.splits\<close>)
  assume s: "s \<noteq> cstr (programID p)"
  obtain x where x: "programForId (Some s) st = Inr x"
    "case x of None \<Rightarrow> \<forall>a. Some a \<in> set (loadedPrograms st) \<longrightarrow> \<not> has_id st s a
     | Some a \<Rightarrow> Some a \<in> set (loadedPrograms st) \<and> has_id st s a"
    by (rule programForId_spec [OF wf(1)])
  obtain y where y: "programForId (Some s) st' = Inr y"
    "case y of None \<Rightarrow> \<forall>a. Some a \<in> set (loadedPrograms st') \<longrightarrow> \<not> has_id st' s a
     | Some a \<Rightarrow> Some a \<in> set (loadedPrograms st') \<and> has_id st' s a"
    by (rule programForId_spec [OF wf'])
  have h: "has_id st' s b \<longleftrightarrow> has_id st s b" if "b \<noteq> a" for b using that by (simp add: has_id_def pr)
  have na: "\<not> has_id st s a" using s p by (simp add: has_id_def)
  have eq: "b = b'" if "has_id st s b" "has_id st s b'" "Some b \<in> set (loadedPrograms st)" "Some b' \<in> set (loadedPrograms st)" for b b'
    using that wf(2) by (auto simp: has_id_def ids_unique_def)
  have "y = x"
  proof (cases x; cases y)
    fix b c assume "x = Some b" "y = Some c"
    then show "y = x" using x(2) y(2) h eq by (auto simp: lp S(1))
  next
    fix b assume "x = Some b" "y = None"
    then show "y = x" using x(2) y(2) h na by (auto simp: lp S(1))
  next
    fix c assume "x = None" "y = Some c"
    then show "y = x" using x(2) y(2) h by (auto simp: lp S(1))
  qed simp
  then show "programForId (Some s) st' = programForId (Some s) st" using x y by simp
qed

lemma u_closeProgram_ok:
  assumes wf: "table_wf st" "ids_unique st" and id: "programForId (Some s) st = Inr (Some a)"
    and p: "progs st a = Some p" "busy p = 0"
  obtains j st' where "u_closeProgram nz (Some s) env st = Inr (st', env)"
    "j < length (loadedPrograms st)" "loadedPrograms st ! j = Some a" "cstr (programID p) = s"
    "closed_state j a p st st'" "table_wf st'" "ids_unique st'" "programForId (Some s) st' = Inr None"
    "\<And>s'. s' \<noteq> s \<Longrightarrow> programForId (Some s') st' = programForId (Some s') st"
proof -
  let ?st = "st\<lparr>gen := stir nz (gen st)\<rparr>"
  have wf': "table_wf ?st" using wf by simp
  have s: "cstr (programID p) = s"
    by (rule programForId_spec [OF wf(1), of s]) (use id p in \<open>auto simp: has_id_def\<close>)
  obtain x where x: "programSlotForId (Some s) ?st = Inr (map_option Slot x)"
    "programForId (Some s) ?st = Inr (case x of None \<Rightarrow> None | Some j \<Rightarrow> loadedPrograms ?st ! j)"
    "case x of None \<Rightarrow> True | Some j \<Rightarrow> j < length (loadedPrograms ?st) \<and> loadedPrograms ?st ! j \<noteq> None"
    by (rule programSlotForId_spec [OF wf'])
  then obtain j where j: "x = Some j" "loadedPrograms st ! j = Some a" "j < length (loadedPrograms st)"
    using id by (cases x) auto
  obtain st' where st': "shutdown_slot (Slot j) ?st = Inr st'" "closed_state j a p ?st st'"
    by (rule shutdown_slot_eq [of ?st j a p]) (use j p in simp_all)
  have "wait_slot env (Slot j) ?st = Inr (?st, env)"
    using j p by (cases env) (simp_all add: read_slot_def)
  then have "u_closeProgram nz (Some s) env st = Inr (st', env)"
    using x(1) j(1) st'(1) by (simp add: u_closeProgram_def Let_def)
  moreover have c: "closed_state j a p st st'" using st'(2) by (simp add: closed_state_def)
  moreover note closed_state_wf [OF wf j(3,2) p(1) c]
  ultimately show ?thesis using that j s by blast
qed

section \<open>Loading\<close>

lemma free_slot_spec:
  "free_slot k as = Some i \<Longrightarrow> k \<le> i \<and> i - k < length as \<and> as ! (i - k) = None"
  "free_slot k as = None \<longleftrightarrow> None \<notin> set as"
proof (induction k as rule: free_slot.induct)
  case (3 k a as)
  {
    case 1
    then show ?case using 3(1) by (auto simp: nth_Cons' Suc_diff_le)
  next
    case 2
    then show ?case using 3(2) by simp
  }
qed simp_all

lemma store_id_short: "length s < 16 \<Longrightarrow> NUL \<notin> set s \<Longrightarrow> cstr (store_id s junk) = s"
  by (simp add: store_id_def)

lemma set_fill:
  assumes "j < length xs" "xs ! j = None" "Some a \<notin> set xs" "distinct (filter (\<lambda>x. x \<noteq> None) xs)"
  shows "Some b \<in> set (xs[j := Some a]) \<longleftrightarrow> Some b \<in> set xs \<or> b = a"
    "distinct (filter (\<lambda>x. x \<noteq> None) (xs[j := Some a]))"
proof -
  have x: "xs = take j xs @ None # drop (Suc j) xs" using assms(1,2) by (metis id_take_nth_drop)
  have u: "xs[j := Some a] = take j xs @ Some a # drop (Suc j) xs" using assms(1) by (rule upd_conv_take_nth_drop)
  have d: "distinct (filter (\<lambda>x. x \<noteq> None) (take j xs @ None # drop (Suc j) xs))"
    "Some a \<notin> set (take j xs @ None # drop (Suc j) xs)" using assms(3,4) x by simp_all
  show "Some b \<in> set (xs[j := Some a]) \<longleftrightarrow> Some b \<in> set xs \<or> b = a"
    using d by (subst u, subst (3) x) auto
  show "distinct (filter (\<lambda>x. x \<noteq> None) (xs[j := Some a]))"
    using d by (subst u) auto
qed

lemma entered_wf:
  assumes wf: "table_wf st" "ids_unique st" and i: "i < length (loadedPrograms st)" "loadedPrograms st ! i = None"
    and fresh: "progs st a = None" and no: "programForId (Some s) st = Inr None"
    and st': "loadedPrograms st' = (loadedPrograms st)[i := Some a]" "rootInterpreter st' = rootInterpreter st"
      "progs st' = (progs st)(a \<mapsto> p)"
    and p: "cstr (programID p) = s" "vm p \<noteq> None" "parent p = rootInterpreter st" "refcount p \<noteq> 0"
  shows "table_wf st'" "ids_unique st'" "programForId (Some s) st' = Inr (Some a)"
proof -
  obtain r R where r: "rootInterpreter st = Some r" "progs st r = Some R" "parent R = None" "vm R \<noteq> None"
    "Some r \<notin> set (loadedPrograms st)" by (rule table_wf_root [OF wf(1)])
  have na: "Some a \<notin> set (loadedPrograms st)" using table_wfD(2) [OF wf(1), of a] fresh by auto
  have ra: "r \<noteq> a" using r(2) fresh by auto
  note S = set_fill [OF i na table_wfD(3) [OF wf(1)]]
  have ids: "\<not> has_id st s b" if "Some b \<in> set (loadedPrograms st)" for b
    by (rule programForId_spec [OF wf(1), of s]) (use no that in auto)
  show wf': "table_wf st'"
    unfolding table_wf_def
  proof (intro conjI allI impI)
    show "\<exists>r R. rootInterpreter st' = Some r \<and> progs st' r = Some R \<and> parent R = None \<and> vm R \<noteq> None \<and>
        Some r \<notin> set (loadedPrograms st')"
      using r ra by (intro exI [of _ r] exI [of _ R]) (simp add: st' S(1))
    fix b assume "Some b \<in> set (loadedPrograms st')"
    then show "\<exists>q. progs st' b = Some q \<and> parent q = rootInterpreter st' \<and> vm q \<noteq> None \<and> refcount q \<noteq> 0"
      using table_wfD(2) [OF wf(1), of b] p by (auto simp: st' S(1))
  qed (use table_wfD(1) [OF wf(1)] S(2) in \<open>simp_all add: st'\<close>)
  show "ids_unique st'"
    unfolding ids_unique_def st' S(1)
  proof (intro allI impI)
    fix b c q q'
    assume b: "Some b \<in> set (loadedPrograms st) \<or> b = a" "((progs st)(a \<mapsto> p)) b = Some q"
      and c: "Some c \<in> set (loadedPrograms st) \<or> c = a" "((progs st)(a \<mapsto> p)) c = Some q'"
      and e: "cstr (programID q) = cstr (programID q')"
    show "b = c"
    proof (cases "b = a \<or> c = a")
      case True
      then show ?thesis using b c e ids p(1) na by (auto simp: has_id_def split: if_splits)
    next
      case False
      then show ?thesis using b c e wf(2) by (auto simp: ids_unique_def)
    qed
  qed
  show "programForId (Some s) st' = Inr (Some a)"
  proof (rule programForId_spec [OF wf', of s])
    fix x assume x: "programForId (Some s) st' = Inr x"
      "case x of None \<Rightarrow> \<forall>b. Some b \<in> set (loadedPrograms st') \<longrightarrow> \<not> has_id st' s b
       | Some b \<Rightarrow> Some b \<in> set (loadedPrograms st') \<and> has_id st' s b"
    have "has_id st' s a" using p(1) by (simp add: has_id_def st')
    moreover have "\<not> has_id st' s b" if "b \<noteq> a" "Some b \<in> set (loadedPrograms st)" for b
      using that ids [OF that(2)] by (simp add: has_id_def st')
    ultimately show ?thesis using x by (auto simp: st' S(1) split: option.splits)
  qed
qed

text \<open>
  What a call of \<open>_loadProgram\<close> with a new program needs: a terminated source of at least the bytes
  of the hash, an identifier that fits, a block from the allocator that is not in use.
\<close>

definition loadable :: "acorns \<Rightarrow> fresh \<Rightarrow> string \<Rightarrow> char list \<Rightarrow> bool" where
  "loadable st fr s code \<longleftrightarrow> length s < 16 \<and> NUL \<notin> set s \<and> PROG_HASH_LEN \<le> length code \<and>
     NUL \<in> set code \<and> progs st (fr_addr fr) = None"

lemma install_entered:
  assumes wf: "table_wf st" "ids_unique st" and no: "programForId (Some s) st = Inr None"
    and ld: "loadable st fr s code" and i: "free_slot 0 (loadedPrograms st) = Some i"
  obtains v st3 where
    "st3 = log_vm (Compile v (cstr code)) (write_slot (Slot i) (Some (fr_addr fr))
       (set_prog (fr_addr fr) (new_program fr i (rootInterpreter st) v s code onerror onprint wd)
          (if sharedMode st then st else log_vm (NewThread v) st)))"
    "install_program compiles call nz fr code (Some s) synchronous onerror onprint wd env st =
       (if compiles (cstr code) then
          if synchronous then
            andthen (setbusy (fr_addr fr) st3)
              (\<lambda>st4. andthen (runLoaded call nz (fr_addr fr) 1 env st4)
                (\<lambda>(st5, env5). case read_slot (Slot i) st5 of
                     None \<Rightarrow> Inr (st5, env5, 0)
                   | Some b \<Rightarrow> andthen (setfree b st5) (\<lambda>st6. Inr (st6, env5, 0))))
          else andthen (u_makeRequest (fr_addr fr) RunLoaded 1 st3) (\<lambda>st4. Inr (st4, env, 0))
        else andthen (u_closeProgram nz (Some s) env st3) (\<lambda>(st4, env4). Inr (st4, env4, 0)))"
    "table_wf st3" "ids_unique st3" "programForId (Some s) st3 = Inr (Some (fr_addr fr))"
    "progs st3 (fr_addr fr) = Some (new_program fr i (rootInterpreter st) v s code onerror onprint wd)"
    "request_queue st3 = request_queue st" "i < length (loadedPrograms st3)"
    "loadedPrograms st3 ! i = Some (fr_addr fr)"
proof -
  obtain r R where r: "rootInterpreter st = Some r" "progs st r = Some R" "parent R = None" "vm R \<noteq> None"
    by (rule table_wf_root [OF wf(1)])
  then obtain rv where rv: "vm R = Some rv" by auto
  define v where "v = (if sharedMode st then rv else fr_vm fr)"
  define p where "p = new_program fr i (rootInterpreter st) v s code onerror onprint wd"
  define st3 where "st3 = log_vm (Compile v (cstr code)) (write_slot (Slot i) (Some (fr_addr fr))
       (set_prog (fr_addr fr) p (if sharedMode st then st else log_vm (NewThread v) st)))"
  have il: "i < length (loadedPrograms st)" "loadedPrograms st ! i = None" using free_slot_spec(1) [OF i] by simp_all
  have st3: "loadedPrograms st3 = (loadedPrograms st)[i := Some (fr_addr fr)]"
    "rootInterpreter st3 = rootInterpreter st" "progs st3 = (progs st)(fr_addr fr \<mapsto> p)"
    "request_queue st3 = request_queue st"
    by (simp_all add: st3_def)
  have fp: "progs st (fr_addr fr) = None" using ld by (simp add: loadable_def)
  have pid: "cstr (programID p) = s" using ld by (simp add: p_def new_program_def loadable_def store_id_short)
  note W = entered_wf [OF wf il fp no st3(1-3) pid]
  have ps: "vm p \<noteq> None" "parent p = rootInterpreter st" "refcount p \<noteq> 0" by (simp_all add: p_def new_program_def)
  show ?thesis
  proof (rule that [OF st3_def [unfolded p_def]])
    show "install_program compiles call nz fr code (Some s) synchronous onerror onprint wd env st =
       (if compiles (cstr code) then
          if synchronous then
            andthen (setbusy (fr_addr fr) st3)
              (\<lambda>st4. andthen (runLoaded call nz (fr_addr fr) 1 env st4)
                (\<lambda>(st5, env5). case read_slot (Slot i) st5 of
                     None \<Rightarrow> Inr (st5, env5, 0)
                   | Some b \<Rightarrow> andthen (setfree b st5) (\<lambda>st6. Inr (st6, env5, 0))))
          else andthen (u_makeRequest (fr_addr fr) RunLoaded 1 st3) (\<lambda>st4. Inr (st4, env, 0))
        else andthen (u_closeProgram nz (Some s) env st3) (\<lambda>(st4, env4). Inr (st4, env4, 0)))"
      using i r rv ld by (simp add: install_program_def vm_of_def loadable_def Let_def st3_def v_def p_def)
    show "table_wf st3" "ids_unique st3" "programForId (Some s) st3 = Inr (Some (fr_addr fr))"
      using W [OF ps] by blast+
  qed (use st3 il in \<open>simp_all add: p_def\<close>)
qed

lemma wf_set_prog:
  assumes wf: "table_wf st" "ids_unique st" and p: "progs st a = Some p"
    and q: "programID q = programID p" "parent q = parent p" "vm q = vm p" "refcount q \<noteq> 0"
  shows "table_wf (set_prog a q st)" "ids_unique (set_prog a q st)"
    "programForId ident (set_prog a q st) = programForId ident st"
proof -
  show "programForId ident (set_prog a q st) = programForId ident st"
    by (rule programForId_cong) (use p q in simp_all)
  show "ids_unique (set_prog a q st)"
    using wf(2) p q unfolding ids_unique_def by (auto split: if_splits)
  show "table_wf (set_prog a q st)"
    using wf(1) p q unfolding table_wf_def by (auto split: if_splits)
qed

lemma isRunning_hash:
  "programForId ident st = Inr (Some a) \<Longrightarrow> progs st a = Some p \<Longrightarrow> PROG_HASH_LEN \<le> length h \<Longrightarrow>
   hash p = take PROG_HASH_LEN h \<Longrightarrow> isRunning ident (Some h) st = Inr 1"
  by (simp add: isRunning_def)

lemma install_async_ok:
  assumes wf: "table_wf st" "ids_unique st" and no: "programForId (Some s) st = Inr None"
    and ld: "loadable st fr s code" and room: "None \<in> set (loadedPrograms st)"
    and c: "compiles (cstr code)" and q: "length (request_queue st) < QUEUE_LEN"
  obtains st' where "install_program compiles call nz fr code (Some s) False onerror onprint wd env st = Inr (st', env, 0)"
    "table_wf st'" "ids_unique st'" "isRunning (Some s) (Some code) st' = Inr 1"
    "request_queue st' = request_queue st @ [\<lparr>rq_f = RunLoaded, rq_program = fr_addr fr, rq_arg = 1\<rparr>]"
proof -
  obtain i where i: "free_slot 0 (loadedPrograms st) = Some i"
    using room free_slot_spec(2) [of 0 "loadedPrograms st"] by fastforce
  let ?a = "fr_addr fr"
  obtain v st3 where S: "install_program compiles call nz fr code (Some s) False onerror onprint wd env st =
      andthen (u_makeRequest ?a RunLoaded 1 st3) (\<lambda>st4. Inr (st4, env, 0))"
    "table_wf st3" "ids_unique st3" "programForId (Some s) st3 = Inr (Some ?a)"
    "progs st3 ?a = Some (new_program fr i (rootInterpreter st) v s code onerror onprint wd)"
    "request_queue st3 = request_queue st"
    by (rule install_entered [OF wf no ld i, of onerror onprint wd compiles call nz False env]) (use c in simp)
  let ?p = "new_program fr i (rootInterpreter st) v s code onerror onprint wd"
  let ?q = "?p\<lparr>refcount := refcount ?p + 1\<rparr>"
  let ?st4 = "set_prog ?a ?q st3"
  let ?st = "?st4\<lparr>request_queue := request_queue st @ [\<lparr>rq_f = RunLoaded, rq_program = ?a, rq_arg = 1\<rparr>]\<rparr>"
  have W: "table_wf ?st4" "ids_unique ?st4" "programForId (Some s) ?st4 = Inr (Some ?a)"
    using wf_set_prog [OF S(2,3,5), of ?q] S(4) by (simp_all add: new_program_def)
  have "programForId (Some s) ?st = programForId (Some s) ?st4" by (rule programForId_cong) simp_all
  then have "isRunning (Some s) (Some code) ?st = Inr 1"
    using W(3) ld by (intro isRunning_hash [of _ _ ?a ?q]) (simp_all add: new_program_def loadable_def)
  moreover have "table_wf ?st" "ids_unique ?st" using W(1,2) by (simp_all add: table_wf_def ids_unique_def)
  moreover have "u_makeRequest ?a RunLoaded 1 st3 = Inr ?st" using S(5,6) q by (simp add: u_makeRequest_def Let_def)
  ultimately show ?thesis using that S(1) by simp
qed

section \<open>Properties\<close>


text \<open>A process table with the root interpreter and one idle program \<open>a\<close>.\<close>

definition ex_prog :: loadedProgram where
  "ex_prog = \<lparr>slot = Some 0, programID = ''a'' @ replicate 23 NUL, hash = replicate 24 (CHR 0x78),
     workingDir = None, inputBuffer = None, inputBufferLen = 0, busy = 0, vm = Some 12, threadObj = 13,
     parent = Some 1, refcount = 1, callbackRecievers = None, printfunc = None, errorfunc = None\<rparr>"

definition ex_table :: acorns where
  "ex_table = \<lparr>progs = [1 \<mapsto> ex_prog\<lparr>parent := None, vm := Some 11\<rparr>, 2 \<mapsto> ex_prog], rootInterpreter = Some 1,
     loadedPrograms = Some 2 # replicate 7 None, activeProgram = None, sharedMode = False,
     request_queue = [], gen = rng_init, vm_log = []\<rparr>"

definition ex_block :: fresh where
  "ex_block = \<lparr>fr_addr = 3, fr_junk = ex_prog, fr_vm = 14, fr_thread = 15\<rparr>"

definition ex_code :: "char list" where
  "ex_code = replicate 30 (CHR 0x79) @ [NUL]"

lemma ex_table_wf: "table_wf ex_table" "ids_unique ex_table"
  by (auto simp: table_wf_def ids_unique_def ex_table_def ex_prog_def ACORNS_MAXPROGRAMS_def)

lemma ex_loadable: "loadable ex_table ex_block s ex_code \<longleftrightarrow> length s < 16 \<and> NUL \<notin> set s"
  by (simp add: loadable_def ex_table_def ex_block_def ex_code_def PROG_HASH_LEN_def)

lemma ex_table_id: "programForId (Some s) ex_table = Inr (if s = ''a'' then Some 2 else None)"
  by (simp add: programForId_def ex_table_def ex_prog_def prog_at_def numeral_eq_Suc cstr_def)


text \<open>
  C17. \<open>closeProgram\<close> on an idle program returns without waiting and removes exactly this program: its
  identifier is no longer found, every other identifier still finds the same program, its
  interpreter's thread object is released once, and its block is freed, or, while requests for it
  are queued, kept as a zombie without an interpreter.
\<close>

theorem closeProgram_removes_program:
  assumes "table_wf st" "ids_unique st" "programForId (Some s) st = Inr (Some a)"
    and "progs st a = Some p" "busy p = 0"
  shows "\<exists>st' v. closeProgram nz (Some s) False env st = Inr (st', env) \<and> table_wf st' \<and> ids_unique st' \<and>
    programForId (Some s) st' = Inr None \<and>
    (\<forall>s'. s' \<noteq> s \<longrightarrow> programForId (Some s') st' = programForId (Some s') st) \<and>
    vm p = Some v \<and> vm_log st' = vm_log st @ [Release v (threadObj p)] \<and>
    (if refcount p = 1 then progs st' a = None
     else map_option vm (progs st' a) = Some None)"
proof -
  obtain j st' where st': "u_closeProgram nz (Some s) env st = Inr (st', env)"
    "j < length (loadedPrograms st)" "loadedPrograms st ! j = Some a" "closed_state j a p st st'"
    "table_wf st'" "ids_unique st'" "programForId (Some s) st' = Inr None"
    "\<And>s'. s' \<noteq> s \<Longrightarrow> programForId (Some s') st' = programForId (Some s') st"
    by (rule u_closeProgram_ok [OF assms, of nz env]) blast
  have "Some a \<in> set (loadedPrograms st)" using st'(2,3) by (metis nth_mem)
  then obtain v where "vm p = Some v" using table_wfD(2) [OF assms(1), of a] assms(4) by auto
  with st' show ?thesis by (auto simp: closeProgram_def closed_state_def)
qed

theorem closeProgram_removes_program_witness:
  "\<exists>st'. closeProgram (1, 2, 3) (Some ''a'') False [] ex_table = Inr (st', []) \<and>
     programForId (Some ''a'') st' = Inr None \<and> progs st' 2 = None \<and> vm_log st' = [Release 12 13]"
  using closeProgram_removes_program [OF ex_table_wf, of "''a''" 2 ex_prog "(1, 2, 3)" "[]"]
  by (simp add: ex_table_id) (auto simp: ex_table_def ex_prog_def)



lemma last_slash_none: "CHR ''/'' \<notin> set cs \<Longrightarrow> last_slash cs i sl = sl"
  by (induction cs arbitrary: i) auto

lemma last_slash_append: "last_slash (xs @ CHR ''/'' # ys) i sl = last_slash ys (i + length xs + 1) (i + length xs)"
  by (induction xs arbitrary: i sl) auto

lemma file_id_slash: "CHR ''/'' \<notin> set name \<Longrightarrow> file_id (d @ ''/'' @ name) = name"
  by (simp add: file_id_def last_slash_append last_slash_none)

lemma file_id_no_slash: "CHR ''/'' \<notin> set name \<Longrightarrow> file_id name = tl name"
  by (simp add: file_id_def last_slash_none drop_Suc)

lemma file_id_in_dir:
  assumes "CHR ''/'' \<notin> set name" "dir_prefix dir = Inr prefix"
  shows "file_id (prefix @ name) = name"
proof (cases "last dir = CHR ''/''")
  case True
  with assms(2) have "dir \<noteq> []" "prefix = dir" by (auto simp: dir_prefix_def split: if_splits)
  with True have "prefix @ name = butlast dir @ ''/'' @ name" by (metis append.assoc append_butlast_last_id)
  then show ?thesis by (simp only: file_id_slash [OF assms(1)])
next
  case False
  with assms(2) have "prefix @ name = dir @ ''/'' @ name" by (auto simp: dir_prefix_def split: if_splits)
  then show ?thesis by (simp only: file_id_slash [OF assms(1)])
qed

text \<open>
  A program file of a directory is loaded under its own name, whether or not the directory is given
  with a slash at its end: loading the directory of that one file is loading the file's bytes as the
  program of that name. But a file given by a path without a slash is loaded under its name without
  the first character.
\<close>

theorem loadFromDir_uses_file_name:
  assumes "CHR ''/'' \<notin> set name" "dir_prefix dir = Inr prefix" "length (prefix @ name) < 256"
    "dirs dir = Some [(name, nz, fr)]" "files (prefix @ name) = Some contents" "files name = Some contents"
  shows "loadFromDir dirs files junk compiles call dir [] st =
      andthen (loadProgram compiles call nz fr (contents @ [NUL, junk]) (Some name) [] st)
        (\<lambda>(st1, env1, _). Inr (release (snd (release env1 st1)) (fst (release env1 st1)))) \<and>
    loadFromFile files junk compiles call nz fr name [] st =
      andthen (loadProgram compiles call nz fr (contents @ [NUL, junk]) (Some (tl name)) [] st)
        (\<lambda>(st1, env1, _). Inr (release env1 st1))"
  using assms file_id_in_dir [OF assms(1,2)] file_id_no_slash [OF assms(1)]
  by (simp add: loadFromDir_def loadFromFile_def andthen_def split: sum.splits prod.splits)

theorem loadFromDir_uses_file_name_witness:
  "loadFromFile (\<lambda>_. Some ex_code) NUL (\<lambda>_. True) (\<lambda>_ st. (st, True)) (1, 2, 3) ex_block ''blink.nut'' [] ex_table =
     andthen (loadProgram (\<lambda>_. True) (\<lambda>_ st. (st, True)) (1, 2, 3) ex_block (ex_code @ [NUL, NUL])
         (Some ''link.nut'') [] ex_table)
       (\<lambda>(st1, env1, _). Inr (release env1 st1))"
  using loadFromDir_uses_file_name [of "''blink.nut''" "''/spiffs/sqprogs''" "''/spiffs/sqprogs/''"
      "[''/spiffs/sqprogs'' \<mapsto> [(''blink.nut'', (1, 2, 3), ex_block)]]" "(1, 2, 3)" ex_block
      "\<lambda>_. Some ex_code" ex_code NUL "\<lambda>_. True" "\<lambda>_ st. (st, True)" ex_table]
  by (simp add: dir_prefix_def)

section \<open>Paths on which the code leaves its memory\<close>

lemma adjust_busy_log: "adjust_busy d a (log_vm e st) = log_vm e (adjust_busy d a st)"
proof -
  have b: "bump d x (log_vm e st) = log_vm e (bump d x st)" for x st
    by (cases st) (simp add: bump_def log_vm_def fun_eq_iff)
  show ?thesis by (auto simp: adjust_busy_def Let_def b split: option.split)
qed

lemma log_vm_wf [simp]:
  "table_wf (log_vm e st) = table_wf st" "ids_unique (log_vm e st) = ids_unique st"
  "programForId ident (log_vm e st) = programForId ident st"
  "child_of_root (log_vm e st) a = child_of_root st a"
proof -
  show "programForId ident (log_vm e st) = programForId ident st" by (rule programForId_cong) simp_all
qed (simp_all add: table_wf_def ids_unique_def child_of_root_def)

text \<open>
  C36. A program started with \<open>runProgram\<close> whose script ends in an error is closed by \<open>runLoaded\<close>; the
  process table held the only reference, so its block is freed, and the busy mark \<open>runLoaded\<close> then
  sets is a write into freed memory.
\<close>

theorem failing_runProgram_uses_freed_program:
  assumes wf: "table_wf st" "ids_unique st" and no: "programForId (Some s) st = Inr None"
    and ld: "loadable st fr s code" and room: "None \<in> set (loadedPrograms st)" and c: "compiles (cstr code)"
    and fails: "\<And>v st. call v st = (st, False)"
  shows "runProgram compiles call nz fr code (Some s) onerror onprint wd env st = Inl UseAfterFree"
proof -
  let ?a = "fr_addr fr" and ?st = "st\<lparr>gen := reseed nz (gen st)\<rparr>"
  obtain i where i: "free_slot 0 (loadedPrograms ?st) = Some i"
    using room free_slot_spec(2) [of 0 "loadedPrograms st"] by fastforce
  have pre: "table_wf ?st" "ids_unique ?st" "programForId (Some s) ?st = Inr None" "loadable ?st fr s code"
    using wf no ld by (simp_all add: loadable_def)
  obtain v st3 where S: "install_program compiles call nz fr code (Some s) True onerror onprint wd env ?st =
      andthen (setbusy ?a st3)
        (\<lambda>st4. andthen (runLoaded call nz ?a 1 env st4)
          (\<lambda>(st5, env5). case read_slot (Slot i) st5 of
               None \<Rightarrow> Inr (st5, env5, 0)
             | Some b \<Rightarrow> andthen (setfree b st5) (\<lambda>st6. Inr (st6, env5, 0))))"
    "table_wf st3" "ids_unique st3" "programForId (Some s) st3 = Inr (Some ?a)"
    "progs st3 ?a = Some (new_program fr i (rootInterpreter ?st) v s code onerror onprint wd)"
    "i < length (loadedPrograms st3)" "loadedPrograms st3 ! i = Some ?a"
    by (rule install_entered [OF pre i, of onerror onprint wd compiles call nz True env]) (use c in simp)
  let ?p = "new_program fr i (rootInterpreter ?st) v s code onerror onprint wd"
  have "Some ?a \<in> set (loadedPrograms st3)" using S(6,7) by (metis nth_mem)
  then have ch: "child_of_root st3 ?a" using table_child [OF S(2)] by blast
  let ?st4 = "adjust_busy 1 ?a st3" and ?st5 = "log_vm (Call v) st3"
  have vm4: "vm_of ?a ?st4 = Inr v"
    using S(5) by (auto simp: vm_of_def adjust_busy_def bump_def Let_def new_program_def prog_at_def split: option.split)
  have undo: "setfree ?a (log_vm (Call v) ?st4) = Inr ?st5"
    using setbusy_eq(2) [of "log_vm (Call v) ?st4" ?a] ch by (simp add: adjust_busy_log adjust_busy_inverse)
  have pid: "cstr (programID ?p) = s" using ld by (simp add: new_program_def loadable_def store_id_short)
  obtain j st6 where st6: "u_closeProgram nz (Some s) env ?st5 = Inr (st6, env)"
    "closed_state j ?a ?p ?st5 st6"
    by (rule u_closeProgram_ok [of ?st5 s ?a ?p nz env]) (use S in \<open>simp_all add: new_program_def\<close>)
  have "progs st6 ?a = None" using st6(2) by (simp add: closed_state_def new_program_def)
  then have "setbusy ?a st6 = Inl UseAfterFree"
    by (simp add: setbusy_def numeral_2_eq_2 prog_at_None)
  then have "runLoaded call nz ?a 1 env ?st4 = Inl UseAfterFree"
    using vm4 undo S(5) pid st6(1) by (simp add: runLoaded_def fails)
  then have "install_program compiles call nz fr code (Some s) True onerror onprint wd env ?st = Inl UseAfterFree"
    using S(1) setbusy_eq(1) [OF ch] by simp
  then show ?thesis using no by (simp add: runProgram_def u_loadProgram_def Let_def)
qed

theorem failing_runProgram_uses_freed_program_witness:
  "runProgram (\<lambda>_. True) (\<lambda>v st. (st, False)) (1, 2, 3) ex_block ex_code (Some ''b'') None None None [] ex_table =
     Inl UseAfterFree"
proof (rule failing_runProgram_uses_freed_program [OF ex_table_wf])
  show "programForId (Some ''b'') ex_table = Inr None" by (simp add: ex_table_id)
  show "loadable ex_table ex_block ''b'' ex_code" by (simp add: ex_loadable)
  show "None \<in> set (loadedPrograms ex_table)" by (simp add: ex_table_def)
qed simp_all

text \<open>
  Loading the input buffer of a program when that version is already loaded drops the buffer but
  keeps its length. The next append then starts at the old length in a block of the size of the new
  data, and writes past its end.
\<close>

theorem append_after_same_version_overflows:
  assumes wf: "table_wf st" "ids_unique st" and id: "programForId (Some s) st = Inr (Some a)"
    and p: "progs st a = Some p" "inputBuffer p = Some b" "2 < inputBufferLen p"
    and same: "PROG_HASH_LEN \<le> length b" "hash p = take PROG_HASH_LEN b"
    and mem: "length data + 2 \<le> length junk"
  shows "andthen (loadInputBuffer compiles call nz fr (Some s) False env st)
      (\<lambda>(st', env', r). writeToInput junk (Some s) data (int (length data)) (- 1) st') = Inl OutOfBounds"
proof -
  let ?st = "st\<lparr>gen := reseed nz (gen st)\<rparr>"
  let ?p = "p\<lparr>inputBuffer := None\<rparr>" let ?st1 = "set_prog a ?p ?st"
  have load: "loadInputBuffer compiles call nz fr (Some s) False env st = Inr (?st1, env, 0)"
    using id p same by (simp add: loadInputBuffer_def u_loadProgram_def Let_def)
  have "programForId (Some s) ?st1 = programForId (Some s) st"
    by (rule programForId_cong) (use p in simp_all)
  then have id1: "programForId (Some s) ?st1 = Inr (Some a)" using id by simp
  have "copy_into (take (length data + 2) junk) (inputBufferLen p) data (int (length data)) = Inl OutOfBounds"
    using p(3) mem by (simp add: copy_into_def)
  then have "writeToInput junk (Some s) data (int (length data)) (- 1) ?st1 = Inl OutOfBounds"
    using id1 mem by (simp add: writeToInput_def Let_def c_malloc_def nat_add_distrib)
  with load show ?thesis by simp
qed

definition ex_buffered :: acorns where
  "ex_buffered = set_prog 2 (ex_prog\<lparr>inputBuffer := Some (replicate 30 (CHR 0x78)), inputBufferLen := 30\<rparr>) ex_table"

theorem append_after_same_version_overflows_witness:
  "andthen (loadInputBuffer (\<lambda>_. True) (\<lambda>v st. (st, True)) (1, 2, 3) ex_block (Some ''a'') False [] ex_buffered)
      (\<lambda>(st', env', r). writeToInput (replicate 9 NUL) (Some ''a'') ''abc'' (int (length ''abc'')) (- 1) st') = Inl OutOfBounds"
proof (rule append_after_same_version_overflows)
  let ?p = "ex_prog\<lparr>inputBuffer := Some (replicate 30 (CHR 0x78)), inputBufferLen := 30\<rparr>"
  have p2: "progs ex_table 2 = Some ex_prog" by (simp add: ex_table_def)
  have "refcount ?p \<noteq> 0" by (simp add: ex_prog_def)
  note W = wf_set_prog [OF ex_table_wf p2, of ?p]
  show "table_wf ex_buffered" "ids_unique ex_buffered" "programForId (Some ''a'') ex_buffered = Inr (Some 2)"
    unfolding ex_buffered_def using W ex_table_id [of "''a''"] by (simp_all add: ex_prog_def)
  show "progs ex_buffered 2 = Some ?p" by (simp add: ex_buffered_def)
  show "inputBuffer ?p = Some (replicate 30 (CHR 0x78))" "2 < inputBufferLen ?p" by simp_all
  show "PROG_HASH_LEN \<le> length (replicate 30 (CHR 0x78))" by (simp add: PROG_HASH_LEN_def)
  show "hash ?p = take PROG_HASH_LEN (replicate 30 (CHR 0x78))" by (simp add: PROG_HASH_LEN_def ex_prog_def)
qed simp

text \<open>
  A terminator that is written as a last piece of one byte gets no spare byte in the block, so
  that \<open>_runInputBuffer\<close>, which terminates the text itself, writes one byte past the end.
\<close>

theorem run_after_single_byte_overflows:
  assumes "programForId ident st = Inr (Some a)" "progs st a = Some p"
    and "inputBuffer p = None" "inputBufferLen p = 0" "cs \<noteq> []"
    and "length (concat (cs @ [[c]])) + 2 \<le> length junk"
  shows "andthen (write_chunks junk ident (cs @ [[c]]) st) (runInputBuffer compiles call nz a d env) = Inl OutOfBounds"
proof -
  have "buf_ok p" "buffered p = []" using assms(3,4) by (simp_all add: buf_ok_def buffered_def)
  with write_chunks_ok [OF assms(1,2), of "cs @ [[c]]" junk] assms(5,6) obtain st' p' where
    W: "write_chunks junk ident (cs @ [[c]]) st = Inr st'" "progs st' a = Some p'" "inputBuffer p' \<noteq> None" "\<not> has_room p'"
    by (auto simp: butlast_append)
  then show ?thesis by (auto simp: runInputBuffer_def has_room_def)
qed

theorem run_after_single_byte_overflows_witness:
  "andthen (write_chunks (replicate 40 NUL) (Some ''a'') ([''print(1)''] @ [[NUL]]) ex_table)
     (runInputBuffer (\<lambda>_. True) (\<lambda>v st. (st, True)) (0, 0, 0) 2 0 []) = Inl OutOfBounds"
  by (rule run_after_single_byte_overflows [of _ _ _ ex_prog]) (simp add: ex_table_id, simp_all add: ex_table_def ex_prog_def)

end
