(* ===== verification/Repl.thy ===== *)
theory Repl
  imports Programs
begin

text \<open>
  The interactive console (\<open>_Acorns::replChar\<close> of \<open>acorns.cpp\<close>): characters arrive one at a time and
  are collected in a block that grows by doubling, until a newline outside of braces hands the
  text to the compiler. What the console prints and what it runs are events. The lemmas show that
  the pointer stays inside the block, which text reaches the compiler, and on which lines the
  expression form \<open>=expr\<close> leaves the block.
\<close>

section \<open>State\<close>

record repl =
  replbuffer :: "char list option"
  replbuffersize :: int
  replpointer :: int
  instring :: bool
  blocks :: int
  retval :: bool
  esc :: bool
  scratchpadsize :: int

definition repl_init :: "int \<Rightarrow> repl" where
  "repl_init pad =
     \<lparr>replbuffer = None, replbuffersize = 128, replpointer = 0, instring = False, blocks = 0,
      retval = False, esc = False, scratchpadsize = pad\<rparr>"

text \<open>
  \<open>Echo\<close> is \<open>Serial.write\<close> of a character, \<open>More\<close> the prompt inside a block, \<open>Prompt\<close> the prompt for a
  new line; \<open>Run src r\<close> compiles and calls \<open>src\<close>, and prints its value when \<open>r\<close> holds.
\<close>

datatype console = Echo char | More | TooLong | Prompt | Run string bool

section \<open>Operations\<close>

definition GetScratchPad :: "int \<Rightarrow> int \<Rightarrow> int" where
  "GetScratchPad sz pad =
     (if sz > 0 then
        if pad < sz then sz + sz div 2
        else if pad \<ge> sz * 32 then pad div 2
        else pad
      else pad)"

definition poke :: "int \<Rightarrow> char \<Rightarrow> repl \<Rightarrow> repl outcome" where
  "poke i c s =
     (case replbuffer s of
        None \<Rightarrow> Inl NullDeref
      | Some b \<Rightarrow> if i < 0 \<or> int (length b) \<le> i then Inl OutOfBounds
                  else Inr (s\<lparr>replbuffer := Some (b[nat i := c])\<rparr>))"

definition push_char :: "char \<Rightarrow> repl \<Rightarrow> repl outcome" where
  "push_char c s = andthen (poke (replpointer s) c s) (\<lambda>s'. Inr (s'\<lparr>replpointer := replpointer s + 1\<rparr>))"

text \<open>The end of the function, from the label \<open>resetting\<close>.\<close>

definition resetting :: "char list \<Rightarrow> repl \<Rightarrow> (console list \<times> repl) outcome" where
  "resetting junk s =
     (case c_realloc junk (case replbuffer s of None \<Rightarrow> [] | Some b \<Rightarrow> b) 128 of
        None \<Rightarrow> Inl AssertFail
      | Some b \<Rightarrow>
          Inr ([Prompt], s\<lparr>replbuffer := Some b, replbuffersize := 128, replpointer := 0, blocks := 0,
                           instring := False, retval := False\<rparr>))"

text \<open>
  From the label \<open>doing\<close>: \<open>sprintf\<close> writes the wrapped expression into the scratch pad, \<open>memcpy\<close> copies
  it back into the block.
\<close>

definition wrap_expr :: "repl \<Rightarrow> repl outcome" where
  "wrap_expr s =
     (case replbuffer s of
        None \<Rightarrow> Inl NullDeref
      | Some b \<Rightarrow>
          if b ! 0 = CHR ''='' then
            let pad = GetScratchPad 1024 (scratchpadsize s);
                txt = ''return ('' @ cstr (tl b) @ '')'' @ [NUL] in
            if int (length txt) > pad then Inl OutOfBounds
            else andthen (copy_into b 0 txt (int (length txt)))
                   (\<lambda>b'. Inr (s\<lparr>replbuffer := Some b', retval := True, scratchpadsize := pad\<rparr>))
          else Inr s)"

definition doing :: "char list \<Rightarrow> repl \<Rightarrow> (console list \<times> repl) outcome" where
  "doing junk s =
     andthen (poke (replpointer s) NUL s)
       (\<lambda>s1. andthen (wrap_expr s1)
         (\<lambda>s2. let src = (case replbuffer s2 of None \<Rightarrow> [] | Some b \<Rightarrow> cstr b);
                   s3 = s2\<lparr>replpointer := int (length src)\<rparr> in
               andthen (resetting junk s3)
                 (\<lambda>(out, s4). Inr ((if src = [] then [] else [Run src (retval s2)]) @ out, s4))))"

text \<open>The part between a stored character and the return: the block is doubled when it is nearly full.\<close>

definition make_room :: "char list \<Rightarrow> repl \<Rightarrow> (console list \<times> repl) outcome" where
  "make_room junk s =
     (if replpointer s > replbuffersize s - 3 then
        (case c_realloc junk (case replbuffer s of None \<Rightarrow> [] | Some b \<Rightarrow> b) (replbuffersize s * 2) of
           None \<Rightarrow> andthen (resetting junk s) (\<lambda>(out, s'). Inr (TooLong # out, s'))
         | Some x \<Rightarrow> Inr ([], s\<lparr>replbuffer := Some x, replbuffersize := replbuffersize s * 2, esc := False\<rparr>))
      else Inr ([], s\<lparr>esc := False\<rparr>))"

definition last_char :: "repl \<Rightarrow> char outcome" where
  "last_char s =
     (case replbuffer s of
        None \<Rightarrow> Inl NullDeref
      | Some b \<Rightarrow> if replpointer s < 1 \<or> int (length b) < replpointer s then Inl OutOfBounds
                  else Inr (b ! nat (replpointer s - 1)))"

definition newline_char :: "char list \<Rightarrow> repl \<Rightarrow> (console list \<times> repl) outcome" where
  "newline_char junk s =
     andthen (if replpointer s > 0 then andthen (last_char s) (\<lambda>c. Inr (c = CHR 0x5C)) else Inr False)
       (\<lambda>continued.
          if continued then
            andthen (poke (replpointer s - 1) (CHR 0x0A) s)
              (\<lambda>s1. andthen (push_char (CHR 0x0A) s1) (make_room junk))
          else if blocks s = 0 then doing junk s
          else andthen (push_char (CHR 0x0A) s) (make_room junk))"

definition with_buffer :: "char list \<Rightarrow> repl \<Rightarrow> repl" where
  "with_buffer junk s = (if replbuffer s = None then s\<lparr>replbuffer := c_malloc junk 128\<rparr> else s)"

definition replChar :: "char list \<Rightarrow> char \<Rightarrow> repl \<Rightarrow> (console list \<times> repl) outcome" where
  "replChar junk c s0 =
     (let s = with_buffer junk s0;
          echo = (if c = CHR 0x0A then (if blocks s \<noteq> 0 then [More] else []) else [Echo c]) in
      andthen
        (if c = CHR 0x0A then newline_char junk s
         else if c = CHR 0x5C then make_room junk (s\<lparr>esc := True\<rparr>)
         else if instring s \<and> esc s then andthen (push_char c s) (make_room junk)
         else if c = CHR ''}'' \<and> \<not> instring s then
           andthen (push_char c (s\<lparr>blocks := blocks s - 1\<rparr>)) (make_room junk)
         else if c = CHR ''{'' \<and> \<not> instring s then
           andthen (push_char c (s\<lparr>blocks := blocks s + 1\<rparr>)) (make_room junk)
         else if c = CHR 0x22 \<or> c = CHR 0x27 then
           andthen (push_char c (s\<lparr>instring := \<not> instring s\<rparr>)) (make_room junk)
         else if replpointer s \<ge> 1000 - 1 then
           andthen (resetting junk s) (\<lambda>(out, s'). Inr (TooLong # out, s'))
         else andthen (push_char c s) (make_room junk))
        (\<lambda>(out, s'). Inr (echo @ out, s')))"

fun type_chars :: "char list \<Rightarrow> string \<Rightarrow> repl \<Rightarrow> (console list \<times> repl) outcome" where
  "type_chars junk [] s = Inr ([], s)"
| "type_chars junk (c # cs) s =
     andthen (replChar junk c s)
       (\<lambda>(out, s'). andthen (type_chars junk cs s') (\<lambda>(out', s''). Inr (out @ out', s'')))"

section \<open>The collected text\<close>

text \<open>
  \<open>collected t s\<close>: the block holds the text \<open>t\<close>, with room for at least three more bytes, and no
  escape is pending.
\<close>

definition collected :: "string \<Rightarrow> repl \<Rightarrow> bool" where
  "collected t s \<longleftrightarrow>
     replpointer s = int (length t) \<and> replpointer s \<le> replbuffersize s - 3 \<and> 128 \<le> replbuffersize s \<and>
     \<not> esc s \<and> \<not> retval s \<and> CHR 0x5C \<notin> set t \<and>
     (case replbuffer s of
        None \<Rightarrow> t = [] \<and> replbuffersize s = 128
      | Some b \<Rightarrow> int (length b) = replbuffersize s \<and> take (length t) b = t)"

lemma collectedD:
  assumes "collected t s" "replbuffer s = Some b"
  shows "replpointer s = int (length t)" "int (length b) = replbuffersize s" "take (length t) b = t"
    "length t + 3 \<le> length b" "\<not> esc s" "\<not> retval s" "128 \<le> length b"
  using assms by (auto simp: collected_def)

lemma c_realloc_ok:
  "0 \<le> n \<Longrightarrow> n \<le> int (length junk) \<Longrightarrow>
     c_realloc junk b n = Some (take (nat n) (b @ drop (length b) (take (nat n) junk)))"
  by (auto simp: c_realloc_def c_malloc_def min.absorb2 nat_le_iff)

lemma c_realloc_None: "int (length junk) < n \<Longrightarrow> c_realloc junk b n = None"
  by (simp add: c_realloc_def c_malloc_def)

lemma resetting_ok:
  assumes "128 \<le> length junk"
  shows "\<exists>s'. resetting junk s = Inr ([Prompt], s') \<and> replbuffer s' \<noteq> None \<and> instring s' = False \<and> blocks s' = 0 \<and>
    scratchpadsize s' = scratchpadsize s \<and> (\<not> esc s \<longrightarrow> collected [] s')"
  using assms by (auto simp: resetting_def c_realloc_ok collected_def min_def)

lemma push_char_ok:
  assumes "collected t s" "replbuffer s = Some b"
  shows "push_char c s = Inr (s\<lparr>replbuffer := Some (b[length t := c]), replpointer := int (length t) + 1\<rparr>)"
  using collectedD [OF assms] assms(2) by (simp add: push_char_def poke_def)

lemma store_char:
  assumes ok: "collected t s" "replbuffer s = Some b" and c: "c \<noteq> CHR 0x5C" and mem: "2 * length b \<le> length junk"
  shows "\<exists>s'. andthen (push_char c s) (make_room junk) = Inr ([], s') \<and> collected (t @ [c]) s' \<and>
    replbuffer s' \<noteq> None \<and> replbuffersize s' \<le> max (replbuffersize s) (2 * int (length t) + 6) \<and>
    (int (length t) + 4 \<le> replbuffersize s \<longrightarrow> replbuffersize s' = replbuffersize s) \<and>
    instring s' = instring s \<and> blocks s' = blocks s \<and> scratchpadsize s' = scratchpadsize s"
proof -
  note d = collectedD [OF ok]
  let ?b = "b[length t := c]"
  have tk: "take (Suc (length t)) ?b = t @ [c]"
    using d(3,4) by (simp add: take_Suc_conv_app_nth take_update_cancel)
  have bs: "CHR 0x5C \<notin> set (t @ [c])" using ok(1) c by (auto simp: collected_def)
  show ?thesis
  proof (cases "int (length t) + 1 > replbuffersize s - 3")
    case True
    then have len: "length b = length t + 3" using d by linarith
    define x where "x = take (2 * length b) (?b @ drop (length b) (take (2 * length b) junk))"
    have x: "c_realloc junk ?b (replbuffersize s * 2) = Some x" "length x = 2 * length b"
      using mem by (auto simp: d(2) [symmetric] x_def c_realloc_ok nat_mult_distrib mult.commute)
    have "take (Suc (length t)) x = take (Suc (length t)) ?b" using len by (simp add: x_def)
    then show ?thesis using True x d bs tk len ok
      by (simp add: push_char_ok [OF ok] make_room_def collected_def)
  next
    case False
    then show ?thesis using d bs tk ok by (auto simp: push_char_ok [OF ok] make_room_def collected_def)
  qed
qed

lemma backslash_dropped:
  assumes "collected t s" "replbuffer s = Some b"
  shows "make_room junk (s\<lparr>esc := True\<rparr>) = Inr ([], s)"
  using collectedD [OF assms] by (simp add: make_room_def)

lemma last_stored:
  assumes ok: "collected t s" "replbuffer s = Some b" and "t \<noteq> []"
  shows "last_char s = Inr (last t)" "last t \<noteq> CHR 0x5C"
proof -
  note d = collectedD [OF ok]
  have l: "b ! (length t - 1) = last t"
    using d(3,4) \<open>t \<noteq> []\<close> by (metis diff_less last_conv_nth length_greater_0_conv nth_take zero_less_one)
  show "last_char s = Inr (last t)" using d \<open>t \<noteq> []\<close> l ok(2) by (cases t) (auto simp: last_char_def)
  have "CHR 0x5C \<notin> set t" using ok(1) by (simp add: collected_def)
  with last_in_set [OF \<open>t \<noteq> []\<close>] show "last t \<noteq> CHR 0x5C" by metis
qed

text \<open>What the characters mean for the console: whether a string is open, and the depth of braces.\<close>

definition scan_char :: "char \<Rightarrow> bool \<times> int \<Rightarrow> bool \<times> int" where
  "scan_char c qn =
     (let (q, n) = qn in
      if c = CHR ''}'' \<and> \<not> q then (q, n - 1)
      else if c = CHR ''{'' \<and> \<not> q then (q, n + 1)
      else if c = CHR 0x22 \<or> c = CHR 0x27 then (\<not> q, n)
      else (q, n))"

text \<open>\<open>scan txt (q, n)\<close> is \<open>None\<close> when a newline of the text ends the input.\<close>

fun scan :: "string \<Rightarrow> bool \<times> int \<Rightarrow> (bool \<times> int) option" where
  "scan [] qn = Some qn"
| "scan (c # cs) qn =
     (if c = CHR 0x0A \<and> snd qn = 0 then None else scan cs (scan_char c qn))"

lemma with_buffer_Some [simp]: "replbuffer s = Some b \<Longrightarrow> with_buffer junk s = s"
  by (simp add: with_buffer_def)

lemma with_buffer_twice [simp]: "with_buffer junk (with_buffer junk s) = with_buffer junk s"
  by (auto simp: with_buffer_def)

lemma replChar_with_buffer: "replChar junk c (with_buffer junk s) = replChar junk c s"
  unfolding replChar_def with_buffer_twice ..

lemma replChar_stores:
  assumes ok: "collected t s" "replbuffer s = Some b" and mem: "2 * length b \<le> length junk"
    and c: "c = CHR 0x0A \<longrightarrow> blocks s \<noteq> 0" "length t < 999"
  shows "\<exists>out s'. replChar junk c s = Inr (out, s') \<and> (\<forall>src r. Run src r \<notin> set out) \<and>
    collected (t @ filter (\<lambda>c. c \<noteq> CHR 0x5C) [c]) s' \<and> replbuffer s' \<noteq> None \<and>
    replbuffersize s' \<le> max (replbuffersize s) (2 * int (length t) + 6) \<and>
    (int (length t) + 4 \<le> replbuffersize s \<longrightarrow> replbuffersize s' = replbuffersize s) \<and>
    (instring s', blocks s') = scan_char c (instring s, blocks s) \<and> scratchpadsize s' = scratchpadsize s"
proof -
  note d = collectedD [OF ok]
  have upd: "collected t (s\<lparr>instring := q, blocks := n\<rparr>)" for q n
    using ok by (simp add: collected_def)
  have st: "\<exists>s'. andthen (push_char c (s\<lparr>instring := q, blocks := n\<rparr>)) (make_room junk) = Inr ([], s') \<and>
      collected (t @ [c]) s' \<and> replbuffer s' \<noteq> None \<and>
      replbuffersize s' \<le> max (replbuffersize s) (2 * int (length t) + 6) \<and>
    (int (length t) + 4 \<le> replbuffersize s \<longrightarrow> replbuffersize s' = replbuffersize s) \<and>
      instring s' = q \<and> blocks s' = n \<and> scratchpadsize s' = scratchpadsize s" if "c \<noteq> CHR 0x5C" for q n
    using store_char [OF upd [of n q], of b c junk] ok(2) mem that by simp
  have same: "s\<lparr>instring := instring s, blocks := n\<rparr> = s\<lparr>blocks := n\<rparr>"
    "s\<lparr>instring := q, blocks := blocks s\<rparr> = s\<lparr>instring := q\<rparr>"
    "s\<lparr>instring := instring s, blocks := blocks s\<rparr> = s"
    "\<not> instring s \<Longrightarrow> s\<lparr>instring := False, blocks := n\<rparr> = s\<lparr>blocks := n\<rparr>" for q n by (cases s; simp)+
  note last = last_stored [OF ok]
  have d1: "replpointer s = int (length t)" by (rule d(1))
  consider "c = CHR 0x0A" | "c = CHR 0x5C" | "c \<noteq> CHR 0x0A" "c \<noteq> CHR 0x5C" by blast
  then show ?thesis
  proof cases
    case 1
    have "newline_char junk s = andthen (push_char c s) (make_room junk)"
      using c 1 last d1 by (cases "t = []") (simp_all add: newline_char_def)
    with st [of "blocks s" "instring s"] 1 ok(2) c show ?thesis by (auto simp: replChar_def scan_char_def Let_def)
  next
    case 2
    with ok show ?thesis by (simp add: replChar_def scan_char_def backslash_dropped [OF ok])
  next
    case 3
    let ?q = "fst (scan_char c (instring s, blocks s))" and ?n = "snd (scan_char c (instring s, blocks s))"
    have "replChar junk c s = andthen (andthen (push_char c (s\<lparr>instring := ?q, blocks := ?n\<rparr>)) (make_room junk))
        (\<lambda>(out, s'). Inr (Echo c # out, s'))"
      using 3 c(2) d(5) d1 ok(2) by (simp add: replChar_def scan_char_def same)
    with st [OF 3(2), of ?n ?q] 3 show ?thesis by (auto simp: prod_eq_iff)
  qed
qed

lemma collected_with_buffer:
  assumes "collected t s" "128 \<le> length junk"
  obtains b where "replbuffer (with_buffer junk s) = Some b" "collected t (with_buffer junk s)"
    "instring (with_buffer junk s) = instring s" "blocks (with_buffer junk s) = blocks s"
    "replbuffersize (with_buffer junk s) = replbuffersize s" "scratchpadsize (with_buffer junk s) = scratchpadsize s"
  using assms by (cases "replbuffer s") (auto simp: with_buffer_def c_malloc_def collected_def)

definition drop_backslashes :: "string \<Rightarrow> string" where
  "drop_backslashes = filter (\<lambda>c. c \<noteq> CHR 0x5C)"

lemma type_chars_collects:
  assumes "collected t s" "replbuffersize s \<le> 2010" "length t + length cs \<le> 999" "4096 \<le> length junk"
    and "scan cs (instring s, blocks s) = Some qn"
  shows "\<exists>out s'. type_chars junk cs s = Inr (out, s') \<and> (\<forall>src r. Run src r \<notin> set out) \<and>
    collected (t @ drop_backslashes cs) s' \<and> replbuffersize s' \<le> 2010 \<and>
    (int (length t + length cs) + 3 \<le> replbuffersize s \<longrightarrow> replbuffersize s' = replbuffersize s) \<and> (instring s', blocks s') = qn \<and>
    scratchpadsize s' = scratchpadsize s"
  using assms
proof (induction cs arbitrary: t s)
  case Nil
  then show ?case by (auto simp: drop_backslashes_def)
next
  case (Cons c cs)
  obtain b where b: "replbuffer (with_buffer junk s) = Some b" "collected t (with_buffer junk s)"
    and f: "instring (with_buffer junk s) = instring s" "blocks (with_buffer junk s) = blocks s"
      "replbuffersize (with_buffer junk s) = replbuffersize s" "scratchpadsize (with_buffer junk s) = scratchpadsize s"
    using collected_with_buffer [OF Cons.prems(1), of junk] Cons.prems(4) by auto
  have "2 * length b \<le> length junk"
    using collectedD(2) [OF b(2,1)] f(3) Cons.prems(2,4) by simp
  moreover have "c = CHR 0x0A \<longrightarrow> blocks s \<noteq> 0" using Cons.prems(5) by (auto split: if_splits)
  ultimately obtain out s' where s': "replChar junk c s = Inr (out, s')" "\<forall>src r. Run src r \<notin> set out"
      "collected (t @ filter (\<lambda>c. c \<noteq> CHR 0x5C) [c]) s'" "replbuffersize s' \<le> max (replbuffersize s) (2 * int (length t) + 6)"
      "int (length t) + 4 \<le> replbuffersize s \<longrightarrow> replbuffersize s' = replbuffersize s"
      "(instring s', blocks s') = scan_char c (instring s, blocks s)" "scratchpadsize s' = scratchpadsize s"
    using replChar_stores [OF b(2,1), of junk c] Cons.prems(3) unfolding f replChar_with_buffer by auto
  let ?t = "t @ filter (\<lambda>c. c \<noteq> CHR 0x5C) [c]"
  have "\<exists>out s''. type_chars junk cs s' = Inr (out, s'') \<and> (\<forall>src r. Run src r \<notin> set out) \<and>
    collected (?t @ drop_backslashes cs) s'' \<and> replbuffersize s'' \<le> 2010 \<and>
    (int (length ?t + length cs) + 3 \<le> replbuffersize s' \<longrightarrow> replbuffersize s'' = replbuffersize s') \<and> (instring s'', blocks s'') = qn \<and>
    scratchpadsize s'' = scratchpadsize s'"
    using s'(3,4) Cons.prems by (intro Cons.IH) (auto simp: s'(6) split: if_splits)
  with s'(1,2,5,7) show ?case by (auto simp: drop_backslashes_def split: if_splits)
qed

text \<open>What the console makes of a complete text: an expression after \<open>=\<close> is wrapped into a return.\<close>

definition repl_source :: "string \<Rightarrow> string" where
  "repl_source t = (if t \<noteq> [] \<and> hd t = CHR ''='' then ''return ('' @ tl t @ '')'' else t)"

lemma GetScratchPad_1024: "1024 \<le> GetScratchPad 1024 pad"
  by (simp add: GetScratchPad_def) presburger

lemma cstr_Cons: "cstr (c # cs) = (if c = NUL then [] else c # cstr cs)"
  by (simp add: cstr_def)

lemma cstr_append: "NUL \<notin> set w \<Longrightarrow> cstr (w @ rest) = w @ cstr rest"
  by (induction w) (auto simp: cstr_def)

lemma tl_cstr_no_NUL: "NUL \<notin> set (tl (cstr t))"
  by (metis cstr_no_NUL list.set_sel(2) tl_Nil)

lemma cstr_append_cut: "cstr (t @ NUL # rest) = cstr t"
  by (induction t) (auto simp: cstr_def)

lemma cstr_block:
  assumes "length t < length b" "take (length t) b = t"
  shows "cstr (b[length t := NUL]) = cstr t"
proof -
  have "b[length t := NUL] = t @ NUL # drop (Suc (length t)) b"
    using assms by (metis upd_conv_take_nth_drop)
  then show ?thesis by (simp add: cstr_append_cut)
qed

text \<open>The end of a line: which text is run, and which expressions do not fit once they are wrapped.\<close>

definition expr_fits :: "string \<Rightarrow> repl \<Rightarrow> bool" where
  "expr_fits t s \<longleftrightarrow> hd t = CHR ''='' \<longrightarrow>
     int (length (repl_source t)) < replbuffersize s \<and> int (length (repl_source t)) < GetScratchPad 1024 (scratchpadsize s)"

lemma wrap_expr_ok:
  assumes ok: "collected t s" "replbuffer s = Some b"
  defines "s1 \<equiv> s\<lparr>replbuffer := Some (b[length t := NUL])\<rparr>"
  shows "cstr t \<noteq> [] \<and> \<not> expr_fits (cstr t) s \<Longrightarrow> wrap_expr s1 = Inl OutOfBounds"
    "cstr t = [] \<or> expr_fits (cstr t) s \<Longrightarrow> \<exists>s2 b2. wrap_expr s1 = Inr s2 \<and> replbuffer s2 = Some b2 \<and> cstr b2 = repl_source (cstr t) \<and>
       retval s2 = (cstr t \<noteq> [] \<and> hd t = CHR ''='') \<and> esc s2 = esc s"
proof -
  note d = collectedD [OF ok]
  let ?b = "b[length t := NUL]"
  have c: "cstr ?b = cstr t" using d by (intro cstr_block) auto
  have ne: "?b \<noteq> []" using d(7) by (metis list.size(3) list_update_nonempty not_numeral_le_zero)
  then obtain x xs where b: "?b = x # xs" by (cases ?b) auto
  have lb: "length b = Suc (length xs)" using arg_cong [OF b, of length] by simp
  have hd: "cstr t \<noteq> [] \<Longrightarrow> hd (cstr t) = x \<and> hd t = x \<and> cstr xs = tl (cstr t) \<and> x \<noteq> NUL"
    "cstr t = [] \<Longrightarrow> x = NUL"
    using c d(3,4) unfolding b by (cases t; auto simp: cstr_def split: if_splits)+
  show "wrap_expr s1 = Inl OutOfBounds" if "cstr t \<noteq> [] \<and> \<not> expr_fits (cstr t) s"
    using that hd b d(2) lb
    by (auto simp: wrap_expr_def s1_def expr_fits_def repl_source_def copy_into_def Let_def)
  show "\<exists>s2 b2. wrap_expr s1 = Inr s2 \<and> replbuffer s2 = Some b2 \<and> cstr b2 = repl_source (cstr t) \<and>
       retval s2 = (cstr t \<noteq> [] \<and> hd t = CHR ''='') \<and> esc s2 = esc s" if "cstr t = [] \<or> expr_fits (cstr t) s"
  proof (cases "cstr t \<noteq> [] \<and> x = CHR ''=''")
    case True
    then show ?thesis using that hd b d(2) lb
      by (auto simp: cstr_Cons cstr_append [OF tl_cstr_no_NUL] wrap_expr_def s1_def expr_fits_def repl_source_def copy_into_def Let_def)
  next
    case False
    then show ?thesis using hd b d(2,5,6) c lb
      by (auto simp: wrap_expr_def s1_def repl_source_def)
  qed
qed

definition runnable :: "string \<Rightarrow> repl \<Rightarrow> bool" where
  "runnable t s \<longleftrightarrow> cstr t = [] \<or> expr_fits (cstr t) s"

definition run_event :: "string \<Rightarrow> console list" where
  "run_event t = (if t = [] then [] else [Run (repl_source t) (hd t = CHR ''='')])"

lemma doing_ok:
  assumes ok: "collected t s" "replbuffer s = Some b" and mem: "128 \<le> length junk"
  shows "\<not> runnable t s \<Longrightarrow> doing junk s = Inl OutOfBounds"
    "runnable t s \<Longrightarrow> \<exists>s'. doing junk s = Inr (run_event (cstr t) @ [Prompt], s') \<and> collected [] s' \<and>
       instring s' = False \<and> blocks s' = 0"
proof -
  note d = collectedD [OF ok]
  let ?s1 = "s\<lparr>replbuffer := Some (b[length t := NUL])\<rparr>"
  have p: "poke (replpointer s) NUL s = Inr ?s1" using d ok(2) by (simp add: poke_def)
  have hd: "cstr t \<noteq> [] \<Longrightarrow> hd (cstr t) = hd t" by (cases t) (auto simp: cstr_def split: if_splits)
  show "doing junk s = Inl OutOfBounds" if "\<not> runnable t s"
    using wrap_expr_ok(1) [OF ok] that by (simp add: doing_def p runnable_def)
  assume r: "runnable t s"
  then obtain s2 b2 where w: "wrap_expr ?s1 = Inr s2" "replbuffer s2 = Some b2" "cstr b2 = repl_source (cstr t)"
      "retval s2 = (cstr t \<noteq> [] \<and> hd t = CHR ''='')" "esc s2 = esc s"
    using wrap_expr_ok(2) [OF ok] by (auto simp: runnable_def)
  let ?s3 = "s2\<lparr>replpointer := int (length (repl_source (cstr t)))\<rparr>"
  obtain s4 where "resetting junk ?s3 = Inr ([Prompt], s4)" "collected [] s4" "instring s4 = False" "blocks s4 = 0"
    using resetting_ok [OF mem, of ?s3] w(5) d(5) by auto
  moreover have "repl_source (cstr t) = [] \<longleftrightarrow> cstr t = []" by (simp add: repl_source_def)
  ultimately show "\<exists>s'. doing junk s = Inr (run_event (cstr t) @ [Prompt], s') \<and> collected [] s' \<and>
       instring s' = False \<and> blocks s' = 0"
    using w hd by (simp add: doing_def p run_event_def)
qed

lemma end_of_line:
  assumes ok: "collected t s" and mem: "128 \<le> length junk" and n: "blocks s = 0"
  shows "\<not> runnable t s \<Longrightarrow> replChar junk (CHR 0x0A) s = Inl OutOfBounds"
    "runnable t s \<Longrightarrow> \<exists>s'. replChar junk (CHR 0x0A) s = Inr (run_event (cstr t) @ [Prompt], s') \<and> collected [] s' \<and>
       instring s' = False \<and> blocks s' = 0"
proof -
  obtain b where b: "replbuffer (with_buffer junk s) = Some b" "collected t (with_buffer junk s)"
    and f: "blocks (with_buffer junk s) = blocks s" "replbuffersize (with_buffer junk s) = replbuffersize s"
      "scratchpadsize (with_buffer junk s) = scratchpadsize s"
    using collected_with_buffer [OF ok mem] by auto
  have r: "runnable t (with_buffer junk s) = runnable t s" by (simp add: runnable_def expr_fits_def f)
  note D = doing_ok [OF b(2,1) mem, unfolded r]
  have "newline_char junk (with_buffer junk s) = doing junk (with_buffer junk s)"
    using last_stored [OF b(2,1)] collectedD(1) [OF b(2,1)] n f(1) by (cases "t = []") (simp_all add: newline_char_def)
  then have *: "replChar junk (CHR 0x0A) s = andthen (doing junk (with_buffer junk s)) Inr"
    unfolding replChar_def Let_def using n f(1) by (simp add: case_prod_beta)
  show "\<not> runnable t s \<Longrightarrow> replChar junk (CHR 0x0A) s = Inl OutOfBounds" using D(1) * by simp
  show "runnable t s \<Longrightarrow> \<exists>s'. replChar junk (CHR 0x0A) s = Inr (run_event (cstr t) @ [Prompt], s') \<and> collected [] s' \<and>
       instring s' = False \<and> blocks s' = 0" using D(2) * by auto
qed

text \<open>\<open>stays m\<close>: the step returns, with the console in order.\<close>

definition stays :: "(console list \<times> repl) outcome \<Rightarrow> bool" where
  "stays m \<longleftrightarrow> (\<exists>out s' t'. m = Inr (out, s') \<and> collected t' s')"

lemma stays_if: "(P \<Longrightarrow> stays m) \<Longrightarrow> (\<not> P \<Longrightarrow> stays m') \<Longrightarrow> stays (if P then m else m')"
  by simp

lemma stays_then: "stays m \<Longrightarrow> stays (andthen m (\<lambda>(out, s'). Inr (e @ out, s')))"
  by (auto simp: stays_def)

lemma stays_too_long:
  "128 \<le> length junk \<Longrightarrow> \<not> esc s \<Longrightarrow> stays (andthen (resetting junk s) (\<lambda>(out, s'). Inr (TooLong # out, s')))"
  using resetting_ok [of junk s] by (auto simp: stays_def)

lemma store_char_any:
  assumes ok: "collected t s" "replbuffer s = Some b" and c: "c \<noteq> CHR 0x5C" and mem: "128 \<le> length junk"
  shows "stays (andthen (push_char c s) (make_room junk))"
proof (cases "2 * length b \<le> length junk \<or> int (length t) + 4 \<le> replbuffersize s")
  case False
  let ?s = "s\<lparr>replbuffer := Some (b[length t := c]), replpointer := int (length t) + 1\<rparr>"
  note d = collectedD [OF ok]
  have "c_realloc junk (b[length t := c]) (replbuffersize s * 2) = None"
    using False d(2) by (intro c_realloc_None) linarith
  moreover obtain s' where "resetting junk ?s = Inr ([Prompt], s')" "collected [] s'"
    using resetting_ok [OF mem, of ?s] d(5) by auto
  ultimately show ?thesis using False by (auto simp: stays_def push_char_ok [OF ok] make_room_def)
next
  case True
  moreover have "andthen (push_char c s) (make_room junk) = andthen (push_char c s) (make_room (replicate (2 * length b) NUL))"
    if "int (length t) + 4 \<le> replbuffersize s"
    using that by (simp add: push_char_ok [OF ok] make_room_def)
  moreover have "2 * length b \<le> length j \<Longrightarrow> stays (andthen (push_char c s) (make_room j))" for j
    using store_char [OF ok c, of j] unfolding stays_def by blast
  ultimately show ?thesis by (metis length_replicate order_refl)
qed

fun is_run :: "console \<Rightarrow> bool" where
  "is_run (Run _ _) = True"
| "is_run _ = False"

lemma no_runs: "\<forall>src r. Run src r \<notin> set out \<Longrightarrow> filter is_run out = []"
  by (auto simp: filter_empty_conv elim: is_run.elims)

lemma type_chars_append:
  "type_chars junk (cs @ ds) s =
     andthen (type_chars junk cs s)
       (\<lambda>(out, s'). andthen (type_chars junk ds s') (\<lambda>(out', s''). Inr (out @ out', s'')))"
  by (induction cs arbitrary: s) (auto simp: andthen_def split: sum.splits prod.splits)

lemma collected_init: "collected [] (repl_init pad)"
  by (simp add: collected_def repl_init_def)

section \<open>Properties\<close>

text \<open>
  C16. The console hands over what was typed. After any text of at most 999 characters whose newlines
  all lie inside braces and whose braces are balanced at its end, one more newline runs exactly
  this text, once, except that every backslash has been dropped; a text that starts with \<open>=\<close> and
  has at most 119 characters left is run as \<open>return (...)\<close> and its value is printed. Afterwards the
  console is ready for the next text.
\<close>

theorem repl_runs_typed_text:
  assumes "scan cs (False, 0) = Some (q, 0)" "length cs \<le> 999" "4096 \<le> length junk"
    and "drop_backslashes cs \<noteq> []" "hd (drop_backslashes cs) = CHR ''='' \<longrightarrow> length (drop_backslashes cs) \<le> 119"
    and "NUL \<notin> set cs"
  shows "\<exists>out s'. type_chars junk (cs @ [CHR 0x0A]) (repl_init pad) = Inr (out, s') \<and>
    filter is_run out = [Run (repl_source (drop_backslashes cs)) (hd (drop_backslashes cs) = CHR ''='')] \<and>
    collected [] s' \<and> \<not> instring s' \<and> blocks s' = 0"
proof -
  let ?t = "drop_backslashes cs"
  obtain out s where s: "type_chars junk cs (repl_init pad) = Inr (out, s)" "filter is_run out = []" "collected ?t s" "blocks s = 0"
    using type_chars_collects [OF collected_init [of pad], of cs junk "(q, 0)"] assms(1-3)
    by (auto simp: repl_init_def no_runs)
  have c: "cstr ?t = ?t" using assms(6) by (intro cstr_id) (auto simp: drop_backslashes_def)
  have "runnable ?t s"
    using assms(4,5) s(3) GetScratchPad_1024 [of "scratchpadsize s"]
    by (auto simp: runnable_def c expr_fits_def repl_source_def collected_def)
  then obtain s' where "replChar junk (CHR 0x0A) s = Inr (run_event ?t @ [Prompt], s')" "collected [] s'" "\<not> instring s'" "blocks s' = 0"
    using end_of_line(2) [OF s(3), of junk] s(4) assms(3) c by auto
  with s(1,2) assms(4) show ?thesis by (simp add: type_chars_append run_event_def)
qed

theorem repl_runs_typed_text_witness:
  "\<exists>out s'. type_chars (replicate 4096 NUL) ''=1+2\<newline>'' (repl_init 0) = Inr (out, s') \<and>
     filter is_run out = [Run ''return (1+2)'' True]"
  using repl_runs_typed_text [of "''=1+2''" False "replicate 4096 NUL" 0]
  by (auto simp: scan_char_def drop_backslashes_def repl_source_def)

text \<open>
  C26. Whatever is typed, and whether or not the block can be doubled when it is nearly full, every
  character keeps the pointer at least three bytes before the end of the block and touches nothing
  outside of it, except for the newline that ends an expression too long to be wrapped.
\<close>

theorem replChar_stays_in_block:
  assumes ok: "collected t s" and mem: "128 \<le> length junk" and r: "c = CHR 0x0A \<and> blocks s = 0 \<longrightarrow> runnable t s"
  shows "\<exists>out s' t'. replChar junk c s = Inr (out, s') \<and> collected t' s'"
proof -
  obtain b where b: "replbuffer (with_buffer junk s) = Some b" "collected t (with_buffer junk s)" "blocks (with_buffer junk s) = blocks s"
    using collected_with_buffer [OF ok mem] by auto
  let ?s = "with_buffer junk s"
  have upd: "collected t (?s\<lparr>instring := q\<rparr>)" "collected t (?s\<lparr>blocks := n\<rparr>)" for q n
    using b(1,2) by (simp_all add: collected_def)
  have esc: "\<not> esc ?s" by (rule collectedD(5) [OF b(2,1)])
  show ?thesis
  proof (cases "c = CHR 0x0A \<and> blocks s = 0")
    case True
    then show ?thesis using end_of_line(2) [OF ok mem] r by blast
  next
    case False
    have "newline_char junk ?s = andthen (push_char c ?s) (make_room junk)" if "c = CHR 0x0A"
      using that False b(3) last_stored [OF b(2,1)] collectedD(1) [OF b(2,1)]
      by (cases "t = []") (simp_all add: newline_char_def)
    moreover have "stays (make_room junk (?s\<lparr>esc := True\<rparr>))"
      using backslash_dropped [OF b(2,1)] b(2) by (auto simp: stays_def)
    ultimately have "stays (replChar junk c s)" unfolding replChar_def Let_def
      by (intro stays_then stays_if)
        (simp_all add: store_char_any [OF b(2,1) _ mem] store_char_any [OF upd(1) _ _ mem]
          store_char_any [OF upd(2) _ _ mem] stays_too_long [OF mem esc] b(1))
    then show ?thesis by (simp add: stays_def)
  qed
qed

text \<open>
  An expression line of 120 to 125 plain characters, which fits the block of 128 bytes, is written
  past the end of the block when it is wrapped into \<open>return (...)\<close>.
\<close>

theorem repl_expression_overflows:
  assumes "120 \<le> length cs" "length cs \<le> 125" "hd cs = CHR ''=''" "4096 \<le> length junk"
    and "scan cs (False, 0) = Some (q, 0)" "CHR 0x5C \<notin> set cs" "NUL \<notin> set cs"
  shows "type_chars junk (cs @ [CHR 0x0A]) (repl_init pad) = Inl OutOfBounds"
proof -
  have t: "drop_backslashes cs = cs" using assms(6) by (auto simp: drop_backslashes_def filter_id_conv)
  obtain out s where s: "type_chars junk cs (repl_init pad) = Inr (out, s)" "collected cs s" "blocks s = 0" "replbuffersize s = 128"
    using type_chars_collects [OF collected_init [of pad], of cs junk "(q, 0)"] assms t
    by (auto simp: repl_init_def)
  have "\<not> runnable cs s" using assms s(4) by (cases cs) (auto simp: runnable_def expr_fits_def repl_source_def)
  then have "replChar junk (CHR 0x0A) s = Inl OutOfBounds"
    using end_of_line(1) [OF s(2), of junk] s(3) assms(4) by simp
  with s(1) show ?thesis by (simp add: type_chars_append)
qed

lemma scan_plain: "(\<forall>c\<in>set cs. c \<notin> {CHR 0x0A, CHR ''{'', CHR ''}'', CHR 0x22, CHR 0x27}) \<Longrightarrow> scan cs qn = Some qn"
  by (induction cs) (auto simp: scan_char_def split: prod.splits)

theorem repl_expression_overflows_witness:
  "type_chars (replicate 4096 NUL) (CHR ''='' # replicate 121 (CHR ''1'') @ [CHR 0x0A]) (repl_init 0) = Inl OutOfBounds"
  using repl_expression_overflows [of "CHR ''='' # replicate 121 (CHR ''1'')" "replicate 4096 NUL" False 0]
  by (simp add: scan_char_def scan_plain)

theorem replChar_stays_in_block_witness:
  "\<exists>out s' t'. replChar (replicate 128 NUL) (CHR ''x'') (repl_init 0) = Inr (out, s') \<and> collected t' s'"
  using replChar_stays_in_block [OF collected_init [of 0], of "replicate 128 NUL" "CHR ''x''"] by simp

end
