(* ===== verification/IniFile.thy ===== *)
theory IniFile
  imports Prelude
begin

text \<open>
  The reader and writer of INI files (\<open>utility/minIni.cpp\<close> over the stdio glue of
  \<open>utility/minGlue-stdio.h\<close>). A file is the list of its bytes; an open read handle is the list of
  the bytes that are still to be read, so that \<open>ini_tell\<close> and \<open>ini_seek\<close> save and restore it. A buffer
  is the C string it holds. The line terminator is the one of a target that is no desktop system,
  a carriage return and a newline; plain \<open>char\<close> is unsigned.
\<close>

section \<open>Characters and C strings\<close>

definition INI_BUFFERSIZE :: nat where
  "INI_BUFFERSIZE = 512"

definition INI_LINETERM :: string where
  "INI_LINETERM = [CHR 0x0D, CHR 0x0A]"

definition blank :: "char \<Rightarrow> bool" where
  "blank c \<longleftrightarrow> 0 < (of_char c :: nat) \<and> (of_char c :: nat) \<le> 32"

definition lower :: "char \<Rightarrow> char" where
  "lower c = (let n = (of_char c :: nat) in if 65 \<le> n \<and> n \<le> 90 then char_of (n + 32) else c)"

definition upper :: "char \<Rightarrow> char" where
  "upper c = (let n = (of_char c :: nat) in if 97 \<le> n \<and> n \<le> 122 then char_of (n - 32) else c)"

text \<open>\<open>strncasecmp\<close> of two strings, as the test for equality it is used for.\<close>

definition strnicmp_eq :: "string \<Rightarrow> string \<Rightarrow> nat \<Rightarrow> bool" where
  "strnicmp_eq a b n \<longleftrightarrow> map lower (take n a) = map lower (take n b)"

fun strchr :: "char \<Rightarrow> string \<Rightarrow> nat option" where
  "strchr c [] = None"
| "strchr c (x # xs) = (if x = c then Some 0 else map_option Suc (strchr c xs))"

fun strrchr :: "char \<Rightarrow> string \<Rightarrow> nat option" where
  "strrchr c [] = None"
| "strrchr c (x # xs) =
     (case strrchr c xs of Some i \<Rightarrow> Some (Suc i) | None \<Rightarrow> if x = c then Some 0 else None)"

definition starts :: "char \<Rightarrow> string \<Rightarrow> bool" where
  "starts c s \<longleftrightarrow> s \<noteq> [] \<and> hd s = c"

definition skipleading :: "string \<Rightarrow> string" where
  "skipleading s = dropWhile blank s"

text \<open>\<open>skiptrailing\<close> returns the end of what is left of the string, here that string itself.\<close>

definition skiptrailing :: "string \<Rightarrow> string" where
  "skiptrailing s = rev (dropWhile blank (rev s))"

definition striptrailing :: "string \<Rightarrow> string" where
  "striptrailing s = skiptrailing s"

section \<open>Copying and quoting\<close>

datatype quote_option = QUOTE_NONE | QUOTE_ENQUOTE | QUOTE_DEQUOTE

text \<open>The loop of \<open>QUOTE_ENQUOTE\<close>, with \<open>d\<close> bytes already in the destination.\<close>

fun enquote :: "nat \<Rightarrow> nat \<Rightarrow> string \<Rightarrow> string" where
  "enquote maxlen d [] = []"
| "enquote maxlen d (c # cs) =
     (if d < maxlen - 2 then
        if c = CHR 0x22 then
          if d \<ge> maxlen - 3 then [] else CHR 0x5C # c # enquote maxlen (d + 2) cs
        else c # enquote maxlen (d + 1) cs
      else [])"

text \<open>The loop of \<open>QUOTE_DEQUOTE\<close>, with room for \<open>n\<close> bytes.\<close>

fun dequote :: "nat \<Rightarrow> string \<Rightarrow> string" where
  "dequote n [] = []"
| "dequote 0 (c # cs) = []"
| "dequote (Suc n) (c # cs) =
     (if (c = CHR 0x22 \<or> c = CHR 0x5C) \<and> starts (CHR 0x22) cs
      then CHR 0x22 # dequote n (tl cs)
      else c # dequote n cs)"

definition ini_strncpy :: "string \<Rightarrow> nat \<Rightarrow> quote_option \<Rightarrow> string outcome" where
  "ini_strncpy source maxlen option0 =
     (if maxlen = 0 then Inl AssertFail
      else Inr (case (if option0 = QUOTE_ENQUOTE \<and> maxlen < 3 then QUOTE_NONE else option0) of
          QUOTE_NONE \<Rightarrow> take (maxlen - 1) source
        | QUOTE_ENQUOTE \<Rightarrow> CHR 0x22 # enquote maxlen 1 source @ [CHR 0x22]
        | QUOTE_DEQUOTE \<Rightarrow> dequote (maxlen - 1) source))"

text \<open>The loop of \<open>cleanstring\<close> that looks for a comment; the result is the text before it.\<close>

fun strip_comment :: "bool \<Rightarrow> string \<Rightarrow> string" where
  "strip_comment isstring [] = []"
| "strip_comment isstring (c # cs) =
     (if (c = CHR '';'' \<or> c = CHR ''#'') \<and> \<not> isstring then []
      else if c = CHR 0x22 then
        if starts (CHR 0x22) cs then c # CHR 0x22 # strip_comment isstring (tl cs)
        else c # strip_comment (\<not> isstring) cs
      else if c = CHR 0x5C \<and> starts (CHR 0x22) cs then c # CHR 0x22 # strip_comment isstring (tl cs)
      else c # strip_comment isstring cs)"

definition cleanstring :: "string \<Rightarrow> string \<times> quote_option" where
  "cleanstring s0 =
     (let s = striptrailing (strip_comment False s0) in
      if starts (CHR 0x22) s \<and> last s = CHR 0x22 then (butlast (tl s), QUOTE_DEQUOTE)
      else (s, QUOTE_NONE))"

section \<open>Reading lines\<close>

fun take_line :: "nat \<Rightarrow> string \<Rightarrow> string" where
  "take_line 0 s = []"
| "take_line (Suc n) [] = []"
| "take_line (Suc n) (c # cs) = c # (if c = CHR 0x0A then [] else take_line n cs)"

text \<open>\<open>fgets\<close>: the line read and the bytes after it; nothing at the end of the file.\<close>

definition fgets :: "nat \<Rightarrow> string \<Rightarrow> (string \<times> string) option" where
  "fgets n rest =
     (if n < 2 \<or> rest = [] then None
      else let l = take_line (n - 1) rest in Some (l, drop (length l) rest))"

lemma take_line_length: "length (take_line n s) \<le> n" "length (take_line n s) \<le> length s"
  by (induction n s rule: take_line.induct) auto

lemma fgets_shorter: "fgets n rest = Some (l, rest') \<Longrightarrow> length rest' < length rest"
  by (cases rest; cases "n - 1") (auto simp: fgets_def Let_def split: if_splits)

section \<open>Searching\<close>

text \<open>
  The section loop of \<open>getkeystring\<close>: the line without its leading blanks, where its bracket closes,
  and the counter. The counter moves only on headings that do not match.
\<close>

function find_section :: "string option \<Rightarrow> int \<Rightarrow> int \<Rightarrow> string \<Rightarrow> (string \<times> nat \<times> int \<times> string) option" where
  "find_section Section idxSection idx rest =
     (case fgets INI_BUFFERSIZE rest of
        None \<Rightarrow> None
      | Some (l, rest') \<Rightarrow>
          let sp = skipleading (cstr l) in
          (case strrchr (CHR '']'') sp of
             None \<Rightarrow> find_section Section idxSection idx rest'
           | Some ep \<Rightarrow>
               if \<not> starts (CHR ''['') sp then find_section Section idxSection idx rest'
               else if (case Section of None \<Rightarrow> False
                        | Some s \<Rightarrow> ep - 1 = length s \<and> strnicmp_eq (tl sp) s (length s))
               then Some (sp, ep, idx, rest')
               else if idx + 1 = idxSection then Some (sp, ep, idx + 1, rest')
               else find_section Section idxSection (idx + 1) rest'))"
  by pat_completeness auto
termination
  by (relation "measure (\<lambda>(S, i, j, rest). length rest)") (auto dest: fgets_shorter)

declare find_section.simps [simp del]

text \<open>Where a line separates the key from the value.\<close>

definition key_end :: "string \<Rightarrow> nat option" where
  "key_end sp = (case strchr (CHR ''='') sp of None \<Rightarrow> strchr (CHR '':'') sp | Some i \<Rightarrow> Some i)"

definition key_matches :: "string \<Rightarrow> nat \<Rightarrow> string \<Rightarrow> bool" where
  "key_matches sp ep Key \<longleftrightarrow>
     Key \<noteq> [] \<and> length (skiptrailing (take ep sp)) = length Key \<and> strnicmp_eq sp Key (length Key)"

text \<open>The entry loop: the line, where its key ends, the counter, the handle before and after it.\<close>

function find_key ::
  "string option \<Rightarrow> int \<Rightarrow> int \<Rightarrow> string \<Rightarrow> (string \<times> nat \<times> int \<times> string \<times> string) option" where
  "find_key Key idxKey idx rest =
     (case fgets INI_BUFFERSIZE rest of
        None \<Rightarrow> None
      | Some (l, rest') \<Rightarrow>
          let sp = skipleading (cstr l) in
          if starts (CHR ''['') sp then None
          else (case key_end sp of
                  None \<Rightarrow> find_key Key idxKey idx rest'
                | Some ep \<Rightarrow>
                    if starts (CHR '';'') sp \<or> starts (CHR ''#'') sp then find_key Key idxKey idx rest'
                    else if key_matches sp ep (case Key of None \<Rightarrow> [] | Some k \<Rightarrow> k)
                    then Some (sp, ep, idx, rest, rest')
                    else if idx + 1 = idxKey then Some (sp, ep, idx + 1, rest, rest')
                    else find_key Key idxKey (idx + 1) rest'))"
  by pat_completeness auto
termination
  by (relation "measure (\<lambda>(S, i, j, rest). length rest)") (auto dest: fgets_shorter)

declare find_key.simps [simp del]

text \<open>
  \<open>getkeystring\<close>: what it copies into the buffer, and the handle before and after the line it was
  found on; \<open>None\<close> is the return value 0, with the buffer untouched.
\<close>

definition getkeystring ::
  "string \<Rightarrow> string option \<Rightarrow> string option \<Rightarrow> int \<Rightarrow> int \<Rightarrow> nat \<Rightarrow> (string \<times> string \<times> string) option outcome" where
  "getkeystring rest Section Key idxSection idxKey BufferSize =
     (let len = (case Section of None \<Rightarrow> 0 | Some s \<Rightarrow> length s);
          entry = (\<lambda>rest.
            if Key = None \<and> idxKey < 0 then Inl AssertFail
            else case find_key Key idxKey (-1) rest of
              None \<Rightarrow> Inr None
            | Some (sp, ep, idx, head, tl') \<Rightarrow>
                if idxKey \<ge> 0 then
                  if idx = idxKey then
                    andthen (ini_strncpy (striptrailing (take ep sp)) BufferSize QUOTE_NONE)
                      (\<lambda>b. Inr (Some (b, head, tl')))
                  else Inr None
                else let (v, quotes) = cleanstring (skipleading (drop (ep + 1) sp)) in
                     andthen (ini_strncpy v BufferSize quotes) (\<lambda>b. Inr (Some (b, head, tl')))) in
      if len > 0 \<or> idxSection \<ge> 0 then
        (case find_section Section idxSection (-1) rest of
           None \<Rightarrow> Inr None
         | Some (sp, ep, idx, rest') \<Rightarrow>
             if idxSection \<ge> 0 then
               if idx = idxSection then
                 andthen (ini_strncpy (tl (take ep sp)) BufferSize QUOTE_NONE)
                   (\<lambda>b. Inr (Some (b, rest', rest')))
               else Inr None
             else entry rest')
      else entry rest)"

type_synonym files = "string \<Rightarrow> string option"

text \<open>\<open>ini_gets\<close>: the contents of the buffer; \<open>None\<close> when it is left alone.\<close>

definition ini_gets :: "string option \<Rightarrow> string option \<Rightarrow> string option \<Rightarrow> int \<Rightarrow> string \<Rightarrow> files \<Rightarrow> string option outcome" where
  "ini_gets Section Key DefValue BufferSize Filename fs =
     (if BufferSize \<le> 0 \<or> Key = None then Inr None
      else andthen
        (case fs Filename of
           None \<Rightarrow> Inr None
         | Some contents \<Rightarrow> getkeystring contents Section Key (-1) (-1) (nat BufferSize))
        (\<lambda>r. case r of
            Some (b, _, _) \<Rightarrow> Inr (Some b)
          | None \<Rightarrow> andthen (ini_strncpy (case DefValue of None \<Rightarrow> [] | Some d \<Rightarrow> d) (nat BufferSize) QUOTE_NONE)
                     (\<lambda>b. Inr (Some b))))"

definition ini_getsection :: "int \<Rightarrow> int \<Rightarrow> string \<Rightarrow> files \<Rightarrow> string option outcome" where
  "ini_getsection idx BufferSize Filename fs =
     (if BufferSize \<le> 0 \<or> idx < 0 then Inr None
      else andthen
        (case fs Filename of
           None \<Rightarrow> Inr None
         | Some contents \<Rightarrow> getkeystring contents None None idx (-1) (nat BufferSize))
        (\<lambda>r. Inr (Some (case r of Some (b, _, _) \<Rightarrow> b | None \<Rightarrow> []))))"

definition ini_getkey :: "string option \<Rightarrow> int \<Rightarrow> int \<Rightarrow> string \<Rightarrow> files \<Rightarrow> string option outcome" where
  "ini_getkey Section idx BufferSize Filename fs =
     (if BufferSize \<le> 0 \<or> idx < 0 then Inr None
      else andthen
        (case fs Filename of
           None \<Rightarrow> Inr None
         | Some contents \<Rightarrow> getkeystring contents Section None (-1) idx (nat BufferSize))
        (\<lambda>r. Inr (Some (case r of Some (b, _, _) \<Rightarrow> b | None \<Rightarrow> []))))"

definition ini_getbool :: "string option \<Rightarrow> string option \<Rightarrow> int \<Rightarrow> string \<Rightarrow> files \<Rightarrow> int outcome" where
  "ini_getbool Section Key DefValue Filename fs =
     andthen (ini_gets Section Key (Some []) 2 Filename fs)
       (\<lambda>b. let u = map upper (case b of None \<Rightarrow> [] | Some s \<Rightarrow> s) in
            Inr (if u \<in> {''Y'', ''1'', ''T''} then 1
                 else if u \<in> {''N'', ''0'', ''F''} then 0
                 else DefValue))"

section \<open>Browsing\<close>

text \<open>
  The loop of \<open>ini_browse\<close>: the section in effect sits at the start of the buffer and takes its room
  from the lines that follow. The callback's answer is a parameter; the result is the list of the
  settings it was called with.
\<close>

function browse_loop :: "(string \<times> string \<times> string \<Rightarrow> bool) \<Rightarrow> string \<Rightarrow> string \<Rightarrow> (string \<times> string \<times> string) list outcome" where
  "browse_loop callback sec rest =
     (let lenSec = length sec + 1 in
      case fgets (INI_BUFFERSIZE - lenSec) rest of
        None \<Rightarrow> Inr []
      | Some (l, rest') \<Rightarrow>
          let sp = skipleading (cstr l) in
          if sp = [] \<or> starts (CHR '';'') sp \<or> starts (CHR ''#'') sp then browse_loop callback sec rest'
          else if starts (CHR ''['') sp \<and> strrchr (CHR '']'') sp \<noteq> None then
            andthen (ini_strncpy (tl (take (the (strrchr (CHR '']'') sp)) sp)) INI_BUFFERSIZE QUOTE_NONE)
              (\<lambda>sec'. browse_loop callback sec' rest')
          else (case key_end sp of
                  None \<Rightarrow> browse_loop callback sec rest'
                | Some ep \<Rightarrow>
                    andthen (ini_strncpy (striptrailing (take ep sp)) (INI_BUFFERSIZE - lenSec) QUOTE_NONE)
                      (\<lambda>key. let lenKey = length key + 1;
                                 (v, quotes) = cleanstring (skipleading (drop (ep + 1) sp)) in
                        andthen (ini_strncpy v (INI_BUFFERSIZE - lenSec - lenKey) quotes)
                          (\<lambda>val. if callback (sec, key, val)
                                  then andthen (browse_loop callback sec rest') (\<lambda>more. Inr ((sec, key, val) # more))
                                  else Inr [(sec, key, val)]))))"
  by pat_completeness auto
termination
  by (relation "measure (\<lambda>(c, s, rest). length rest)") (auto dest: fgets_shorter)

declare browse_loop.simps [simp del]

definition ini_browse :: "(string \<times> string \<times> string \<Rightarrow> bool) \<Rightarrow> string \<Rightarrow> files \<Rightarrow> (int \<times> (string \<times> string \<times> string) list) outcome" where
  "ini_browse callback Filename fs =
     (case fs Filename of
        None \<Rightarrow> Inr (0, [])
      | Some contents \<Rightarrow> andthen (browse_loop callback [] contents) (\<lambda>xs. Inr (1, xs)))"

section \<open>Writing\<close>

definition ini_tempname :: "string \<Rightarrow> nat \<Rightarrow> string outcome" where
  "ini_tempname source maxlength =
     andthen (ini_strncpy source maxlength QUOTE_NONE)
       (\<lambda>dest. if dest = [] then Inl OutOfBounds else Inr (butlast dest @ ''~''))"

definition check_enquote :: "string \<Rightarrow> quote_option" where
  "check_enquote Value =
     (if (\<exists>c\<in>set Value. c \<in> {CHR 0x22, CHR '';'', CHR ''#''}) \<or> (Value \<noteq> [] \<and> last Value = CHR '' '')
      then QUOTE_ENQUOTE else QUOTE_NONE)"

definition writesection :: "string option \<Rightarrow> string outcome" where
  "writesection Section =
     (case Section of
        None \<Rightarrow> Inr []
      | Some s \<Rightarrow>
          if s = [] then Inr []
          else andthen (ini_strncpy s (INI_BUFFERSIZE - 4) QUOTE_NONE)
                 (\<lambda>b. Inr (''['' @ b @ '']'' @ INI_LINETERM)))"

definition writekey :: "string \<Rightarrow> string \<Rightarrow> string outcome" where
  "writekey Key Value =
     andthen (ini_strncpy Key (INI_BUFFERSIZE - 3) QUOTE_NONE)
       (\<lambda>k. andthen (ini_strncpy Value (INI_BUFFERSIZE - (length k + 1) - 2) (check_enquote Value))
         (\<lambda>v. Inr (k @ ''='' @ v @ INI_LINETERM)))"

text \<open>
  The state of a rewrite: the handle of the old file, the mark in it up to which it was copied, the
  number of bytes after the mark that are due to be copied, and what was written to the new file.
\<close>

record iniw =
  rfp :: string
  mark :: string
  cachelen :: nat
  wfp :: string

definition cache_accum :: "string \<Rightarrow> iniw \<Rightarrow> iniw option" where
  "cache_accum line p =
     (if cachelen p + length line \<ge> INI_BUFFERSIZE then None
      else Some (p\<lparr>cachelen := cachelen p + length line\<rparr>))"

text \<open>
  The loop of \<open>cache_flush\<close>, with \<open>buf\<close> already read. At the end of the file the buffer has a zero at
  the position the loop looks at, so that it would go on forever.
\<close>

function flush_loop :: "nat \<Rightarrow> string \<Rightarrow> string \<Rightarrow> (string \<times> string) outcome" where
  "flush_loop n buf rest =
     (if length buf < n then
        (case fgets (INI_BUFFERSIZE - length buf) rest of
           None \<Rightarrow> Inl Diverges
         | Some (l, rest') \<Rightarrow> flush_loop n (buf @ take (n - length buf) (cstr l)) rest')
      else Inr (buf, rest))"
  by pat_completeness auto
termination
  by (relation "measure (\<lambda>(n, b, rest). length rest)") (auto dest: fgets_shorter)

declare flush_loop.simps [simp del]

text \<open>The buffer, and whether it ended with a line terminator.\<close>

definition cache_flush :: "iniw \<Rightarrow> (string \<times> bool \<times> iniw) outcome" where
  "cache_flush p =
     andthen (flush_loop (cachelen p) [] (mark p))
       (\<lambda>(buf, rest). Inr (buf, length buf > 2 \<and> drop (length buf - 2) buf = INI_LINETERM,
          \<lparr>rfp = rest, mark = rest, cachelen = 0, wfp = wfp p @ buf\<rparr>))"

text \<open>A line is put into the cache; when it is full, it is flushed and the line read again.\<close>

definition cache_line :: "string \<Rightarrow> iniw \<Rightarrow> iniw outcome" where
  "cache_line line p =
     (case cache_accum line p of
        Some p' \<Rightarrow> Inr p'
      | None \<Rightarrow>
          andthen (cache_flush p)
            (\<lambda>(buf, _, p1).
               let (l, p2) = (case fgets INI_BUFFERSIZE (rfp p1) of
                                None \<Rightarrow> (buf, p1) | Some (l, r) \<Rightarrow> (cstr l, p1\<lparr>rfp := r\<rparr>)) in
               Inr (case cache_accum l p2 of None \<Rightarrow> p2 | Some p3 \<Rightarrow> p3)))"

lemma flush_loop_shorter:
  "flush_loop n buf rest = Inr (buf', rest') \<Longrightarrow> length rest' \<le> length rest \<and> (length buf < n \<longrightarrow> length rest' < length rest)"
proof (induction n buf rest rule: flush_loop.induct)
  case (1 n buf rest)
  then show ?case
    by (subst (asm) (2) flush_loop.simps) (fastforce split: if_splits option.splits dest: fgets_shorter)
qed

lemma cache_line_smaller:
  assumes "cache_line l p = Inr p'" "length l < INI_BUFFERSIZE"
  shows "mark p' = mark p \<and> rfp p' = rfp p \<or> length (mark p') < length (mark p)"
  using assms
  by (fastforce simp: cache_line_def cache_accum_def cache_flush_def outcome_simps
      split: option.splits if_splits prod.splits dest: flush_loop_shorter)

lemma cstr_length: "length (cstr l) \<le> length l"
  by (simp add: cstr_def length_takeWhile_le)

lemma fgets_length: "fgets n rest = Some (l, rest') \<Longrightarrow> length l < n"
  using take_line_length(1) [of "n - 1" rest] by (auto simp: fgets_def Let_def split: if_splits)

definition is_section :: "string \<Rightarrow> string \<Rightarrow> bool" where
  "is_section s sp =
     (starts (CHR ''['') sp \<and>
      (case strrchr (CHR '']'') sp of
         None \<Rightarrow> False
       | Some ep \<Rightarrow> ep - 1 = length s \<and> strnicmp_eq (tl sp) s (length s)))"

abbreviation progress :: "(iniw \<times> iniw) set" where
  "progress \<equiv> measures [\<lambda>p. length (mark p), \<lambda>p. length (rfp p)]"

lemma cache_line_progress:
  assumes "fgets INI_BUFFERSIZE (rfp p) = Some (l, r)" "cache_line (cstr l) (p\<lparr>rfp := r\<rparr>) = Inr p'"
  shows "(p', p) \<in> progress"
  using cache_line_smaller [OF assms(2)] fgets_length [OF assms(1)] fgets_shorter [OF assms(1)] cstr_length [of l]
  by (auto simp: INI_BUFFERSIZE_def)

text \<open>The section loop of \<open>ini_puts\<close>: whether the section was found.\<close>

function puts_section :: "string \<Rightarrow> bool \<Rightarrow> iniw \<Rightarrow> (bool \<times> iniw) outcome" where
  "puts_section s haskey p =
     (case fgets INI_BUFFERSIZE (rfp p) of
        None \<Rightarrow> Inr (False, p)
      | Some (l, r) \<Rightarrow>
          if is_section s (skipleading (cstr l)) then
            andthen (if haskey then cache_line (cstr l) (p\<lparr>rfp := r\<rparr>) else Inr (p\<lparr>rfp := r\<rparr>))
              (\<lambda>p'. Inr (True, p'))
          else andthen (cache_line (cstr l) (p\<lparr>rfp := r\<rparr>)) (\<lambda>p'. puts_section s haskey p'))"
  by pat_completeness auto
termination
  by (relation "inv_image progress (\<lambda>(s, k, p). p)") (auto dest: cache_line_progress)

declare puts_section.simps [simp del]

text \<open>
  The entry loop: \<open>None\<close> at the end of the file, otherwise whether it stopped at the heading of
  another section.
\<close>

definition key_line :: "string option \<Rightarrow> string \<Rightarrow> bool" where
  "key_line Key sp =
     (case key_end sp of
        None \<Rightarrow> False
      | Some ep \<Rightarrow> key_matches sp ep (case Key of None \<Rightarrow> [] | Some k \<Rightarrow> k))"

function puts_entry :: "string option \<Rightarrow> iniw \<Rightarrow> (bool option \<times> iniw) outcome" where
  "puts_entry Key p =
     (case fgets INI_BUFFERSIZE (rfp p) of
        None \<Rightarrow> Inr (None, p)
      | Some (l, r) \<Rightarrow>
          let sp = skipleading (cstr l) in
          if (Key \<noteq> None \<and> key_line Key sp) \<or> starts (CHR ''['') sp
          then Inr (Some (starts (CHR ''['') sp), p\<lparr>rfp := r\<rparr>)
          else if Key = None then puts_entry Key (p\<lparr>rfp := r, mark := r\<rparr>)
          else andthen (cache_line (cstr l) (p\<lparr>rfp := r\<rparr>)) (\<lambda>p'. puts_entry Key p'))"
  by pat_completeness auto
termination
proof (relation "inv_image (measures [\<lambda>(k, p). if k = None then 0 else length (mark p), \<lambda>(k, p). length (rfp p)]) (\<lambda>x. x)",
    goal_cases)
  case (2 Key p x l r sp)
  then show ?case by (auto dest: fgets_shorter)
next
  case (3 Key p x l r sp p')
  then have "(p', p) \<in> progress" by (auto dest: cache_line_progress)
  with 3 show ?case by auto
qed simp

declare puts_entry.simps [simp del]

function copy_rest :: "iniw \<Rightarrow> iniw outcome" where
  "copy_rest p =
     (case fgets INI_BUFFERSIZE (rfp p) of
        None \<Rightarrow> Inr p
      | Some (l, r) \<Rightarrow> andthen (cache_line (cstr l) (p\<lparr>rfp := r\<rparr>)) copy_rest)"
  by pat_completeness auto
termination
  by (relation progress) (auto dest: cache_line_progress)

declare copy_rest.simps [simp del]

text \<open>The new entry, unless the request is to erase.\<close>

definition new_entry :: "string option \<Rightarrow> string option \<Rightarrow> string outcome" where
  "new_entry Key Value =
     (case (Key, Value) of (Some k, Some v) \<Rightarrow> writekey k v | _ \<Rightarrow> Inr [])"

text \<open>
  The end of a search that ran into the end of the file: the cache is flushed, and a new entry goes
  on a line of its own, under the heading \<open>heading\<close>.
\<close>

definition append_entry :: "string outcome \<Rightarrow> string option \<Rightarrow> string option \<Rightarrow> iniw \<Rightarrow> string outcome" where
  "append_entry heading Key Value p =
     andthen (cache_flush p)
       (\<lambda>(_, flag, p1).
          if Key \<noteq> None \<and> Value \<noteq> None then
            andthen heading
              (\<lambda>h. andthen (new_entry Key Value)
                (\<lambda>e. Inr (wfp p1 @ (if flag then [] else INI_LINETERM) @ h @ e)))
          else Inr (wfp p1))"

text \<open>The part of \<open>ini_puts\<close> after the section was found, down to the copy of the rest.\<close>

definition replace_entry :: "string option \<Rightarrow> string option \<Rightarrow> iniw \<Rightarrow> string outcome" where
  "replace_entry Key Value p0 =
     andthen (cache_flush p0)
       (\<lambda>(_, _, p1).
          let p2 = (if Key = None
                    then (case fgets INI_BUFFERSIZE (rfp p1) of
                            None \<Rightarrow> p1 | Some (_, r) \<Rightarrow> p1\<lparr>rfp := r, mark := r\<rparr>)
                    else p1) in
          andthen (puts_entry Key p2)
            (\<lambda>(found, p3).
               case found of
                 None \<Rightarrow> append_entry (Inr []) Key Value p3
               | Some flag \<Rightarrow>
                   andthen (cache_flush p3)
                     (\<lambda>(buf, _, p4). andthen (new_entry Key Value)
                       (\<lambda>e. let p5 = p4\<lparr>wfp := wfp p4 @ e\<rparr>;
                                (l, p6) = (case fgets INI_BUFFERSIZE (rfp p5) of
                                   None \<Rightarrow> (if e = [] then buf else e, p5) | Some (l, r) \<Rightarrow> (cstr l, p5\<lparr>rfp := r\<rparr>));
                                p7 = (if flag then (case cache_accum l p6 of None \<Rightarrow> p6 | Some q \<Rightarrow> q)
                                      else p6\<lparr>mark := rfp p6\<rparr>) in
                            andthen (copy_rest p7)
                              (\<lambda>p8. andthen (cache_flush p8) (\<lambda>(_, _, p9). Inr (wfp p9)))))))"

definition rewrite_file :: "string option \<Rightarrow> string option \<Rightarrow> string option \<Rightarrow> string \<Rightarrow> string outcome" where
  "rewrite_file Section Key Value contents =
     (let p = \<lparr>rfp = contents, mark = contents, cachelen = 0, wfp = []\<rparr>;
          s = (case Section of None \<Rightarrow> [] | Some s \<Rightarrow> s) in
      if s \<noteq> [] then
        andthen (puts_section s (Key \<noteq> None) p)
          (\<lambda>(found, p'). if found then replace_entry Key Value p'
                         else append_entry (writesection Section) Key Value p')
      else replace_entry Key Value p)"

text \<open>
  \<open>ini_puts\<close>. \<open>writable\<close> says which names can be opened for writing. A setting that is unchanged is
  left alone; one whose new line has the length of the old is overwritten in place; otherwise the
  file is rewritten under a temporary name.
\<close>

definition ini_puts ::
  "(string \<Rightarrow> bool) \<Rightarrow> string option \<Rightarrow> string option \<Rightarrow> string option \<Rightarrow> string \<Rightarrow> files \<Rightarrow> (int \<times> files) outcome" where
  "ini_puts writable Section Key Value Filename fs =
     (case fs Filename of
        None \<Rightarrow>
          (case (Key, Value) of
             (Some k, Some v) \<Rightarrow>
               if \<not> writable Filename then Inr (0, fs)
               else andthen (writesection Section)
                      (\<lambda>h. andthen (writekey k v) (\<lambda>e. Inr (1, fs(Filename \<mapsto> h @ e))))
           | _ \<Rightarrow> Inr (1, fs))
      | Some contents \<Rightarrow>
          let rewrite =
            andthen (ini_tempname Filename INI_BUFFERSIZE)
              (\<lambda>tmp. if \<not> writable tmp then Inr (0, fs)
                     else andthen (rewrite_file Section Key Value contents)
                            (\<lambda>new. Inr (1, (fs(tmp := None))(Filename \<mapsto> new)))) in
          (case (Key, Value) of
             (Some k, Some v) \<Rightarrow>
               andthen (getkeystring contents Section Key (-1) (-1) INI_BUFFERSIZE)
                 (\<lambda>r. case r of
                    None \<Rightarrow> rewrite
                  | Some (b, head, tail) \<Rightarrow>
                      if b = v then Inr (1, fs)
                      else andthen (writekey k v)
                        (\<lambda>e. if length e = length head - length tail then
                                if \<not> writable Filename then Inr (0, fs)
                                else Inr (1, fs(Filename \<mapsto>
                                       take (length contents - length head) contents @ e @ tail))
                              else rewrite))
           | _ \<Rightarrow> rewrite))"

section \<open>Numbers\<close>

text \<open>\<open>long2str\<close>: the digits from the lowest on, then the sign, reversed; \<open>%\<close> truncates as in C.\<close>

function digits :: "int \<Rightarrow> string" where
  "digits n =
     (let d = char_of (48 + nat (\<bar>n\<bar> mod 10)); q = (\<bar>n\<bar> div 10) * sgn n in
      if q = 0 then [d] else d # digits q)"
  by pat_completeness auto
termination
proof (relation "measure (\<lambda>v. nat \<bar>v\<bar>)", goal_cases)
  case (2 n d q)
  then have "n \<noteq> 0" "\<bar>q\<bar> = \<bar>n\<bar> div 10" by (auto simp: abs_mult)
  then show ?case by (simp add: nat_less_eq_zless)
qed simp

declare digits.simps [simp del]

definition long2str :: "int \<Rightarrow> string" where
  "long2str n = rev (digits n @ (if n < 0 then ''-'' else []))"

definition ini_putl :: "(string \<Rightarrow> bool) \<Rightarrow> string option \<Rightarrow> string option \<Rightarrow> 32 word \<Rightarrow> string \<Rightarrow> files \<Rightarrow> (int \<times> files) outcome" where
  "ini_putl writable Section Key Value Filename fs =
     ini_puts writable Section Key (Some (long2str (sint Value))) Filename fs"

text \<open>\<open>strtol\<close> on a 32-bit \<open>long\<close>: blanks, a sign, digits of the base; a value out of range is clamped.\<close>

definition digit_value :: "char \<Rightarrow> nat option" where
  "digit_value c =
     (let n = (of_char c :: nat); u = (of_char (upper c) :: nat) in
      if 48 \<le> n \<and> n \<le> 57 then Some (n - 48)
      else if 65 \<le> u \<and> u \<le> 90 then Some (u - 55)
      else None)"

fun strtol_digits :: "nat \<Rightarrow> nat \<Rightarrow> string \<Rightarrow> nat" where
  "strtol_digits base acc [] = acc"
| "strtol_digits base acc (c # cs) =
     (case digit_value c of
        None \<Rightarrow> acc
      | Some d \<Rightarrow> if d < base then strtol_digits base (acc * base + d) cs else acc)"

definition isspace :: "char \<Rightarrow> bool" where
  "isspace c \<longleftrightarrow> c = CHR '' '' \<or> (9 \<le> (of_char c :: nat) \<and> (of_char c :: nat) \<le> 13)"

definition strtol :: "string \<Rightarrow> nat \<Rightarrow> 32 word" where
  "strtol s base =
     (let t = dropWhile isspace s;
          neg = starts (CHR ''-'') t;
          u = (if neg \<or> starts (CHR ''+'') t then tl t else t);
          w = (if base = 16 \<and> starts (CHR ''0'') u \<and> starts (CHR ''X'') (map upper (tl u)) \<and>
                  (case tl (tl u) of c # _ \<Rightarrow> (case digit_value c of Some d \<Rightarrow> d < 16 | None \<Rightarrow> False) | [] \<Rightarrow> False)
               then tl (tl u) else u);
          m = int (strtol_digits base 0 w);
          v = (if neg then - m else m) in
      of_int (max (- (2 ^ 31)) (min (2 ^ 31 - 1) v)))"

definition ini_getl :: "string option \<Rightarrow> string option \<Rightarrow> 32 word \<Rightarrow> string \<Rightarrow> files \<Rightarrow> (32 word) outcome" where
  "ini_getl Section Key DefValue Filename fs =
     andthen (ini_gets Section Key (Some []) 64 Filename fs)
       (\<lambda>r. let b = (case r of None \<Rightarrow> [] | Some b \<Rightarrow> b) in
            Inr (if b = [] then DefValue
                 else if length b \<ge> 2 \<and> upper (b ! 1) = CHR ''X'' then strtol b 16
                 else strtol b 10))"

text \<open>
  Floats go through \<open>sprintf\<close> with \<open>%f\<close> (\<open>ftoa\<close>) into a buffer of 64 bytes and back through \<open>strtod\<close>
  (\<open>atof\<close>).
\<close>

definition ini_putf :: "(32 word \<Rightarrow> string) \<Rightarrow> (string \<Rightarrow> bool) \<Rightarrow> string option \<Rightarrow> string option \<Rightarrow> 32 word \<Rightarrow> string \<Rightarrow> files \<Rightarrow> (int \<times> files) outcome" where
  "ini_putf ftoa writable Section Key Value Filename fs =
     (if length (ftoa Value) < 64 then ini_puts writable Section Key (Some (ftoa Value)) Filename fs else Inl OutOfBounds)"

definition ini_getf :: "(string \<Rightarrow> 32 word) \<Rightarrow> string option \<Rightarrow> string option \<Rightarrow> 32 word \<Rightarrow> string \<Rightarrow> files \<Rightarrow> (32 word) outcome" where
  "ini_getf atof Section Key DefValue Filename fs =
     andthen (ini_gets Section Key (Some []) 64 Filename fs)
       (\<lambda>r. let b = (case r of None \<Rightarrow> [] | Some b \<Rightarrow> b) in Inr (if b = [] then DefValue else atof b))"

end
