(* ===== verification/IniLines.thy ===== *)
theory IniLines
  imports IniFile
begin

text \<open>
  The line structure the reader and the writer of INI files work on: a file is the concatenation of
  the lines \<open>fgets\<close> returns, and what the searches find depends only on the lines without the blanks
  around them. The section and entry loops are shown to be searches in that list, and the cache of
  the writer to copy lines exactly.
\<close>

section \<open>Lines\<close>

function lines_of :: "string \<Rightarrow> string list" where
  "lines_of s = (case fgets INI_BUFFERSIZE s of None \<Rightarrow> [] | Some (l, r) \<Rightarrow> l # lines_of r)"
  by pat_completeness auto
termination
  by (relation "measure length") (auto dest: fgets_shorter)

declare lines_of.simps [simp del]

lemma take_line_drop: "take_line n s @ drop (length (take_line n s)) s = s"
  by (induction n s rule: take_line.induct) auto

lemma take_line_shorter: "length (take_line b s) \<le> a \<Longrightarrow> a \<le> b \<Longrightarrow> take_line a s = take_line b s"
proof (induction a arbitrary: b s)
  case (Suc a)
  then show ?case by (cases b; cases s) auto
qed simp

lemma lines_of_Nil [simp]: "lines_of [] = []"
  by (simp add: lines_of.simps [of "[]"] fgets_def)

lemma fgets_append: "fgets n s = Some (l, r) \<Longrightarrow> s = l @ r"
  using take_line_drop [of "n - 1" s] by (auto simp: fgets_def Let_def split: if_splits)

lemma concat_lines_of [simp]: "concat (lines_of s) = s"
proof (induction s rule: lines_of.induct)
  case (1 s)
  show ?case
  proof (cases "fgets INI_BUFFERSIZE s")
    case None
    then show ?thesis by (subst lines_of.simps) (auto simp: fgets_def INI_BUFFERSIZE_def Let_def split: if_splits)
  next
    case (Some p)
    then obtain l r where lr: "fgets INI_BUFFERSIZE s = Some (l, r)" by (cases p) auto
    then show ?thesis using 1 [OF lr refl] fgets_append [OF lr] by (subst lines_of.simps) simp
  qed
qed

lemma lines_of_eq_Nil [simp]: "lines_of s = [] \<longleftrightarrow> s = []"
  using concat_lines_of [of s] by (metis concat.simps(1) lines_of_Nil)

lemma fgets_lines:
  "fgets INI_BUFFERSIZE s = (case lines_of s of [] \<Rightarrow> None | l # ls \<Rightarrow> Some (l, concat ls))"
  by (subst lines_of.simps) (auto split: option.splits)

lemma lines_of_concat_tl: "lines_of s = l # ls \<Longrightarrow> lines_of (concat ls) = ls"
  by (subst (asm) lines_of.simps) (auto split: option.splits)

lemma lines_of_suffix: "lines_of s = a @ b \<Longrightarrow> lines_of (concat b) = b"
proof (induction a arbitrary: s)
  case Nil
  then show ?case by (metis append_Nil concat_lines_of)
next
  case (Cons x a)
  then show ?case using lines_of_concat_tl [of s x "a @ b"] by simp
qed

text \<open>A complete line ends with a newline or fills the buffer; only the last line of a file may not.\<close>

definition complete :: "string \<Rightarrow> bool" where
  "complete l \<longleftrightarrow> l \<noteq> [] \<and> length l \<le> 511 \<and> CHR 0x0A \<notin> set (butlast l) \<and> (last l = CHR 0x0A \<or> length l = 511)"

lemma take_line_no_newline: "CHR 0x0A \<notin> set l \<Longrightarrow> length l \<le> n \<Longrightarrow> take_line n (l @ s) = l @ take_line (n - length l) s"
  by (induction l arbitrary: n) (auto, case_tac n, auto)

lemma take_line_complete: "complete l \<Longrightarrow> take_line 511 (l @ s) = l"
proof -
  assume c: "complete l"
  then obtain l0 x where l: "l = l0 @ [x]" by (metis append_butlast_last_id complete_def)
  have l0: "CHR 0x0A \<notin> set l0" "length l0 < 511" "x = CHR 0x0A \<or> length l0 = 510"
    using c by (auto simp: complete_def l)
  have "take_line 511 (l @ s) = l0 @ take_line (511 - length l0) (x # s)"
    using take_line_no_newline [OF l0(1), of 511 "x # s"] l0(2) by (simp add: l)
  moreover have "take_line (511 - length l0) (x # s) = [x]"
    using l0(2,3) by (cases "511 - length l0") auto
  ultimately show ?thesis by (simp add: l)
qed

lemma lines_of_complete: "complete l \<Longrightarrow> lines_of (l @ s) = l # lines_of s"
  by (subst lines_of.simps) (auto simp: fgets_def INI_BUFFERSIZE_def take_line_complete complete_def Let_def)

lemma lines_of_concat_append: "list_all complete ls \<Longrightarrow> lines_of (concat ls @ s) = ls @ lines_of s"
  by (induction ls) (auto simp: lines_of_complete)

lemma take_line_form:
  "CHR 0x0A \<notin> set (butlast (take_line n s)) \<and> length (take_line n s) \<le> n \<and>
     (take_line n s \<noteq> [] \<and> last (take_line n s) = CHR 0x0A \<or> length (take_line n s) = n \<or> take_line n s = s)"
  by (induction n s rule: take_line.induct) (auto simp: butlast_append split: if_splits)

lemma lines_of_line:
  assumes "lines_of s = l # ls"
  shows "l \<noteq> []" "length l \<le> 511" "CHR 0x0A \<notin> set (butlast l)" "ls \<noteq> [] \<Longrightarrow> complete l"
proof -
  have s: "s \<noteq> []" using assms by auto
  have l: "l = take_line 511 s"
    using assms by (subst (asm) lines_of.simps) (auto simp: fgets_def INI_BUFFERSIZE_def Let_def split: if_splits)
  show ne: "l \<noteq> []" using l s by (cases s) (auto simp: numeral_eq_Suc)
  show f: "length l \<le> 511" "CHR 0x0A \<notin> set (butlast l)" using take_line_form [of 511 s] l by auto
  assume "ls \<noteq> []"
  then have "l \<noteq> s" using assms by (metis concat_lines_of concat.simps(2) lines_of_concat_tl lines_of_eq_Nil self_append_conv)
  then show "complete l" using ne f l take_line_form [of 511 s] by (auto simp: complete_def)
qed

lemma lines_of_complete_init: "lines_of s = a @ l # b \<Longrightarrow> list_all complete a"
proof (induction a arbitrary: s)
  case (Cons x a)
  from lines_of_line(4) [of s x "a @ l # b"] Cons.prems have "complete x" by simp
  moreover have "lines_of (concat (a @ l # b)) = a @ l # b" using lines_of_concat_tl [of s x "a @ l # b"] Cons.prems by simp
  ultimately show ?case using Cons.IH by simp
qed simp

section \<open>The cache of the writer\<close>

text \<open>
  \<open>tracks W p\<close>: what was written, followed by the lines between the mark and the handle, is \<open>W\<close>, and
  the cache counts exactly these lines.
\<close>

definition tracks :: "string \<Rightarrow> iniw \<Rightarrow> bool" where
  "tracks W p \<longleftrightarrow>
     (\<exists>pend. lines_of (mark p) = pend @ lines_of (rfp p) \<and> W = wfp p @ concat pend \<and>
        cachelen p = length (concat pend) \<and> cachelen p < INI_BUFFERSIZE \<and> NUL \<notin> set (mark p))"

lemma fgets_short_line:
  assumes "lines_of s = l # ls" "length l < n" "n \<le> INI_BUFFERSIZE"
  shows "fgets n s = Some (l, concat ls)"
proof -
  have f: "fgets INI_BUFFERSIZE s = Some (l, concat ls)" using assms(1) by (simp add: fgets_lines)
  then have s: "s \<noteq> []" and l: "take_line 511 s = l"
    by (auto simp: fgets_def INI_BUFFERSIZE_def Let_def split: if_splits)
  have "take_line (n - 1) s = l"
    using take_line_shorter [of 511 s "n - 1"] assms(2,3) unfolding l by (simp add: INI_BUFFERSIZE_def)
  moreover have "2 \<le> n" using assms(2) lines_of_line(1) [OF assms(1)] by (cases l) auto
  moreover have "drop (length l) s = concat ls" using fgets_append [OF f] by simp
  ultimately show ?thesis using s by (simp add: fgets_def Let_def)
qed

lemma flush_loop_lines:
  assumes "lines_of s = pend @ ls" "NUL \<notin> set s" "length buf + length (concat pend) < INI_BUFFERSIZE"
  shows "flush_loop (length buf + length (concat pend)) buf s = Inr (buf @ concat pend, concat ls)"
  using assms
proof (induction pend arbitrary: s buf)
  case Nil
  then show ?case by (subst flush_loop.simps) (simp, metis concat_lines_of)
next
  case (Cons l pend)
  have l: "l \<noteq> []" "NUL \<notin> set l" using lines_of_line(1) [of s l "pend @ ls"] Cons.prems(1,2)
    by (auto, metis UnI1 concat.simps(2) concat_lines_of set_append)
  have f: "fgets (INI_BUFFERSIZE - length buf) s = Some (l, concat (pend @ ls))"
    using Cons.prems by (intro fgets_short_line) auto
  have "NUL \<notin> set (concat (pend @ ls))" using fgets_append [OF f] Cons.prems(2) by auto
  moreover have "lines_of (concat (pend @ ls)) = pend @ ls"
    using lines_of_concat_tl [of s l "pend @ ls"] Cons.prems(1) by simp
  ultimately have "flush_loop (length (buf @ l) + length (concat pend)) (buf @ l) (concat (pend @ ls)) =
      Inr ((buf @ l) @ concat pend, concat ls)"
    using Cons.prems(3) by (intro Cons.IH) auto
  then show ?case using l f by (subst flush_loop.simps) (simp add: add.assoc)
qed

lemma cache_flush_rfp: "cache_flush (p\<lparr>rfp := x\<rparr>) = cache_flush p"
  by (simp add: cache_flush_def)

lemma cache_flush_tracks:
  assumes "tracks W p"
  obtains buf flag where "cache_flush p = Inr (buf, flag, \<lparr>rfp = rfp p, mark = rfp p, cachelen = 0, wfp = W\<rparr>)"
    "flag \<Longrightarrow> \<exists>W'. W = W' @ INI_LINETERM"
proof -
  obtain pend where p: "lines_of (mark p) = pend @ lines_of (rfp p)" "W = wfp p @ concat pend"
      "cachelen p = length (concat pend)" "cachelen p < INI_BUFFERSIZE" "NUL \<notin> set (mark p)"
    using assms by (auto simp: tracks_def)
  let ?flag = "length (concat pend) > 2 \<and> drop (length (concat pend) - 2) (concat pend) = INI_LINETERM"
  show thesis
  proof (rule that)
    show "cache_flush p = Inr (concat pend, ?flag, \<lparr>rfp = rfp p, mark = rfp p, cachelen = 0, wfp = W\<rparr>)"
      using flush_loop_lines [OF p(1,5), of "[]"] p by (simp add: cache_flush_def)
    show "?flag \<Longrightarrow> \<exists>W'. W = W' @ INI_LINETERM"
      by (metis p(2) append.assoc append_take_drop_id)
  qed
qed

lemma tracks_flushed: "NUL \<notin> set r \<Longrightarrow> tracks W \<lparr>rfp = r, mark = r, cachelen = 0, wfp = W\<rparr>"
  by (auto simp: tracks_def INI_BUFFERSIZE_def intro: exI [of _ "[]"])

lemma tracks_no_NUL: "tracks W p \<Longrightarrow> NUL \<notin> set (rfp p)"
  by (auto simp: tracks_def) (metis UnCI concat_append concat_lines_of set_append)

lemma cache_line_tracks:
  assumes t: "tracks W p" and l: "lines_of (rfp p) = l # ls"
  obtains p' where "cache_line (cstr l) (p\<lparr>rfp := concat ls\<rparr>) = Inr p'" "tracks (W @ l) p'" "rfp p' = concat ls"
proof -
  obtain pend where p: "lines_of (mark p) = pend @ lines_of (rfp p)" "W = wfp p @ concat pend"
      "cachelen p = length (concat pend)" "cachelen p < INI_BUFFERSIZE" "NUL \<notin> set (mark p)"
    using t by (auto simp: tracks_def)
  have nl: "NUL \<notin> set (rfp p)" by (rule tracks_no_NUL [OF t])
  then have cl: "cstr l = l" "NUL \<notin> set (concat ls)"
    using l by (metis Un_iff concat.simps(2) concat_lines_of cstr_id set_append)+
  have ls: "lines_of (concat ls) = ls" by (rule lines_of_concat_tl [OF l])
  show thesis
  proof (cases "cachelen p + length l < INI_BUFFERSIZE")
    case True
    let ?p = "p\<lparr>rfp := concat ls, cachelen := cachelen p + length l\<rparr>"
    have "tracks (W @ l) ?p"
      unfolding tracks_def using p l ls True by (intro exI [of _ "pend @ [l]"]) simp
    moreover have "cache_line (cstr l) (p\<lparr>rfp := concat ls\<rparr>) = Inr ?p"
      using True by (simp add: cache_line_def cache_accum_def cl)
    ultimately show thesis using that by simp
  next
    case False
    obtain buf flag where f: "cache_flush p = Inr (buf, flag, \<lparr>rfp = rfp p, mark = rfp p, cachelen = 0, wfp = W\<rparr>)"
      using cache_flush_tracks [OF t] by metis
    let ?p = "\<lparr>rfp = concat ls, mark = rfp p, cachelen = length l, wfp = W\<rparr>"
    have len: "length l < INI_BUFFERSIZE" using lines_of_line(2) [OF l] by (simp add: INI_BUFFERSIZE_def)
    then have "tracks (W @ l) ?p"
      unfolding tracks_def using l ls nl by (intro exI [of _ "[l]"]) simp
    moreover have "cache_line (cstr l) (p\<lparr>rfp := concat ls\<rparr>) = Inr ?p"
      using False f len l by (simp add: cache_line_def cache_accum_def cache_flush_rfp cl fgets_lines)
    ultimately show thesis using that by simp
  qed
qed

section \<open>The loops as searches\<close>

lemma cstr_line: "NUL \<notin> set s \<Longrightarrow> lines_of s = l # ls \<Longrightarrow> cstr l = l \<and> NUL \<notin> set (concat ls) \<and> lines_of (concat ls) = ls"
  by (metis Un_iff concat.simps(2) concat_lines_of cstr_id lines_of_concat_tl set_append)

lemma puts_section_none:
  assumes "tracks W p" "\<forall>l\<in>set (lines_of (rfp p)). \<not> is_section s (skipleading l)"
  shows "\<exists>p'. puts_section s k p = Inr (False, p') \<and> tracks (W @ rfp p) p' \<and> rfp p' = []"
  using assms
proof (induction "lines_of (rfp p)" arbitrary: W p)
  case Nil
  from Nil.hyps have "rfp p = []" by (metis lines_of_eq_Nil)
  with Nil.prems show ?case by (subst puts_section.simps) (simp add: fgets_lines)
next
  case (Cons l ls)
  note l = Cons.hyps(2) [symmetric]
  have c: "cstr l = l" "lines_of (concat ls) = ls" using cstr_line [OF tracks_no_NUL [OF Cons.prems(1)] l] by simp_all
  obtain p' where p': "cache_line (cstr l) (p\<lparr>rfp := concat ls\<rparr>) = Inr p'" "tracks (W @ l) p'" "rfp p' = concat ls"
    using cache_line_tracks [OF Cons.prems(1) l] by blast
  have "\<exists>p''. puts_section s k p' = Inr (False, p'') \<and> tracks ((W @ l) @ rfp p') p'' \<and> rfp p'' = []"
    using Cons.prems(2) l p'(2,3) c(2) by (intro Cons.hyps(1)) auto
  moreover have "rfp p = l @ concat ls" using l by (metis concat.simps(2) concat_lines_of)
  moreover have "\<not> is_section s (skipleading l)" using Cons.prems(2) l by simp
  ultimately show ?case using p' l by (subst puts_section.simps) (simp add: fgets_lines c(1))
qed

lemma puts_section_some:
  assumes "tracks W p" "lines_of (rfp p) = a @ l # b" "\<forall>x\<in>set a. \<not> is_section s (skipleading x)" "is_section s (skipleading l)"
  shows "\<exists>p'. puts_section s True p = Inr (True, p') \<and> tracks (W @ concat a @ l) p' \<and> rfp p' = concat b"
  using assms
proof (induction a arbitrary: W p)
  case Nil
  then have l: "lines_of (rfp p) = l # b" by simp
  obtain p' where "cache_line (cstr l) (p\<lparr>rfp := concat b\<rparr>) = Inr p'" "tracks (W @ l) p'" "rfp p' = concat b"
    using cache_line_tracks [OF Nil.prems(1) l] by blast
  then show ?case using Nil.prems(4) l cstr_line [OF tracks_no_NUL [OF Nil.prems(1)] l]
    by (subst puts_section.simps) (simp add: fgets_lines)
next
  case (Cons x a)
  then have x: "lines_of (rfp p) = x # (a @ l # b)" by simp
  note c = cstr_line [OF tracks_no_NUL [OF Cons.prems(1)] x]
  obtain p' where p': "cache_line (cstr x) (p\<lparr>rfp := concat (a @ l # b)\<rparr>) = Inr p'" "tracks (W @ x) p'"
      "rfp p' = concat (a @ l # b)"
    using cache_line_tracks [OF Cons.prems(1) x] by blast
  have "\<exists>p''. puts_section s True p' = Inr (True, p'') \<and> tracks ((W @ x) @ concat a @ l) p'' \<and> rfp p'' = concat b"
    using Cons.prems p' c by (intro Cons.IH) auto
  then show ?case using Cons.prems(3) p'(1) x c by (subst puts_section.simps) (simp add: fgets_lines)
qed

abbreviation stop_line :: "string \<Rightarrow> string \<Rightarrow> bool" where
  "stop_line k l \<equiv> key_line (Some k) (skipleading l) \<or> starts (CHR ''['') (skipleading l)"

lemma puts_entry_none:
  assumes "tracks W p" "\<forall>l\<in>set (lines_of (rfp p)). \<not> stop_line k l"
  shows "\<exists>p'. puts_entry (Some k) p = Inr (None, p') \<and> tracks (W @ rfp p) p' \<and> rfp p' = []"
  using assms
proof (induction "lines_of (rfp p)" arbitrary: W p)
  case Nil
  from Nil.hyps have "rfp p = []" by (metis lines_of_eq_Nil)
  with Nil.prems show ?case by (subst puts_entry.simps) (simp add: fgets_lines)
next
  case (Cons l ls)
  note l = Cons.hyps(2) [symmetric]
  have c: "cstr l = l" "lines_of (concat ls) = ls" using cstr_line [OF tracks_no_NUL [OF Cons.prems(1)] l] by simp_all
  obtain p' where p': "cache_line (cstr l) (p\<lparr>rfp := concat ls\<rparr>) = Inr p'" "tracks (W @ l) p'" "rfp p' = concat ls"
    using cache_line_tracks [OF Cons.prems(1) l] by blast
  have "\<exists>p''. puts_entry (Some k) p' = Inr (None, p'') \<and> tracks ((W @ l) @ rfp p') p'' \<and> rfp p'' = []"
    using Cons.prems(2) l p'(2,3) c(2) by (intro Cons.hyps(1)) auto
  moreover have "rfp p = l @ concat ls" using l by (metis concat.simps(2) concat_lines_of)
  moreover have "\<not> stop_line k l" using Cons.prems(2) l by simp
  ultimately show ?case using p' l by (subst puts_entry.simps) (simp add: fgets_lines c(1))
qed

lemma puts_entry_some:
  assumes "tracks W p" "lines_of (rfp p) = a @ l # b" "\<forall>x\<in>set a. \<not> stop_line k x" "stop_line k l"
  shows "\<exists>p'. puts_entry (Some k) p = Inr (Some (starts (CHR ''['') (skipleading l)), p'\<lparr>rfp := concat b\<rparr>) \<and>
    tracks (W @ concat a) p' \<and> rfp p' = l @ concat b"
  using assms
proof (induction a arbitrary: W p)
  case Nil
  then have l: "lines_of (rfp p) = l # b" by simp
  have "rfp p = l @ concat b" using l by (metis concat.simps(2) concat_lines_of)
  then show ?case using Nil.prems(1,4) l cstr_line [OF tracks_no_NUL [OF Nil.prems(1)] l]
    by (subst puts_entry.simps) (auto simp: fgets_lines)
next
  case (Cons x a)
  then have x: "lines_of (rfp p) = x # (a @ l # b)" by simp
  note c = cstr_line [OF tracks_no_NUL [OF Cons.prems(1)] x]
  obtain p' where p': "cache_line (cstr x) (p\<lparr>rfp := concat (a @ l # b)\<rparr>) = Inr p'" "tracks (W @ x) p'"
      "rfp p' = concat (a @ l # b)"
    using cache_line_tracks [OF Cons.prems(1) x] by blast
  have "\<exists>p''. puts_entry (Some k) p' = Inr (Some (starts (CHR ''['') (skipleading l)), p''\<lparr>rfp := concat b\<rparr>) \<and>
      tracks ((W @ x) @ concat a) p'' \<and> rfp p'' = l @ concat b"
    using Cons.prems p' c by (intro Cons.IH) auto
  then show ?case using Cons.prems(3) p'(1) x c by (subst puts_entry.simps) (simp add: fgets_lines)
qed

lemma copy_rest_tracks:
  assumes "tracks W p"
  shows "\<exists>p'. copy_rest p = Inr p' \<and> tracks (W @ rfp p) p' \<and> rfp p' = []"
  using assms
proof (induction "lines_of (rfp p)" arbitrary: W p)
  case Nil
  from Nil.hyps have "rfp p = []" by (metis lines_of_eq_Nil)
  with Nil.prems show ?case by (subst copy_rest.simps) (simp add: fgets_lines)
next
  case (Cons l ls)
  note l = Cons.hyps(2) [symmetric]
  obtain p' where p': "cache_line (cstr l) (p\<lparr>rfp := concat ls\<rparr>) = Inr p'" "tracks (W @ l) p'" "rfp p' = concat ls"
    using cache_line_tracks [OF Cons.prems(1) l] by blast
  have "\<exists>p''. copy_rest p' = Inr p'' \<and> tracks ((W @ l) @ rfp p') p'' \<and> rfp p'' = []"
    using p'(2,3) lines_of_concat_tl [OF l] by (intro Cons.hyps(1)) auto
  moreover have "rfp p = l @ concat ls" using l by (metis concat.simps(2) concat_lines_of)
  ultimately show ?case using p' l by (subst copy_rest.simps) (simp add: fgets_lines)
qed

end
