(* ===== verification/IniEdit.thy ===== *)
theory IniEdit
  imports IniLines
begin

text \<open>
  What \<open>ini_puts\<close> makes of a file, as a list of lines: with a good key, the file is the old one with
  one line replaced, inserted before the heading of the next section, or appended.
\<close>

section \<open>Rewriting, line by line\<close>

lemma line_in_text: "lines_of s = a @ l # b \<Longrightarrow> NUL \<notin> set s \<Longrightarrow> cstr l = l \<and> length l < INI_BUFFERSIZE"
proof -
  assume a: "lines_of s = a @ l # b" "NUL \<notin> set s"
  then have "lines_of (concat (l # b)) = l # b" by (metis lines_of_suffix)
  moreover have "NUL \<notin> set (concat (l # b))"
    using a by (metis UnCI concat_append concat_lines_of set_append)
  ultimately show ?thesis using cstr_line lines_of_line(2) by (fastforce simp: INI_BUFFERSIZE_def)
qed

text \<open>The heading that brings an entry into scope; without a section the entries start at once.\<close>

definition scoped :: "string \<Rightarrow> string list \<Rightarrow> bool" where
  "scoped s pre \<longleftrightarrow>
     (if s = [] then pre = []
      else pre \<noteq> [] \<and> (\<forall>x\<in>set (butlast pre). \<not> is_section s (skipleading x)) \<and> is_section s (skipleading (last pre)))"

lemma append_entry_tracks:
  assumes "tracks W p" "writekey k v = Inr e" "heading = Inr h"
  shows "\<exists>t. append_entry heading (Some k) (Some v) p = Inr (W @ t @ h @ e) \<and>
    (t = INI_LINETERM \<or> t = [] \<and> (\<exists>W'. W = W' @ INI_LINETERM))"
proof -
  obtain buf flag where f: "cache_flush p = Inr (buf, flag, \<lparr>rfp = rfp p, mark = rfp p, cachelen = 0, wfp = W\<rparr>)"
      "flag \<Longrightarrow> \<exists>W'. W = W' @ INI_LINETERM"
    using cache_flush_tracks [OF assms(1)] by metis
  then show ?thesis using assms(2,3) by (cases flag) (auto simp: append_entry_def new_entry_def)
qed

lemma replace_entry_appends:
  assumes t: "tracks W p" and n: "\<forall>l\<in>set (lines_of (rfp p)). \<not> stop_line k l" and e: "writekey k v = Inr e"
  shows "\<exists>t. replace_entry (Some k) (Some v) p = Inr (W @ rfp p @ t @ e) \<and>
    (t = INI_LINETERM \<or> t = [] \<and> (\<exists>W'. W @ rfp p = W' @ INI_LINETERM))"
proof -
  let ?p1 = "\<lparr>rfp = rfp p, mark = rfp p, cachelen = 0, wfp = W\<rparr>"
  obtain buf flag where f: "cache_flush p = Inr (buf, flag, ?p1)" using cache_flush_tracks [OF t] by metis
  obtain p3 where p3: "puts_entry (Some k) ?p1 = Inr (None, p3)" "tracks (W @ rfp p) p3"
    using puts_entry_none [OF tracks_flushed [OF tracks_no_NUL [OF t], of W], of k] n by auto
  show ?thesis using append_entry_tracks [OF p3(2) e, of "Inr []"] f p3(1) by (simp add: replace_entry_def)
qed

lemma replace_entry_inserts:
  assumes t: "tracks W p" and l: "lines_of (rfp p) = a @ l # b" "\<forall>x\<in>set a. \<not> stop_line k x" "stop_line k l"
    and e: "writekey k v = Inr e"
  shows "replace_entry (Some k) (Some v) p =
    Inr (W @ concat a @ e @ (if starts (CHR ''['') (skipleading l) then l else []) @ concat b)"
proof -
  let ?p1 = "\<lparr>rfp = rfp p, mark = rfp p, cachelen = 0, wfp = W\<rparr>"
  let ?flag = "starts (CHR ''['') (skipleading l)"
  obtain buf flag where f: "cache_flush p = Inr (buf, flag, ?p1)" using cache_flush_tracks [OF t] by metis
  have nul: "NUL \<notin> set (rfp p)" by (rule tracks_no_NUL [OF t])
  obtain p3 where p3: "puts_entry (Some k) ?p1 = Inr (Some ?flag, p3\<lparr>rfp := concat b\<rparr>)"
      "tracks (W @ concat a) p3" "rfp p3 = l @ concat b"
    using puts_entry_some [OF tracks_flushed [OF nul, of W], of a l b k] l by auto
  obtain buf2 flag2 where f2: "cache_flush p3 =
      Inr (buf2, flag2, \<lparr>rfp = l @ concat b, mark = l @ concat b, cachelen = 0, wfp = W @ concat a\<rparr>)"
    using cache_flush_tracks [OF p3(2)] p3(3) by metis
  have lb: "lines_of (l @ concat b) = l # b" using lines_of_suffix [OF l(1)] by simp
  have c: "cstr l = l" "length l < INI_BUFFERSIZE" using line_in_text [OF l(1) nul] by simp_all
  have nlb: "NUL \<notin> set (l @ concat b)" using tracks_no_NUL [OF p3(2)] p3(3) by simp
  define p7 where "p7 = (if ?flag then \<lparr>rfp = concat b, mark = l @ concat b, cachelen = length l, wfp = W @ concat a @ e\<rparr>
    else \<lparr>rfp = concat b, mark = concat b, cachelen = 0, wfp = W @ concat a @ e\<rparr>)"
  have "tracks (W @ concat a @ e @ (if ?flag then l else [])) p7"
    unfolding tracks_def p7_def using lb lines_of_concat_tl [OF lb] c nlb
    by (intro exI [of _ "if ?flag then [l] else []"]) (simp add: INI_BUFFERSIZE_def)
  moreover have "rfp p7 = concat b" by (simp add: p7_def)
  ultimately obtain p8 where p8: "copy_rest p7 = Inr p8" "tracks ((W @ concat a @ e @ (if ?flag then l else [])) @ concat b) p8"
    using copy_rest_tracks by metis
  obtain buf3 flag3 r3 where "cache_flush p8 = Inr (buf3, flag3, \<lparr>rfp = r3, mark = r3, cachelen = 0,
      wfp = (W @ concat a @ e @ (if ?flag then l else [])) @ concat b\<rparr>)"
    using cache_flush_tracks [OF p8(2)] by metis
  then show ?thesis
    using f p3(1) f2 e lb c p8(1) unfolding p7_def
    by (simp add: replace_entry_def cache_flush_rfp new_entry_def fgets_lines cache_accum_def Let_def split: if_splits)
qed

lemma scoped_found:
  assumes "tracks W p" "lines_of (rfp p) = pre @ rest" "scoped s pre" "s \<noteq> []"
  shows "\<exists>p'. puts_section s True p = Inr (True, p') \<and> tracks (W @ concat pre) p' \<and> rfp p' = concat rest"
proof -
  from assms(3,4) have "pre = butlast pre @ [last pre]" by (simp add: scoped_def)
  then show ?thesis
    using puts_section_some [OF assms(1), of "butlast pre" "last pre" rest s] assms
    by (metis append.assoc append_Cons append_Nil concat.simps(1) concat.simps(2) concat_append scoped_def append_Nil2)
qed

definition start_of :: "string \<Rightarrow> iniw" where
  "start_of contents = \<lparr>rfp = contents, mark = contents, cachelen = 0, wfp = []\<rparr>"

lemma start_of_tracks: "NUL \<notin> set contents \<Longrightarrow> tracks [] (start_of contents)"
  by (simp add: start_of_def tracks_flushed)

lemma rewrite_file_scope:
  assumes "NUL \<notin> set contents" "lines_of contents = pre @ rest" "scoped s pre"
  obtains p where "rewrite_file (Some s) (Some k) v contents = replace_entry (Some k) v p"
    "tracks (concat pre) p" "rfp p = concat rest"
proof (cases "s = []")
  case True
  then have "pre = []" using assms(3) by (simp add: scoped_def)
  then have "contents = concat rest" using assms(2) by (metis append_Nil concat_lines_of)
  then show thesis using that [of "start_of contents"] True start_of_tracks [OF assms(1)] \<open>pre = []\<close>
    by (simp add: rewrite_file_def start_of_def)
next
  case False
  then obtain p where "puts_section s True (start_of contents) = Inr (True, p)" "tracks (concat pre) p" "rfp p = concat rest"
    using scoped_found [OF start_of_tracks [OF assms(1)], of pre rest s] assms(2,3) by (auto simp: start_of_def)
  then show thesis using that [of p] False by (simp add: rewrite_file_def start_of_def)
qed

text \<open>What is put between the old text and an appended entry: a line terminator, unless it is there.\<close>

definition separates :: "string \<Rightarrow> string \<Rightarrow> bool" where
  "separates t contents \<longleftrightarrow> t = INI_LINETERM \<or> t = [] \<and> (\<exists>W. contents = W @ INI_LINETERM)"

lemma rewrite_new_section:
  assumes "NUL \<notin> set contents" "s \<noteq> []" "\<forall>l\<in>set (lines_of contents). \<not> is_section s (skipleading l)"
    and "writesection (Some s) = Inr h" "writekey k v = Inr e"
  shows "\<exists>t. rewrite_file (Some s) (Some k) (Some v) contents = Inr (contents @ t @ h @ e) \<and> separates t contents"
proof -
  obtain p where p: "puts_section s True (start_of contents) = Inr (False, p)" "tracks contents p"
    using puts_section_none [OF start_of_tracks [OF assms(1)], of s True] assms(3) by (auto simp: start_of_def)
  then show ?thesis using append_entry_tracks [OF p(2) assms(5,4)] assms(2)
    by (auto simp: rewrite_file_def start_of_def separates_def)
qed

lemma rewrite_appends:
  assumes "NUL \<notin> set contents" "lines_of contents = pre @ rest" "scoped s pre" "\<forall>l\<in>set rest. \<not> stop_line k l"
    and "writekey k v = Inr e"
  shows "\<exists>t. rewrite_file (Some s) (Some k) (Some v) contents = Inr (contents @ t @ e) \<and> separates t contents"
proof -
  obtain p where p: "rewrite_file (Some s) (Some k) (Some v) contents = replace_entry (Some k) (Some v) p"
    "tracks (concat pre) p" "rfp p = concat rest" using rewrite_file_scope [OF assms(1-3)] by metis
  have c: "contents = concat pre @ concat rest" using assms(2) by (metis concat_append concat_lines_of)
  show ?thesis using replace_entry_appends [OF p(2) _ assms(5)] p(1,3) lines_of_suffix [OF assms(2)] assms(4)
    by (auto simp: c separates_def)
qed

lemma rewrite_inserts:
  assumes "NUL \<notin> set contents" "lines_of contents = pre @ a @ l # b" "scoped s pre" "\<forall>x\<in>set a. \<not> stop_line k x"
    and "stop_line k l" "writekey k v = Inr e"
  shows "rewrite_file (Some s) (Some k) (Some v) contents =
    Inr (concat (pre @ a) @ e @ (if starts (CHR ''['') (skipleading l) then l else []) @ concat b)"
proof -
  obtain p where p: "rewrite_file (Some s) (Some k) (Some v) contents = replace_entry (Some k) (Some v) p"
    "tracks (concat pre) p" "rfp p = concat (a @ l # b)" using rewrite_file_scope [OF assms(1-3)] by metis
  show ?thesis using replace_entry_inserts [OF p(2) _ assms(4-6), of b] p(1,3) lines_of_suffix [OF assms(2)] by simp
qed

section \<open>Lines without the blanks around them\<close>

definition strip :: "string \<Rightarrow> string" where
  "strip l = skiptrailing (skipleading l)"

definition stripped :: "string list \<Rightarrow> string list" where
  "stripped ls = filter (\<lambda>l. l \<noteq> []) (map strip ls)"

definition view :: "string \<Rightarrow> string list" where
  "view contents = stripped (lines_of contents)"

lemma stripped_simps [simp]:
  "stripped [] = []" "stripped (l # ls) = (if strip l = [] then [] else [strip l]) @ stripped ls"
  "stripped (xs @ ys) = stripped xs @ stripped ys"
  by (simp_all add: stripped_def)

lemma skiptrailing_blank: "\<forall>c\<in>set bl. blank c \<Longrightarrow> skiptrailing (t @ bl) = skiptrailing t"
  unfolding skiptrailing_def rev_append by (subst dropWhile_append2) auto

lemma skiptrailing_split: "\<exists>bl. s = skiptrailing s @ bl \<and> (\<forall>c\<in>set bl. blank c)"
proof (intro exI conjI)
  show "s = skiptrailing s @ rev (takeWhile blank (rev s))"
    unfolding skiptrailing_def by (metis rev_append rev_rev_ident takeWhile_dropWhile_id)
  show "\<forall>c\<in>set (rev (takeWhile blank (rev s))). blank c" by (auto dest: set_takeWhileD)
qed

lemma skipleading_append: "skipleading (s @ t) = (if \<forall>c\<in>set s. blank c then skipleading t else skipleading s @ t)"
  by (auto simp: skipleading_def dropWhile_append1 dropWhile_append2 dropWhile_eq_Nil_conv dropWhile_append3)

lemma strip_append_blank: "\<forall>c\<in>set bl. blank c \<Longrightarrow> strip (l @ bl) = strip l"
proof -
  assume b: "\<forall>c\<in>set bl. blank c"
  then have "skipleading bl = []" by (simp add: skipleading_def dropWhile_eq_Nil_conv)
  moreover have "\<forall>c\<in>set l. blank c \<Longrightarrow> skipleading l = []" by (simp add: skipleading_def dropWhile_eq_Nil_conv)
  ultimately show ?thesis using skiptrailing_blank [OF b]
    by (auto simp: strip_def skipleading_append skiptrailing_def)
qed

lemma strip_blank: "\<forall>c\<in>set l. blank c \<Longrightarrow> strip l = []"
  by (simp add: strip_def skipleading_def skiptrailing_def dropWhile_eq_Nil_conv [THEN iffD2])

lemma strchr_append:
  "strchr c (s @ t) =
     (case strchr c s of
        Some i \<Rightarrow> Some i
      | None \<Rightarrow> (case strchr c t of Some i \<Rightarrow> Some (length s + i) | None \<Rightarrow> None))"
  by (induction s) (auto split: option.splits)

lemma strrchr_append: "strrchr c (s @ t) = (case strrchr c t of Some i \<Rightarrow> Some (length s + i) | None \<Rightarrow> strrchr c s)"
  by (induction s) (auto split: option.splits)

lemma strchr_None: "strchr c s = None \<longleftrightarrow> c \<notin> set s"
  by (induction s) auto

lemma strrchr_None: "strrchr c s = None \<longleftrightarrow> c \<notin> set s"
  by (induction s) (auto split: option.splits)

lemma strchr_Some: "strchr c s = Some i \<Longrightarrow> i < length s \<and> s ! i = c \<and> c \<notin> set (take i s)"
  by (induction s arbitrary: i) (auto split: if_splits)

lemma strrchr_less: "strrchr c s = Some i \<Longrightarrow> i < length s"
  by (induction s arbitrary: i) (auto split: if_splits option.splits)

lemma special_not_blank [simp]:
  "\<not> blank (CHR '']'')" "\<not> blank (CHR ''['')" "\<not> blank (CHR ''='')" "\<not> blank (CHR '':'')" "\<not> blank (CHR 0x22)"
  "\<not> blank (CHR '';'')" "\<not> blank (CHR ''#'')" "blank (CHR 0x0D)" "blank (CHR 0x0A)" "\<not> blank NUL"
  by (simp_all add: blank_def)

lemma not_in_blanks: "\<forall>c\<in>set bl. blank c \<Longrightarrow> \<not> blank d \<Longrightarrow> d \<notin> set bl"
  by auto

lemma starts_append_blank: "\<forall>c\<in>set bl. blank c \<Longrightarrow> \<not> blank d \<Longrightarrow> starts d (t @ bl) = starts d t"
  by (cases t; cases bl) (auto simp: starts_def)

lemma key_end_append_blank: "\<forall>c\<in>set bl. blank c \<Longrightarrow> key_end (t @ bl) = key_end t"
  using not_in_blanks [of bl "CHR ''=''"] not_in_blanks [of bl "CHR '':''"]
  by (auto simp: key_end_def strchr_append strchr_None [THEN iffD2] split: option.splits)

lemma key_end_less: "key_end t = Some ep \<Longrightarrow> ep < length t"
  by (auto simp: key_end_def split: option.splits dest: strchr_Some)

lemma length_skiptrailing: "length (skiptrailing s) \<le> length s"
  using length_dropWhile_le [of blank "rev s"] by (simp add: skiptrailing_def)

lemma key_line_append_blank: "\<forall>c\<in>set bl. blank c \<Longrightarrow> key_line k (t @ bl) = key_line k t"
proof -
  assume b: "\<forall>c\<in>set bl. blank c"
  have "key_matches (t @ bl) ep k' = key_matches t ep k'" if "key_end t = Some ep" for ep k'
    using key_end_less [OF that] length_skiptrailing [of "take ep t"]
    by (auto simp: key_matches_def strnicmp_eq_def)
  then show ?thesis using key_end_append_blank [OF b] by (auto simp: key_line_def split: option.splits)
qed

lemma is_section_append_blank: "\<forall>c\<in>set bl. blank c \<Longrightarrow> is_section s (t @ bl) = is_section s t"
proof -
  assume b: "\<forall>c\<in>set bl. blank c"
  have r: "strrchr (CHR '']'') (t @ bl) = strrchr (CHR '']'') t"
    using not_in_blanks [OF b, of "CHR '']''"] by (simp add: strrchr_append strrchr_None [THEN iffD2])
  have "strnicmp_eq (tl (t @ bl)) s (length s) = strnicmp_eq (tl t) s (length s)"
    if "strrchr (CHR '']'') t = Some ep" "ep - 1 = length s" "starts (CHR ''['') t" for ep
  proof -
    have "ep < length t" "t \<noteq> []" using strrchr_less [OF that(1)] by auto
    then have "length s \<le> length (tl t)" "tl (t @ bl) = tl t @ bl" using that(2) by auto
    then show ?thesis by (simp add: strnicmp_eq_def)
  qed
  then show ?thesis using starts_append_blank [OF b, of "CHR ''[''" t] r
    by (auto simp: is_section_def split: option.splits)
qed

lemma skipleading_strip: "\<exists>bl. skipleading l = strip l @ bl \<and> (\<forall>c\<in>set bl. blank c)"
  unfolding strip_def by (rule skiptrailing_split)

lemma strip_views:
  "is_section s (skipleading l) = is_section s (strip l)"
  "key_line k (skipleading l) = key_line k (strip l)"
  "key_end (skipleading l) = key_end (strip l)"
  "\<not> blank d \<Longrightarrow> starts d (skipleading l) = starts d (strip l)"
  using skipleading_strip [of l] is_section_append_blank key_line_append_blank key_end_append_blank starts_append_blank
  by metis+

text \<open>The value of an entry line, as copied into a buffer of \<open>n\<close> bytes.\<close>

definition line_value :: "nat \<Rightarrow> string \<Rightarrow> string outcome" where
  "line_value n sp =
     (let (v, quotes) = cleanstring (skipleading (drop (the (key_end sp) + 1) sp)) in ini_strncpy v n quotes)"

lemma strip_comment_append_blank:
  "\<forall>c\<in>set bl. blank c \<Longrightarrow> strip_comment b (y @ bl) = strip_comment b y \<or> strip_comment b (y @ bl) = strip_comment b y @ bl"
proof (induction b y rule: strip_comment.induct)
  case (1 isstring)
  have "strip_comment b bl = bl" for b using 1
  proof (induction bl arbitrary: b)
    case (Cons c bl)
    then have "c \<noteq> CHR 0x22" "c \<noteq> CHR '';''" "c \<noteq> CHR ''#''" "c \<noteq> CHR 0x5C" by (auto simp: blank_def)
    with Cons show ?case by simp
  qed simp
  then show ?case by simp
next
  case (2 isstring c cs)
  have q: "\<not> starts (CHR 0x22) bl" using 2(5) by (cases bl) (auto simp: starts_def)
  have s: "starts (CHR 0x22) (cs @ bl) = starts (CHR 0x22) cs" using 2(5) by (rule starts_append_blank) simp
  show ?case
    using 2 s by (cases "starts (CHR 0x22) cs") (auto simp: starts_def)
qed

lemma cleanstring_append_blank: "\<forall>c\<in>set bl. blank c \<Longrightarrow> cleanstring (y @ bl) = cleanstring y"
  using strip_comment_append_blank [of bl False y] skiptrailing_blank [of bl]
  by (auto simp: cleanstring_def striptrailing_def)

lemma line_value_strip:
  assumes "key_end (strip l) = Some ep"
  shows "line_value n (skipleading l) = line_value n (strip l)"
proof -
  obtain bl where bl: "skipleading l = strip l @ bl" "\<forall>c\<in>set bl. blank c" using skipleading_strip by blast
  have e: "key_end (skipleading l) = Some ep" using assms strip_views(3) by simp
  let ?x = "drop (ep + 1) (strip l)"
  have "drop (ep + 1) (skipleading l) = ?x @ bl" using bl(1) key_end_less [OF assms] by simp
  moreover have "cleanstring (skipleading (?x @ bl)) = cleanstring (skipleading ?x)"
  proof (cases "\<forall>c\<in>set ?x. blank c")
    case True
    then have "skipleading ?x = []" "skipleading bl = []" using bl(2) by (simp_all add: skipleading_def dropWhile_eq_Nil_conv)
    then show ?thesis using True by (simp add: skipleading_append)
  next
    case False
    then have "skipleading (?x @ bl) = skipleading ?x @ bl" unfolding skipleading_append by (rule if_not_P)
    then show ?thesis using cleanstring_append_blank [OF bl(2)] by simp
  qed
  ultimately show ?thesis by (simp add: line_value_def e assms)
qed

section \<open>Reading, line by line\<close>

lemma find_section_none:
  assumes "NUL \<notin> set r" "\<forall>l\<in>set (lines_of r). \<not> is_section s (skipleading l)" "- 1 \<le> idx"
  shows "find_section (Some s) (- 1) idx r = None"
  using assms
proof (induction "lines_of r" arbitrary: r idx)
  case Nil
  then show ?case by (subst find_section.simps) (simp add: fgets_lines)
next
  case (Cons l ls)
  note l = Cons.hyps(2) [symmetric] and c = cstr_line [OF Cons.prems(1) Cons.hyps(2) [symmetric]]
  have ih: "find_section (Some s) (- 1) i (concat ls) = None" if "- 1 \<le> i" for i
    using Cons.hyps(1) [of "concat ls" i] c Cons.prems(2) l that by simp
  have "\<not> is_section s (skipleading l)" using Cons.prems(2) l by simp
  then show ?case using ih Cons.prems(3) l c
    by (subst find_section.simps) (auto simp: fgets_lines is_section_def Let_def split: option.splits)
qed

lemma find_section_some:
  assumes "NUL \<notin> set r" "lines_of r = a @ l # b" "\<forall>x\<in>set a. \<not> is_section s (skipleading x)"
    and "is_section s (skipleading l)" "- 1 \<le> idx"
  shows "\<exists>sp ep i. find_section (Some s) (- 1) idx r = Some (sp, ep, i, concat b)"
  using assms
proof (induction a arbitrary: r idx)
  case Nil
  then have l: "lines_of r = l # b" by simp
  show ?case using Nil.prems(4) l cstr_line [OF Nil.prems(1) l]
    by (subst find_section.simps) (auto simp: fgets_lines is_section_def Let_def split: option.splits)
next
  case (Cons x a)
  then have x: "lines_of r = x # (a @ l # b)" by simp
  note c = cstr_line [OF Cons.prems(1) x]
  have ih: "\<exists>sp ep j. find_section (Some s) (- 1) i (concat (a @ l # b)) = Some (sp, ep, j, concat b)" if "- 1 \<le> i" for i
    using Cons.prems c that by (intro Cons.IH) auto
  have "\<not> is_section s (skipleading x)" using Cons.prems(3) by simp
  then show ?case using ih [of idx] ih [of "idx + 1"] Cons.prems(5) x c
    by (subst find_section.simps) (auto simp: fgets_lines is_section_def Let_def split: option.splits)
qed

lemma find_key_none:
  assumes "NUL \<notin> set r" "\<forall>l\<in>set (lines_of r). \<not> stop_line k l" "- 1 \<le> idx"
  shows "find_key (Some k) (- 1) idx r = None"
  using assms
proof (induction "lines_of r" arbitrary: r idx)
  case Nil
  then show ?case by (subst find_key.simps) (simp add: fgets_lines)
next
  case (Cons l ls)
  note l = Cons.hyps(2) [symmetric] and c = cstr_line [OF Cons.prems(1) Cons.hyps(2) [symmetric]]
  have ih: "find_key (Some k) (- 1) i (concat ls) = None" if "- 1 \<le> i" for i
    using Cons.hyps(1) [of "concat ls" i] c Cons.prems(2) l that by simp
  have "\<not> stop_line k l" using Cons.prems(2) l by simp
  then show ?case using ih Cons.prems(3) l c
    by (subst find_key.simps) (auto simp: fgets_lines key_line_def Let_def split: option.splits)
qed

lemma find_key_stop:
  assumes "NUL \<notin> set r" "lines_of r = a @ l # b" "\<forall>x\<in>set a. \<not> stop_line k x" "- 1 \<le> idx"
  shows "starts (CHR ''['') (skipleading l) \<Longrightarrow> find_key (Some k) (- 1) idx r = None"
    "\<not> starts (CHR ''['') (skipleading l) \<Longrightarrow> key_line (Some k) (skipleading l) \<Longrightarrow>
     \<not> starts (CHR '';'') (skipleading l) \<Longrightarrow> \<not> starts (CHR ''#'') (skipleading l) \<Longrightarrow>
     \<exists>i. find_key (Some k) (- 1) idx r =
       Some (skipleading l, the (key_end (skipleading l)), i, l @ concat b, concat b)"
  using assms
proof (induction a arbitrary: r idx)
  case Nil
  case 1
  then have l: "lines_of r = l # b" by simp
  show ?case using 1 l cstr_line [OF 1(2) l]
    by (subst find_key.simps) (auto simp: fgets_lines Let_def split: option.splits)
next
  case Nil
  case 2
  then have l: "lines_of r = l # b" by simp
  then have "r = l @ concat b" by (metis concat.simps(2) concat_lines_of)
  then show ?case using 2 l cstr_line [OF 2(5) l]
    by (subst find_key.simps) (auto simp: fgets_lines key_line_def Let_def split: option.splits)
next
  case (Cons x a)
  case 1
  then have x: "lines_of r = x # (a @ l # b)" by simp
  note c = cstr_line [OF 1(2) x]
  have ih: "find_key (Some k) (- 1) i (concat (a @ l # b)) = None" if "- 1 \<le> i" for i
    using 1 c that by (intro Cons.IH) auto
  have "\<not> stop_line k x" using 1 by simp
  then show ?case using ih 1(5) x c
    by (subst find_key.simps) (auto simp: fgets_lines key_line_def Let_def split: option.splits)
next
  case (Cons x a)
  case 2
  then have x: "lines_of r = x # (a @ l # b)" by simp
  note c = cstr_line [OF 2(5) x]
  have ih: "\<exists>j. find_key (Some k) (- 1) i (concat (a @ l # b)) =
      Some (skipleading l, the (key_end (skipleading l)), j, l @ concat b, concat b)" if "- 1 \<le> i" for i
    using 2 c that by (intro Cons.IH) auto
  have "\<not> stop_line k x" using 2 by simp
  then show ?case using ih [of idx] ih [of "idx + 1"] 2(8) x c
    by (subst find_key.simps) (auto simp: fgets_lines key_line_def Let_def split: option.splits)
qed

end
