(* ===== verification/IniMap.thy ===== *)
theory IniMap
  imports IniEdit
begin

text \<open>
  An INI file as a store of settings. The abstract file is the list of its stripped lines, with a
  lookup and an edit on that list; reading and writing are shown to refine them, quoting to be
  undone by reading, and so what was written to be what is read, without harm to other settings.
\<close>

section \<open>Lookup and edit\<close>

fun look_entry :: "string \<Rightarrow> string list \<Rightarrow> string option" where
  "look_entry k [] = None"
| "look_entry k (l # ls) =
     (if starts (CHR ''['') l then None else if key_line (Some k) l then Some l else look_entry k ls)"

fun look_section :: "string \<Rightarrow> string \<Rightarrow> string list \<Rightarrow> string option" where
  "look_section s k [] = None"
| "look_section s k (l # ls) = (if is_section s l then look_entry k ls else look_section s k ls)"

definition look :: "string \<Rightarrow> string \<Rightarrow> string list \<Rightarrow> string option" where
  "look s k ls = (if s = [] then look_entry k ls else look_section s k ls)"

fun edit_entry :: "string \<Rightarrow> string \<Rightarrow> string list \<Rightarrow> string list" where
  "edit_entry k e [] = [e]"
| "edit_entry k e (l # ls) =
     (if key_line (Some k) l then e # ls else if starts (CHR ''['') l then e # l # ls else l # edit_entry k e ls)"

fun edit_section :: "string \<Rightarrow> string \<Rightarrow> string \<Rightarrow> string \<Rightarrow> string list \<Rightarrow> string list" where
  "edit_section s k h e [] = [h, e]"
| "edit_section s k h e (l # ls) =
     (if is_section s l then l # edit_entry k e ls else l # edit_section s k h e ls)"

definition edit :: "string \<Rightarrow> string \<Rightarrow> string \<Rightarrow> string \<Rightarrow> string list \<Rightarrow> string list" where
  "edit s k h e ls = (if s = [] then edit_entry k e ls else edit_section s k h e ls)"

text \<open>Names the reader can tell from the rest of a line, and the heading and entry written for them.\<close>

definition good_key :: "string \<Rightarrow> bool" where
  "good_key k \<longleftrightarrow> k \<noteq> [] \<and> \<not> blank (hd k) \<and> \<not> blank (last k) \<and> hd k \<notin> {CHR ''['', CHR '';'', CHR ''#''} \<and>
     set k \<inter> {CHR ''='', CHR '':'', CHR 0x0A, NUL} = {}"

definition good_section :: "string \<Rightarrow> bool" where
  "good_section s \<longleftrightarrow> length s \<le> 507 \<and> set s \<inter> {CHR 0x0A, NUL} = {}"

definition same_name :: "string \<Rightarrow> string \<Rightarrow> bool" where
  "same_name a b \<longleftrightarrow> map lower a = map lower b"

definition heading_of :: "string \<Rightarrow> string" where
  "heading_of s = ''['' @ s @ '']''"

lemma of_char_char_of_32: "n \<le> 90 \<Longrightarrow> (of_char (char_of (n + 32) :: char) :: nat) = n + 32"
  by simp

lemma lower_special: "lower d = c \<Longrightarrow> c \<in> {CHR ''['', CHR '';'', CHR ''#''} \<Longrightarrow> d = c"
  by (auto simp: lower_def Let_def split: if_splits dest: arg_cong [where f = "of_char :: char \<Rightarrow> nat"])

lemma key_lineD:
  assumes "key_line (Some k) l"
  shows "k \<noteq> []" "l \<noteq> []" "map lower (take (length k) l) = map lower k" "lower (hd l) = lower (hd k)" "key_end l \<noteq> None"
proof -
  obtain ep where ep: "key_end l = Some ep" "key_matches l ep k" using assms by (auto simp: key_line_def split: option.splits)
  then show k: "k \<noteq> []" "map lower (take (length k) l) = map lower k"
    by (auto simp: key_matches_def strnicmp_eq_def)
  show l: "l \<noteq> []" using key_end_less [OF ep(1)] by auto
  show "lower (hd l) = lower (hd k)" using k l by (cases k; cases l) auto
  show "key_end l \<noteq> None" using ep by simp
qed

lemma key_line_good:
  assumes "key_line (Some k) l" "good_key k"
  shows "\<not> starts (CHR ''['') l" "\<not> starts (CHR '';'') l" "\<not> starts (CHR ''#'') l"
proof -
  have "hd k = hd l" if "hd l \<in> {CHR ''['', CHR '';'', CHR ''#''}"
    using that lower_special [of "hd k" "lower (hd l)"] key_lineD(4) [OF assms(1)]
    by (auto simp: lower_def)
  then show "\<not> starts (CHR ''['') l" "\<not> starts (CHR '';'') l" "\<not> starts (CHR ''#'') l"
    using assms(2) by (auto simp: good_key_def starts_def)
qed

lemma key_line_same: "key_line (Some k) l \<Longrightarrow> key_line (Some k') l \<Longrightarrow> same_name k k'"
  by (auto simp: key_line_def key_matches_def strnicmp_eq_def same_name_def split: option.splits)

lemma is_section_same: "is_section s l \<Longrightarrow> is_section s' l \<Longrightarrow> same_name s s'"
  by (auto simp: is_section_def strnicmp_eq_def same_name_def split: option.splits)

lemma is_section_starts: "is_section s l \<Longrightarrow> starts (CHR ''['') l"
  by (simp add: is_section_def)

subsection \<open>Reading after an edit\<close>

lemma look_entry_edit: "key_line (Some k) e \<Longrightarrow> \<not> starts (CHR ''['') e \<Longrightarrow> look_entry k (edit_entry k e ls) = Some e"
  by (induction ls) auto

lemma look_edit:
  assumes "key_line (Some k) e" "\<not> starts (CHR ''['') e" "is_section s h"
  shows "look s k (edit s k h e ls) = Some e"
proof -
  have "look_section s k (edit_section s k h e ls) = Some e"
    by (induction ls) (auto simp: assms look_entry_edit)
  then show ?thesis by (simp add: look_def edit_def assms look_entry_edit)
qed

lemma look_entry_edit_other:
  assumes "key_line (Some k) e" "\<not> same_name k k'" "\<not> starts (CHR ''['') e" "good_key k"
  shows "look_entry k' (edit_entry k e ls) = look_entry k' ls"
  using assms key_line_same key_line_good(1) by (induction ls) fastforce+

lemma look_section_edit_entry:
  assumes "good_key k" "\<not> starts (CHR ''['') e"
  shows "look_section s' k' (edit_entry k e ls) = look_section s' k' ls"
  using assms is_section_starts key_line_good by (induction ls) fastforce+

lemma look_entry_edit_section: "starts (CHR ''['') h \<Longrightarrow> look_entry k' (edit_section s k h e ls) = look_entry k' ls"
  using is_section_starts by (induction ls) auto

lemma look_edit_other:
  assumes k: "key_line (Some k) e" "good_key k" "\<not> starts (CHR ''['') e" and h: "is_section s h" "starts (CHR ''['') h"
    and d: "\<not> same_name s s' \<or> \<not> same_name k k'"
  shows "look s' k' (edit s k h e ls) = look s' k' ls"
proof -
  have 1: "look_section s' k' (edit_section s k h e ls) = look_section s' k' ls"
  proof (cases "same_name s s'")
    case True
    then have k': "\<not> same_name k k'" using d by simp
    have same: "is_section s l = is_section s' l" for l
      using True by (auto simp: is_section_def same_name_def strnicmp_eq_def split: option.splits)
        (metis length_map)+
    show ?thesis using h(1) k(3) k' key_line_same [OF k(1)] look_entry_edit_other [OF k(1) k' k(3,2)]
      by (induction ls) (auto simp: same)
  next
    case False
    then have "\<not> is_section s' l" if "is_section s l" for l using that is_section_same by blast
    then show ?thesis using h k(3) look_section_edit_entry [OF k(2,3)] look_entry_edit_section [OF h(2)] is_section_starts
      by (induction ls) auto
  qed
  show ?thesis
    using 1 look_section_edit_entry [OF k(2,3)] look_entry_edit_section [OF h(2)] look_entry_edit_other [OF k(1) _ k(3,2)] d
    by (auto simp: look_def edit_def same_name_def)
qed

section \<open>Refinement\<close>

lemma no_Nil [simp]: "\<not> is_section s []" "\<not> key_line k []" "\<not> starts c []" "key_end [] = None"
  by (simp_all add: is_section_def key_line_def key_end_def starts_def)

lemma section_stripped:
  assumes "\<forall>l\<in>set a. \<not> is_section s (skipleading l)"
  shows "look_section s k (stripped a @ ls) = look_section s k ls"
    "edit_section s k h e (stripped a @ ls) = stripped a @ edit_section s k h e ls"
  using assms by (induction a) (auto simp: strip_views)

lemma entry_stripped:
  assumes "\<forall>l\<in>set a. \<not> stop_line k l"
  shows "look_entry k (stripped a @ ls) = look_entry k ls" "edit_entry k e (stripped a @ ls) = stripped a @ edit_entry k e ls"
  using assms by (induction a) (auto simp: strip_views)

lemma scoped_stripped:
  assumes "scoped s pre"
  shows "look s k (stripped (pre @ rest)) = look_entry k (stripped rest)"
    "edit s k h e (stripped (pre @ rest)) = stripped pre @ edit_entry k e (stripped rest)"
proof -
  have "look_section s k (stripped (pre @ rest)) = look_entry k (stripped rest) \<and>
      edit_section s k h e (stripped (pre @ rest)) = stripped pre @ edit_entry k e (stripped rest)" if ne: "s \<noteq> []"
  proof -
    obtain a l where p: "pre = a @ [l]" using assms ne by (cases pre rule: rev_cases) (auto simp: scoped_def)
    have a: "\<forall>x\<in>set a. \<not> is_section s (skipleading x)" and l: "is_section s (strip l)"
      using assms ne by (auto simp: p scoped_def strip_views)
    have "strip l \<noteq> []" using l by auto
    then show ?thesis using section_stripped [OF a] l by (simp add: p)
  qed
  then show "look s k (stripped (pre @ rest)) = look_entry k (stripped rest)"
    "edit s k h e (stripped (pre @ rest)) = stripped pre @ edit_entry k e (stripped rest)"
    using assms by (auto simp: look_def edit_def scoped_def)
qed

text \<open>Where a file has a setting: no heading, a heading but no entry, or the line where the search ends.\<close>

lemma search_cases:
  obtains (no_heading) "s \<noteq> []" "\<forall>l\<in>set L. \<not> is_section s (skipleading l)"
  | (no_entry) pre rest where "L = pre @ rest" "scoped s pre" "\<forall>l\<in>set rest. \<not> stop_line k l"
  | (stopped) pre a l b where "L = pre @ a @ l # b" "scoped s pre" "\<forall>x\<in>set a. \<not> stop_line k x" "stop_line k l"
proof -
  have entry: thesis if "L = pre @ rest" "scoped s pre" for pre rest
  proof (cases "\<exists>l\<in>set rest. stop_line k l")
    case True
    then obtain a l b where "rest = a @ l # b" "stop_line k l" "\<forall>x\<in>set a. \<not> stop_line k x"
      using split_list_first_prop [of rest "stop_line k"] by blast
    then show thesis using stopped that by blast
  qed (use no_entry that in blast)
  show thesis
  proof (cases "s = []")
    case True
    then show thesis using entry [of "[]" L] by (simp add: scoped_def)
  next
    case False
    show thesis
    proof (cases "\<exists>l\<in>set L. is_section s (skipleading l)")
      case True
      then obtain a l b where "L = a @ l # b" "is_section s (skipleading l)" "\<forall>x\<in>set a. \<not> is_section s (skipleading x)"
        using split_list_first_prop [of L "\<lambda>l. is_section s (skipleading l)"] by blast
      then show thesis using entry [of "a @ [l]" b] False by (simp add: scoped_def)
    qed (use no_heading False in blast)
  qed
qed

lemma getkeystring_no_section:
  assumes "NUL \<notin> set contents" "s \<noteq> []" "\<forall>l\<in>set (lines_of contents). \<not> is_section s (skipleading l)"
  shows "getkeystring contents (Some s) (Some k) (- 1) (- 1) n = Inr None"
  using assms find_section_none [OF assms(1,3), of "- 1"] by (simp add: getkeystring_def)

lemma getkeystring_scope:
  assumes "NUL \<notin> set contents" "lines_of contents = pre @ rest" "scoped s pre"
  shows "getkeystring contents (Some s) (Some k) (- 1) (- 1) n =
    (case find_key (Some k) (- 1) (- 1) (concat rest) of
       None \<Rightarrow> Inr None
     | Some (sp, ep, idx, head, tail) \<Rightarrow>
         (let (v, quotes) = cleanstring (skipleading (drop (ep + 1) sp)) in
          andthen (ini_strncpy v n quotes) (\<lambda>b. Inr (Some (b, head, tail)))))"
proof (cases "s = []")
  case True
  then have "pre = []" using assms(3) by (simp add: scoped_def)
  then have "contents = concat rest" using assms(2) by (metis append_Nil concat_lines_of)
  then show ?thesis using True by (auto simp: getkeystring_def split: option.splits)
next
  case False
  then obtain a l where p: "pre = a @ [l]" using assms(3) by (cases pre rule: rev_cases) (auto simp: scoped_def)
  then obtain sp ep i where "find_section (Some s) (- 1) (- 1) contents = Some (sp, ep, i, concat rest)"
    using find_section_some [OF assms(1), of a l rest s "- 1"] assms(2,3) False by (auto simp: scoped_def)
  then show ?thesis using False by (auto simp: getkeystring_def split: option.splits)
qed

lemma scope_no_NUL: "lines_of contents = pre @ rest \<Longrightarrow> NUL \<notin> set contents \<Longrightarrow> NUL \<notin> set (concat rest)"
  by (metis UnCI concat_append concat_lines_of set_append)

lemma getkeystring_none:
  assumes "NUL \<notin> set contents" "look s k (view contents) = None" "good_key k"
  shows "getkeystring contents (Some s) (Some k) (- 1) (- 1) n = Inr None"
proof (cases rule: search_cases [where s = s and L = "lines_of contents" and k = k])
  case no_heading
  then show ?thesis using getkeystring_no_section assms by blast
next
  case (no_entry pre rest)
  then show ?thesis using getkeystring_scope [OF assms(1) no_entry(1,2)] find_key_none [of "concat rest" k "- 1"]
      scope_no_NUL [OF no_entry(1) assms(1)] lines_of_suffix [OF no_entry(1)] by simp
next
  case (stopped pre a l b)
  have "starts (CHR ''['') (skipleading l)"
  proof (rule ccontr)
    assume n: "\<not> starts (CHR ''['') (skipleading l)"
    then have "key_line (Some k) (strip l)" "strip l \<noteq> []" using stopped(4) strip_views(2) [of "Some k" l] by (auto simp: key_lineD)
    then have "look_entry k (stripped (l # b)) = Some (strip l)" using n by (simp add: strip_views)
    then show False using assms(2) scoped_stripped(1) [OF stopped(2), of k "a @ l # b"] entry_stripped(1) [OF stopped(3), of "stripped (l # b)"]
      unfolding view_def stopped(1) by simp
  qed
  then show ?thesis using getkeystring_scope [OF assms(1) stopped(1,2)] scope_no_NUL [OF stopped(1) assms(1)]
      lines_of_suffix [OF stopped(1)] find_key_stop(1) [of "concat (a @ l # b)" a l b k "- 1"] stopped(3) by simp
qed

lemma look_stop:
  assumes "scoped s pre" "\<forall>x\<in>set a. \<not> stop_line k x" "stop_line k l"
  shows "look s k (stripped (pre @ a @ l # b)) = (if starts (CHR ''['') (skipleading l) then None else Some (strip l))"
    "edit s k h e (stripped (pre @ a @ l # b)) =
       stripped (pre @ a) @ e # (if key_line (Some k) (strip l) then [] else [strip l]) @ stripped b"
proof -
  have "strip l \<noteq> []" using assms(3) by (auto simp: strip_views)
  then show "look s k (stripped (pre @ a @ l # b)) = (if starts (CHR ''['') (skipleading l) then None else Some (strip l))"
    "edit s k h e (stripped (pre @ a @ l # b)) =
       stripped (pre @ a) @ e # (if key_line (Some k) (strip l) then [] else [strip l]) @ stripped b"
    using scoped_stripped [OF assms(1), where rest = "a @ l # b"] entry_stripped [OF assms(2)] assms(3)
    by (auto simp: strip_views)
qed

lemma look_no_heading:
  "s \<noteq> [] \<Longrightarrow> \<forall>l\<in>set L. \<not> is_section s (skipleading l) \<Longrightarrow>
     look s k (stripped L) = None \<and> edit s k h e (stripped L) = stripped L @ [h, e]"
  using section_stripped(1) [of L s k "[]"] section_stripped(2) [of L s k h e "[]"] by (simp add: look_def edit_def)

lemma look_no_entry:
  "scoped s pre \<Longrightarrow> \<forall>l\<in>set rest. \<not> stop_line k l \<Longrightarrow>
     look s k (stripped (pre @ rest)) = None \<and> edit s k h e (stripped (pre @ rest)) = stripped (pre @ rest) @ [e]"
  using scoped_stripped [of s pre] entry_stripped(1) [of rest k "[]"] entry_stripped(2) [of rest k e "[]"] by simp

lemma getkeystring_some:
  assumes "NUL \<notin> set contents" "look s k (view contents) = Some v" "good_key k"
  obtains pre l b where "lines_of contents = pre @ l # b" "strip l = v"
    "\<And>n. getkeystring contents (Some s) (Some k) (- 1) (- 1) n =
       andthen (line_value n v) (\<lambda>t. Inr (Some (t, l @ concat b, concat b)))"
    "\<And>h e. edit s k h e (view contents) = stripped pre @ e # stripped b"
proof (cases rule: search_cases [where s = s and L = "lines_of contents" and k = k])
  case no_heading
  then show thesis using look_no_heading assms(2) by (simp add: view_def)
next
  case (no_entry pre rest)
  then show thesis using look_no_entry assms(2) unfolding view_def no_entry(1) by (metis option.distinct(1))
next
  case (stopped pre a l b)
  have ns: "\<not> starts (CHR ''['') (skipleading l)" and v: "strip l = v"
    using look_stop(1) [OF stopped(2-4)] assms(2) unfolding view_def stopped(1) by (auto split: if_splits)
  then have kl: "key_line (Some k) (skipleading l)" "key_line (Some k) (strip l)" using stopped(4) strip_views(2) by auto
  obtain ep where ep: "key_end (strip l) = Some ep" using key_lineD(5) [OF kl(2)] by blast
  obtain i where "find_key (Some k) (- 1) (- 1) (concat (a @ l # b)) =
      Some (skipleading l, the (key_end (skipleading l)), i, l @ concat b, concat b)"
    using find_key_stop(2) [of "concat (a @ l # b)" a l b k "- 1"] ns kl(1) key_line_good [OF kl(1) assms(3)] stopped(3)
      scope_no_NUL [OF stopped(1) assms(1)] lines_of_suffix [OF stopped(1)] by auto
  then have "getkeystring contents (Some s) (Some k) (- 1) (- 1) n =
      andthen (line_value n v) (\<lambda>t. Inr (Some (t, l @ concat b, concat b)))" for n
    using getkeystring_scope [OF assms(1) stopped(1,2)] line_value_strip [OF ep, of n]
    by (simp add: line_value_def v case_prod_beta)
  moreover have "edit s k h e (view contents) = stripped (pre @ a) @ e # stripped b" for h e
    using look_stop(2) [OF stopped(2-4)] kl(2) unfolding view_def stopped(1) by simp
  ultimately show thesis using that [of "pre @ a" l b] stopped(1) v by simp
qed

lemma complete_term: "length l \<le> 509 \<Longrightarrow> CHR 0x0A \<notin> set l \<Longrightarrow> complete (l @ INI_LINETERM)"
  by (auto simp: complete_def INI_LINETERM_def butlast_append)

lemma view_separated:
  assumes "separates t contents"
  shows "view (contents @ t @ x) = view contents @ view x"
proof (cases "lines_of contents" rule: rev_cases)
  case Nil
  then have [simp]: "contents = []" by simp
  have "complete INI_LINETERM" using complete_term [of "[]"] by simp
  moreover have "strip INI_LINETERM = []" by (intro strip_blank) (auto simp: INI_LINETERM_def)
  moreover have "t = INI_LINETERM" using assms by (auto simp: separates_def)
  ultimately show ?thesis by (simp add: view_def lines_of_complete)
next
  case (snoc ls l)
  have ls: "list_all complete ls" using lines_of_complete_init snoc by blast
  have cs: "contents = concat ls @ l" using snoc by (metis concat.simps concat_append concat_lines_of append_Nil2)
  have l: "lines_of l = [l]" using lines_of_suffix [OF snoc] by simp
  note lp = lines_of_line [OF l]
  have v: "view (contents @ t @ x) = stripped ls @ view (l @ t @ x)"
    using lines_of_concat_append [OF ls, of "l @ t @ x"] by (simp add: view_def cs)
  have v': "view contents = stripped ls @ stripped [l]" by (simp add: view_def snoc)
  have blank: "strip (l @ INI_LINETERM) = strip l" "strip (l @ [CHR 0x0D]) = strip l" "strip [CHR 0x0A] = []" "strip INI_LINETERM = []"
    by (intro strip_append_blank strip_blank; simp add: INI_LINETERM_def)+
  have "view (l @ t @ x) = stripped [l] @ view x"
  proof (cases "complete l")
    case True
    have "complete INI_LINETERM" using complete_term [of "[]"] by simp
    then show ?thesis using assms True blank by (auto simp: view_def lines_of_complete separates_def)
  next
    case False
    then have inc: "last l \<noteq> CHR 0x0A" "length l < 511" using lp by (auto simp: complete_def)
    then have nl: "CHR 0x0A \<notin> set l" using lp(1,3) by (metis append_butlast_last_id in_set_butlastD set_append Un_iff empty_iff empty_set set_ConsD)
    have t: "t = INI_LINETERM"
    proof (rule ccontr)
      assume "t \<noteq> INI_LINETERM"
      then obtain W where "concat ls @ l = W @ INI_LINETERM" using assms cs by (auto simp: separates_def)
      then have "last l = CHR 0x0A" using lp(1) by (metis INI_LINETERM_def last.simps last_appendR list.distinct(1))
      then show False using inc(1) by simp
    qed
    show ?thesis
    proof (cases "length l \<le> 509")
      case True
      then show ?thesis using lines_of_complete [OF complete_term [OF True nl], of x] blank by (simp add: t view_def)
    next
      case False
      then have "complete (l @ [CHR 0x0D])" "complete [CHR 0x0A]" using inc(2) nl by (auto simp: complete_def)
      then have "lines_of ((l @ [CHR 0x0D]) @ [CHR 0x0A] @ x) = (l @ [CHR 0x0D]) # [CHR 0x0A] # lines_of x"
        by (simp only: lines_of_complete)
      then show ?thesis using blank by (simp add: t view_def INI_LINETERM_def)
    qed
  qed
  with v v' show ?thesis by simp
qed

section \<open>Quoting\<close>

definition escaped :: "string \<Rightarrow> string" where
  "escaped v = concat (map (\<lambda>c. if c = CHR 0x22 then [CHR 0x5C, c] else [c]) v)"

definition quoted :: "string \<Rightarrow> string" where
  "quoted v = (if check_enquote v = QUOTE_ENQUOTE then CHR 0x22 # escaped v @ [CHR 0x22] else v)"

text \<open>
  Values that survive: printable, not starting with a blank unless they are quoted anyway, and
  short enough for the line.
\<close>

definition good_value :: "string \<Rightarrow> string \<Rightarrow> bool" where
  "good_value k v \<longleftrightarrow> (\<forall>c\<in>set v. 32 \<le> (of_char c :: nat)) \<and>
     (check_enquote v = QUOTE_ENQUOTE \<or> v = [] \<or> hd v \<noteq> CHR '' '') \<and> length k + length (quoted v) \<le> 508"

lemma escaped_simps [simp]:
  "escaped [] = []" "escaped (c # cs) = (if c = CHR 0x22 then [CHR 0x5C, c] else [c]) @ escaped cs"
  by (simp_all add: escaped_def)

lemma escaped_start [simp]: "\<not> starts (CHR 0x22) (escaped v)"
  by (cases v) (auto simp: starts_def)

lemma escaped_start_quote: "starts (CHR 0x22) (escaped v @ [CHR 0x22]) \<longleftrightarrow> v = []"
  by (cases v) (auto simp: starts_def)

lemma length_escaped: "length v \<le> length (escaped v)"
  by (induction v) auto

lemma enquote_escaped: "d + length (escaped v) \<le> m - 2 \<Longrightarrow> enquote m d v = escaped v"
  by (induction v arbitrary: d) auto

lemma dequote_escaped: "length v \<le> n \<Longrightarrow> dequote n (escaped v) = v"
proof (induction v arbitrary: n)
  case (Cons c v)
  then obtain m where n: "n = Suc m" "length v \<le> m" by (cases n) auto
  then show ?case using Cons.IH [OF n(2)] by (auto simp: starts_def) (metis escaped_start starts_def)
qed simp

lemma strip_comment_escaped: "strip_comment True (escaped v @ [CHR 0x22]) = escaped v @ [CHR 0x22]"
proof (induction v)
  case Nil
  then show ?case by (simp add: starts_def)
next
  case (Cons c v)
  show ?case
  proof (cases "v = [] \<and> c = CHR 0x5C")
    case True
    then show ?thesis by (simp add: starts_def)
  next
    case False
    then show ?thesis using Cons escaped_start_quote [of v]
      by (cases "c = CHR 0x22"; cases "c = CHR 0x5C") (auto simp: starts_def)
  qed
qed

lemma cleanstring_quoted: "v \<noteq> [] \<Longrightarrow> cleanstring (CHR 0x22 # escaped v @ [CHR 0x22]) = (escaped v, QUOTE_DEQUOTE)"
proof -
  assume "v \<noteq> []"
  then have "strip_comment False (CHR 0x22 # escaped v @ [CHR 0x22]) = CHR 0x22 # escaped v @ [CHR 0x22]"
    using strip_comment_escaped [of v] escaped_start_quote [of v] by simp
  then show ?thesis by (simp add: cleanstring_def striptrailing_def skiptrailing_def starts_def)
qed

lemma strip_comment_plain: "set v \<inter> {CHR 0x22, CHR '';'', CHR ''#''} = {} \<Longrightarrow> strip_comment b v = v"
proof (induction v)
  case (Cons c v)
  then have "\<not> starts (CHR 0x22) v" by (cases v) (auto simp: starts_def)
  with Cons show ?case by auto
qed simp

lemma cleanstring_plain:
  assumes "check_enquote v \<noteq> QUOTE_ENQUOTE" "\<forall>c\<in>set v. 32 \<le> (of_char c :: nat)"
  shows "cleanstring v = (v, QUOTE_NONE)"
proof -
  have p: "set v \<inter> {CHR 0x22, CHR '';'', CHR ''#''} = {}" and l: "v \<noteq> [] \<Longrightarrow> last v \<noteq> CHR '' ''"
    using assms(1) by (auto simp: check_enquote_def split: if_splits)
  have "skiptrailing v = v"
  proof (cases v rule: rev_cases)
    case (snoc u c)
    then have "c \<noteq> CHR '' ''" "32 \<le> (of_char c :: nat)" using l assms(2) by auto
    moreover have "(of_char c :: nat) = 32 \<Longrightarrow> c = CHR '' ''"
      using of_char_eq_iff [where 'a = nat, of c "CHR '' ''"] by simp
    ultimately have "\<not> blank c" by (auto simp: blank_def)
    then show ?thesis by (simp add: snoc skiptrailing_def)
  qed (simp add: skiptrailing_def)
  moreover have "\<not> starts (CHR 0x22) v" using p by (cases v) (auto simp: starts_def)
  ultimately show ?thesis using strip_comment_plain [OF p] by (simp add: cleanstring_def striptrailing_def)
qed

definition entry_of :: "string \<Rightarrow> string \<Rightarrow> string" where
  "entry_of k v = k @ ''='' @ quoted v"

lemma check_enquote_Nil: "check_enquote v = QUOTE_ENQUOTE \<Longrightarrow> v \<noteq> []"
  by (auto simp: check_enquote_def)

lemma check_enquote_cases: "check_enquote v = QUOTE_ENQUOTE \<or> check_enquote v = QUOTE_NONE"
  by (simp add: check_enquote_def)

lemma writekey_entry:
  assumes "good_value k v"
  shows "writekey k v = Inr (entry_of k v @ INI_LINETERM)"
proof -
  have len: "length k + length (quoted v) \<le> 508" using assms by (simp add: good_value_def)
  show ?thesis
  proof (cases "check_enquote v = QUOTE_ENQUOTE")
    case True
    have "0 < length (escaped v)" using check_enquote_Nil [OF True] length_escaped [of v] by (cases v) auto
    moreover have q: "quoted v = CHR 0x22 # escaped v @ [CHR 0x22]" using True by (simp add: quoted_def)
    ultimately have "3 \<le> 509 - length k" "1 + length (escaped v) \<le> 509 - length k - 2" using len by auto
    then show ?thesis using enquote_escaped [of 1 v "509 - length k"] len True q
      by (simp add: writekey_def ini_strncpy_def INI_BUFFERSIZE_def entry_of_def)
  next
    case False
    then have "check_enquote v = QUOTE_NONE" "quoted v = v" using check_enquote_cases by (auto simp: quoted_def)
    then show ?thesis using len by (simp add: writekey_def ini_strncpy_def INI_BUFFERSIZE_def entry_of_def)
  qed
qed

lemma printable_not_special: "32 \<le> (of_char c :: nat) \<Longrightarrow> c \<noteq> CHR 0x0A \<and> c \<noteq> NUL"
  by auto

lemma set_escaped: "set (escaped v) \<subseteq> insert (CHR 0x5C) (set v)"
  by (induction v) auto

lemma set_quoted: "set (quoted v) \<subseteq> set v \<union> {CHR 0x22, CHR 0x5C}"
  using set_escaped [of v] by (auto simp: quoted_def)

lemma quoted_printable: "good_value k v \<Longrightarrow> c \<in> set (quoted v) \<Longrightarrow> c \<noteq> CHR 0x0A \<and> c \<noteq> NUL"
  using set_quoted [of v] printable_not_special by (fastforce simp: good_value_def)

lemma entry_of_complete:
  assumes "good_key k" "good_value k v"
  shows "complete (entry_of k v @ INI_LINETERM)" "NUL \<notin> set (entry_of k v)"
proof -
  have n: "CHR 0x0A \<notin> set (entry_of k v) \<and> NUL \<notin> set (entry_of k v)"
    using assms(1) quoted_printable [OF assms(2)] by (auto simp: entry_of_def good_key_def)
  have "length (entry_of k v) \<le> 509" using assms(2) by (simp add: entry_of_def good_value_def)
  then show "complete (entry_of k v @ INI_LINETERM)" using complete_term n by blast
  show "NUL \<notin> set (entry_of k v)" using n by blast
qed

lemma skipleading_id: "s = [] \<or> \<not> blank (hd s) \<Longrightarrow> skipleading s = s"
  by (cases s) (auto simp: skipleading_def)

lemma skiptrailing_id: "s = [] \<or> \<not> blank (last s) \<Longrightarrow> skiptrailing s = s"
  by (cases s rule: rev_cases) (auto simp: skiptrailing_def)

lemma printable_blank: "32 \<le> (of_char c :: nat) \<Longrightarrow> c \<noteq> CHR '' '' \<Longrightarrow> \<not> blank c"
  using of_char_eq_iff [where 'a = nat, of c "CHR '' ''"] by (auto simp: blank_def)

lemma quoted_ends:
  assumes "good_value k v"
  shows "quoted v = [] \<or> \<not> blank (hd (quoted v))" "quoted v = [] \<or> \<not> blank (last (quoted v))"
proof -
  have "v = [] \<or> \<not> blank (hd v) \<and> \<not> blank (last v)" if "check_enquote v \<noteq> QUOTE_ENQUOTE"
  proof (cases "v = []")
    case False
    then have "last v \<noteq> CHR '' ''" using that by (auto simp: check_enquote_def split: if_splits)
    moreover have "hd v \<noteq> CHR '' ''" using assms that False by (auto simp: good_value_def)
    moreover have "\<forall>c\<in>set v. 32 \<le> (of_char c :: nat)" using assms by (simp add: good_value_def)
    ultimately show ?thesis using printable_blank False by simp
  qed simp
  then show "quoted v = [] \<or> \<not> blank (hd (quoted v))" "quoted v = [] \<or> \<not> blank (last (quoted v))"
    by (auto simp: quoted_def)
qed

lemma entry_of_strip:
  assumes "good_key k" "good_value k v"
  shows "strip (entry_of k v @ INI_LINETERM) = entry_of k v" "entry_of k v \<noteq> []"
proof -
  have "\<not> blank (hd (entry_of k v))" using assms(1) by (cases k) (auto simp: entry_of_def good_key_def)
  moreover have "\<not> blank (last (entry_of k v))" using quoted_ends(2) [OF assms(2)] by (auto simp: entry_of_def)
  ultimately have "strip (entry_of k v) = entry_of k v" by (simp add: strip_def skipleading_id skiptrailing_id)
  then show "strip (entry_of k v @ INI_LINETERM) = entry_of k v"
    using strip_append_blank [of INI_LINETERM] by (simp add: INI_LINETERM_def)
  show "entry_of k v \<noteq> []" by (simp add: entry_of_def)
qed

lemma key_of_line:
  assumes "good_key k"
  shows "key_end (k @ ''='' @ x) = Some (length k)" "key_line (Some k) (k @ ''='' @ x)" "\<not> starts (CHR ''['') (k @ ''='' @ x)"
proof -
  have "strchr (CHR ''='') k = None" using assms by (auto simp: strchr_None good_key_def)
  then show e: "key_end (k @ ''='' @ x) = Some (length k)" by (simp add: key_end_def strchr_append)
  show kl: "key_line (Some k) (k @ ''='' @ x)"
    using e assms skiptrailing_id [of k] by (simp add: key_line_def key_matches_def strnicmp_eq_def good_key_def)
  show "\<not> starts (CHR ''['') (k @ ''='' @ x)" by (rule key_line_good(1) [OF kl assms])
qed

lemmas entry_of_key = key_of_line [of _ "quoted v" for v, folded entry_of_def]

lemma entry_of_value:
  assumes "good_key k" "good_value k v" "length v < n"
  shows "line_value n (entry_of k v) = Inr v"
proof -
  have d: "skipleading (drop (the (key_end (entry_of k v)) + 1) (entry_of k v)) = quoted v"
    using entry_of_key(1) [OF assms(1), of v] skipleading_id [OF quoted_ends(1) [OF assms(2)]] by (simp add: entry_of_def)
  show ?thesis
  proof (cases "check_enquote v = QUOTE_ENQUOTE")
    case True
    then show ?thesis using d assms(3) cleanstring_quoted [OF check_enquote_Nil [OF True]] dequote_escaped [of v "n - 1"]
      by (simp add: line_value_def quoted_def ini_strncpy_def)
  next
    case False
    then show ?thesis using d assms cleanstring_plain [OF False]
      by (simp add: line_value_def quoted_def ini_strncpy_def good_value_def)
  qed
qed

lemma heading_of_section:
  assumes "good_section s" "s \<noteq> []"
  shows "writesection (Some s) = Inr (heading_of s @ INI_LINETERM)" "complete (heading_of s @ INI_LINETERM)"
    "strip (heading_of s @ INI_LINETERM) = heading_of s" "NUL \<notin> set (heading_of s)"
proof -
  show "writesection (Some s) = Inr (heading_of s @ INI_LINETERM)"
    using assms by (simp add: writesection_def ini_strncpy_def INI_BUFFERSIZE_def good_section_def heading_of_def)
  show "complete (heading_of s @ INI_LINETERM)"
    using assms by (intro complete_term) (auto simp: good_section_def heading_of_def)
  have "strip (heading_of s) = heading_of s" by (simp add: strip_def heading_of_def skipleading_id skiptrailing_id)
  then show "strip (heading_of s @ INI_LINETERM) = heading_of s"
    using strip_append_blank [of INI_LINETERM] by (simp add: INI_LINETERM_def)
  show "NUL \<notin> set (heading_of s)" using assms by (auto simp: good_section_def heading_of_def)
qed

lemma is_section_heading: "is_section s (heading_of s)" "starts (CHR ''['') (heading_of s)"
  by (simp_all add: is_section_def heading_of_def starts_def strrchr_append strnicmp_eq_def)

end
