(* ===== verification/IniStore.thy ===== *)
theory IniStore
  imports IniMap
begin

text \<open>
  The properties of the INI functions: what \<open>ini_puts\<close> wrote is what \<open>ini_gets\<close> reads, other settings
  keep their values, and any history of writes behaves like a map from case-insensitive names to
  values. The laws are collected in a locale, which the INI functions interpret.
\<close>

section \<open>The effect of a write\<close>

definition text_files :: "files \<Rightarrow> bool" where
  "text_files fs \<longleftrightarrow> (\<forall>f contents. fs f = Some contents \<longrightarrow> NUL \<notin> set contents)"

definition contents_of :: "string \<Rightarrow> files \<Rightarrow> string" where
  "contents_of fn fs = (case fs fn of None \<Rightarrow> [] | Some contents \<Rightarrow> contents)"

lemma view_lines: "list_all complete ls \<Longrightarrow> view (concat ls @ x) = stripped ls @ view x"
  by (simp add: view_def lines_of_concat_append)

lemma view_entry:
  "good_key k \<Longrightarrow> good_value k v \<Longrightarrow> view ((entry_of k v @ INI_LINETERM) @ x) = entry_of k v # view x"
  using lines_of_complete [OF entry_of_complete(1)] entry_of_strip by (simp add: view_def)

lemma view_heading:
  "good_section s \<Longrightarrow> s \<noteq> [] \<Longrightarrow> view ((heading_of s @ INI_LINETERM) @ x) = heading_of s # view x"
  using lines_of_complete [OF heading_of_section(2)] heading_of_section(3) by (simp add: view_def heading_of_def)

lemma stop_not_key:
  "good_key k \<Longrightarrow> stop_line k l \<Longrightarrow> starts (CHR ''['') (skipleading l) \<longleftrightarrow> \<not> key_line (Some k) (strip l)"
  using key_line_good(1) [of k "skipleading l"] strip_views(2) [of "Some k" l] by auto

lemma term_no_NUL: "NUL \<notin> set INI_LINETERM" "separates t c \<Longrightarrow> NUL \<notin> set t"
  by (auto simp: INI_LINETERM_def separates_def)

lemma rewrite_view:
  assumes "NUL \<notin> set contents" "good_section s" "good_key k" "good_value k v"
  shows "\<exists>new. rewrite_file (Some s) (Some k) (Some v) contents = Inr new \<and>
    view new = edit s k (heading_of s) (entry_of k v) (view contents) \<and> NUL \<notin> set new"
proof (cases rule: search_cases [where s = s and L = "lines_of contents" and k = k])
  case no_heading
  note h = heading_of_section [OF assms(2) no_heading(1)]
  obtain t where t: "rewrite_file (Some s) (Some k) (Some v) contents =
      Inr (contents @ t @ (heading_of s @ INI_LINETERM) @ (entry_of k v @ INI_LINETERM))" "separates t contents"
    using rewrite_new_section [OF assms(1) no_heading h(1) writekey_entry [OF assms(4)]] by auto
  have "view (contents @ t @ (heading_of s @ INI_LINETERM) @ (entry_of k v @ INI_LINETERM)) = view contents @ [heading_of s, entry_of k v]"
    using view_separated [OF t(2)] view_heading [OF assms(2) no_heading(1)] view_entry [OF assms(3,4), of "[]"] by (simp add: view_def)
  then show ?thesis
    using t look_no_heading [OF no_heading] assms(1) entry_of_complete(2) [OF assms(3,4)] h(4) term_no_NUL
    by (auto simp: view_def)
next
  case (no_entry pre rest)
  obtain t where t: "rewrite_file (Some s) (Some k) (Some v) contents =
      Inr (contents @ t @ (entry_of k v @ INI_LINETERM))" "separates t contents"
    using rewrite_appends [OF assms(1) no_entry writekey_entry [OF assms(4)]] by auto
  have "view (contents @ t @ (entry_of k v @ INI_LINETERM)) = view contents @ [entry_of k v]"
    using view_separated [OF t(2)] view_entry [OF assms(3,4), of "[]"] by (simp add: view_def)
  then show ?thesis
    using t look_no_entry [OF no_entry(2,3)] assms(1) entry_of_complete(2) [OF assms(3,4)] term_no_NUL
    by (auto simp: view_def no_entry(1))
next
  case (stopped pre a l b)
  let ?r = "(if starts (CHR ''['') (skipleading l) then l else []) @ concat b"
  have r: "rewrite_file (Some s) (Some k) (Some v) contents = Inr (concat (pre @ a) @ (entry_of k v @ INI_LINETERM) @ ?r)"
    using rewrite_inserts [OF assms(1) stopped writekey_entry [OF assms(4)]] .
  have c: "list_all complete (pre @ a)" using lines_of_complete_init [of contents "pre @ a" l b] stopped(1) by simp
  have "lines_of (concat b) = b" "lines_of (l @ concat b) = l # b"
    using lines_of_suffix [of contents "pre @ a @ [l]" b] lines_of_suffix [of contents "pre @ a" "l # b"] stopped(1) by simp_all
  moreover have "strip l \<noteq> []" using stopped(4) by (auto simp: strip_views)
  ultimately have "view ?r = (if key_line (Some k) (strip l) then [] else [strip l]) @ stripped b"
    using stop_not_key [OF assms(3) stopped(4)] by (simp add: view_def)
  then have "view (concat (pre @ a) @ (entry_of k v @ INI_LINETERM) @ ?r) = edit s k (heading_of s) (entry_of k v) (view contents)"
    using look_stop(2) [OF stopped(2-4)] unfolding view_lines [OF c] view_entry [OF assms(3,4)]
    by (simp add: view_def stopped(1))
  moreover have "NUL \<notin> set (concat (pre @ a)) \<and> NUL \<notin> set ?r"
    using assms(1) concat_lines_of [of contents] unfolding stopped(1) by auto
  ultimately show ?thesis using r entry_of_complete(2) [OF assms(3,4)] term_no_NUL(1) by auto
qed

lemma inplace_view:
  assumes "NUL \<notin> set contents" "look s k (view contents) = Some x" "good_section s" "good_key k" "good_value k v"
    and "lines_of contents = pre @ l # b" "\<And>h e. edit s k h e (view contents) = stripped pre @ e # stripped b"
  shows "view (take (length contents - length (l @ concat b)) contents @ (entry_of k v @ INI_LINETERM) @ concat b) =
      edit s k (heading_of s) (entry_of k v) (view contents) \<and>
    NUL \<notin> set (take (length contents - length (l @ concat b)) contents @ (entry_of k v @ INI_LINETERM) @ concat b)"
proof -
  have c: "contents = concat pre @ l @ concat b" using assms(6) by (metis concat.simps(2) concat_append concat_lines_of)
  have t: "take (length contents - length (l @ concat b)) contents = concat pre" by (simp add: c)
  have "lines_of (concat b) = b" using lines_of_suffix [of contents "pre @ [l]" b] assms(6) by simp
  moreover have "list_all complete pre" by (rule lines_of_complete_init [OF assms(6)])
  ultimately show ?thesis
    using assms(1,7) entry_of_complete(2) [OF assms(4,5)] term_no_NUL(1) view_entry [OF assms(4,5), of "concat b"]
    unfolding t by (simp add: view_lines) (auto simp: c view_def)
qed

text \<open>Either the file shows the edit, or it already had the value and is the same.\<close>

lemma ini_puts_effect:
  assumes fs: "text_files fs" and g: "good_section s" "good_key k" "good_value k v" and fn: "fn \<noteq> []" and w: "\<forall>f. writable f"
  shows "\<exists>fs' new. ini_puts writable (Some s) (Some k) (Some v) fn fs = Inr (1, fs') \<and> fs' fn = Some new \<and> text_files fs' \<and>
    (view new = edit s k (heading_of s) (entry_of k v) (view (contents_of fn fs)) \<or>
     fs' = fs \<and> (\<exists>x. look s k (view new) = Some x \<and> line_value INI_BUFFERSIZE x = Inr v))"
proof (cases "fs fn")
  case None
  have "view ((entry_of k v @ INI_LINETERM) @ []) = [entry_of k v]"
    using view_entry [OF g(2,3), of "[]"] by (simp add: view_def)
  moreover have "s \<noteq> [] \<Longrightarrow> view ((heading_of s @ INI_LINETERM) @ entry_of k v @ INI_LINETERM) = [heading_of s, entry_of k v]"
    using view_heading [OF g(1), of "entry_of k v @ INI_LINETERM"] calculation by simp
  moreover have "writesection (Some []) = Inr []" by (simp add: writesection_def)
  ultimately show ?thesis
    using None w writekey_entry [OF g(3)] heading_of_section [OF g(1)] entry_of_complete(2) [OF g(2,3)] term_no_NUL(1) fs
    by (cases "s = []") (auto simp: ini_puts_def text_files_def contents_of_def view_def edit_def)
next
  case (Some contents)
  have c: "NUL \<notin> set contents" "contents_of fn fs = contents" using fs Some by (auto simp: text_files_def contents_of_def)
  obtain new where new: "rewrite_file (Some s) (Some k) (Some v) contents = Inr new"
      "view new = edit s k (heading_of s) (entry_of k v) (view contents)" "NUL \<notin> set new"
    using rewrite_view [OF c(1) g] by blast
  obtain tmp where tmp: "ini_tempname fn INI_BUFFERSIZE = Inr tmp"
    using fn by (cases fn) (auto simp: ini_tempname_def ini_strncpy_def INI_BUFFERSIZE_def)
  have tf: "text_files ((fs(tmp := None))(fn \<mapsto> new))" using fs new(3) by (auto simp: text_files_def)
  show ?thesis
  proof (cases "look s k (view contents)")
    case None
    then show ?thesis using Some getkeystring_none [OF c(1) None g(2)] new tmp tf w c(2)
      by (auto simp: ini_puts_def)
  next
    case look: (Some x)
    obtain pre l b where x: "lines_of contents = pre @ l # b" "strip l = x"
        "\<And>n. getkeystring contents (Some s) (Some k) (- 1) (- 1) n =
           andthen (line_value n x) (\<lambda>t. Inr (Some (t, l @ concat b, concat b)))"
        "\<And>h e. edit s k h e (view contents) = stripped pre @ e # stripped b"
      using getkeystring_some [OF c(1) look g(2)] by metis
    obtain old where old: "line_value INI_BUFFERSIZE x = Inr old"
      by (cases "cleanstring (skipleading (drop (the (key_end x) + 1) x))") (auto simp: line_value_def ini_strncpy_def INI_BUFFERSIZE_def)
    note ip = inplace_view [OF c(1) look g x(1,4)]
    show ?thesis
      using Some x(3) [of INI_BUFFERSIZE] old writekey_entry [OF g(3)] new tmp tf w c(2) ip look fs
      by (auto simp: ini_puts_def text_files_def)
  qed
qed

section \<open>Reading\<close>

lemma ini_gets_look:
  assumes "text_files fs" "good_key k" "0 < n"
  shows "ini_gets (Some s) (Some k) d n fn fs =
    (case look s k (view (contents_of fn fs)) of
       None \<Rightarrow> Inr (Some (take (nat n - 1) (case d of None \<Rightarrow> [] | Some x \<Rightarrow> x)))
     | Some x \<Rightarrow> andthen (line_value (nat n) x) (\<lambda>b. Inr (Some b)))"
proof (cases "fs fn")
  case None
  then show ?thesis using assms(3) by (simp add: ini_gets_def contents_of_def view_def look_def ini_strncpy_def)
next
  case (Some contents)
  then have c: "NUL \<notin> set contents" "contents_of fn fs = contents" using assms(1) by (auto simp: text_files_def contents_of_def)
  show ?thesis
  proof (cases "look s k (view contents)")
    case None
    then show ?thesis using Some assms(3) getkeystring_none [OF c(1) None assms(2)] c(2)
      by (simp add: ini_gets_def ini_strncpy_def)
  next
    case look: (Some x)
    obtain h t where "getkeystring contents (Some s) (Some k) (- 1) (- 1) (nat n) = andthen (line_value (nat n) x) (\<lambda>v. Inr (Some (v, h, t)))"
      using getkeystring_some [OF c(1) look assms(2)] by metis
    then show ?thesis using Some assms(3) look c(2) by (cases "line_value (nat n) x") (simp_all add: ini_gets_def)
  qed
qed

lemma dequote_take_le: "length x \<le> m \<Longrightarrow> dequote n x = take n (dequote m x)"
proof (induction n x arbitrary: m rule: dequote.induct)
  case (3 n c cs)
  then obtain m' where "m = Suc m'" "length cs \<le> m'" "length (tl cs) \<le> m'" by (cases m) auto
  with 3 show ?case by simp
qed simp_all

lemma dequote_take: "dequote n x = take n (dequote (length x) x)"
  by (rule dequote_take_le) simp

lemma length_dequote: "length (dequote j z) \<le> length z"
  by (induction j z rule: dequote.induct) (auto simp: le_SucI)

lemma length_strip_comment: "length (strip_comment b s) \<le> length s"
proof (induction b s rule: strip_comment.induct)
  case (2 isstring c cs)
  have "starts (CHR 0x22) cs \<Longrightarrow> Suc (length (tl cs)) = length cs" by (cases cs) (auto simp: starts_def)
  with 2 show ?case by auto
qed simp

lemma length_cleanstring: "cleanstring s = (v, q) \<Longrightarrow> length v \<le> length s \<and> q \<noteq> QUOTE_ENQUOTE"
  using length_strip_comment [of False s] length_skiptrailing [of "strip_comment False s"]
  by (auto simp: cleanstring_def striptrailing_def Let_def split: if_splits)

lemma line_value_shorter:
  assumes "line_value INI_BUFFERSIZE x = Inr v" "length x \<le> 511" "length v < n"
  shows "line_value n x = Inr v"
proof -
  obtain t q where t: "cleanstring (skipleading (drop (the (key_end x) + 1) x)) = (t, q)" by fastforce
  have "length (skipleading (drop (the (key_end x) + 1) x)) \<le> 511"
    using assms(2) length_dropWhile_le [of blank "drop (the (key_end x) + 1) x"] by (simp add: skipleading_def)
  then have l: "length t \<le> 511" "q \<noteq> QUOTE_ENQUOTE" using length_cleanstring [OF t] by auto
  show ?thesis
  proof (cases q)
    case QUOTE_NONE
    then show ?thesis using assms t l by (simp add: line_value_def ini_strncpy_def INI_BUFFERSIZE_def)
  next
    case QUOTE_DEQUOTE
    then have v: "v = dequote 511 t" using assms(1) t by (simp add: line_value_def ini_strncpy_def INI_BUFFERSIZE_def)
    also have "\<dots> = dequote (length t) t" using dequote_take [of 511 t] length_dequote [of "length t" t] l(1) by simp
    finally have "dequote (n - 1) t = v" using dequote_take [of "n - 1" t] assms(3) by simp
    then show ?thesis using QUOTE_DEQUOTE t assms(3) by (simp add: line_value_def ini_strncpy_def)
  next
    case QUOTE_ENQUOTE
    then show ?thesis using l by simp
  qed
qed

lemma look_in: "look s k ls = Some x \<Longrightarrow> x \<in> set ls"
proof -
  have e: "look_entry k ls = Some x \<Longrightarrow> x \<in> set ls" for ls by (induction ls) (auto split: if_splits)
  then have "look_section s k ls = Some x \<Longrightarrow> x \<in> set ls" by (induction ls) (auto split: if_splits)
  with e show "look s k ls = Some x \<Longrightarrow> x \<in> set ls" by (auto simp: look_def split: if_splits)
qed

lemma view_length: "x \<in> set (view contents) \<Longrightarrow> length x \<le> 511"
proof -
  have "length l \<le> 511" if m: "l \<in> set (lines_of contents)" for l
  proof -
    obtain a b where "lines_of contents = a @ l # b" using split_list [OF m] by blast
    then have "lines_of (concat (l # b)) = l # b" by (metis lines_of_suffix)
    then show ?thesis by (rule lines_of_line(2))
  qed
  moreover have "length (strip l) \<le> length l" for l
    unfolding strip_def skipleading_def using length_skiptrailing length_dropWhile_le by (metis order_trans)
  ultimately show "x \<in> set (view contents) \<Longrightarrow> length x \<le> 511"
    by (fastforce simp: view_def stripped_def intro: order_trans)
qed

section \<open>The laws of a settings store\<close>

text \<open>
  What a client relies on: a write succeeds and keeps the store in order, the name that was written
  reads as the value, and every other name reads as before. \<open>same\<close> says which names are one.
\<close>

fun put_all :: "('k \<Rightarrow> 'v \<Rightarrow> 'f \<Rightarrow> 'f outcome) \<Rightarrow> ('k \<times> 'v) list \<Rightarrow> 'f \<Rightarrow> 'f outcome" where
  "put_all put [] f = Inr f"
| "put_all put ((k, v) # kvs) f = andthen (put k v f) (put_all put kvs)"

fun last_value :: "('k \<Rightarrow> 'k \<Rightarrow> bool) \<Rightarrow> 'k \<Rightarrow> ('k \<times> 'v) list \<Rightarrow> 'v option" where
  "last_value same k' [] = None"
| "last_value same k' ((k, v) # kvs) =
     (case last_value same k' kvs of Some w \<Rightarrow> Some w | None \<Rightarrow> if same k k' then Some v else None)"

locale settings_store =
  fixes valid :: "'f \<Rightarrow> bool" and put :: "'k \<Rightarrow> 'v \<Rightarrow> 'f \<Rightarrow> 'f outcome" and get :: "'f \<Rightarrow> 'k \<Rightarrow> 'r"
    and shows_value :: "'v \<Rightarrow> 'r \<Rightarrow> bool" and same :: "'k \<Rightarrow> 'k \<Rightarrow> bool" and ok :: "'k \<Rightarrow> 'v \<Rightarrow> bool"
    and readable :: "'k \<Rightarrow> bool"
  assumes put_valid: "valid f \<Longrightarrow> ok k v \<Longrightarrow> \<exists>f'. put k v f = Inr f' \<and> valid f'"
    and get_put: "valid f \<Longrightarrow> ok k v \<Longrightarrow> put k v f = Inr f' \<Longrightarrow> readable k' \<Longrightarrow> same k k' \<Longrightarrow> shows_value v (get f' k')"
    and get_put_other: "valid f \<Longrightarrow> ok k v \<Longrightarrow> put k v f = Inr f' \<Longrightarrow> readable k' \<Longrightarrow> \<not> same k k' \<Longrightarrow> get f' k' = get f k'"
begin

lemma put_all_last:
  assumes "valid f" "\<forall>(k, v)\<in>set kvs. ok k v"
  shows "\<exists>f'. put_all put kvs f = Inr f' \<and> valid f' \<and>
    (\<forall>k'. readable k' \<longrightarrow> (case last_value same k' kvs of Some v \<Rightarrow> shows_value v (get f' k') | None \<Rightarrow> get f' k' = get f k'))"
  using assms
proof (induction kvs arbitrary: f)
  case (Cons kv kvs)
  obtain k v where kv: "kv = (k, v)" by fastforce
  then obtain f1 where f1: "put k v f = Inr f1" "valid f1" using put_valid Cons.prems by fastforce
  then obtain f' where f': "put_all put kvs f1 = Inr f'" "valid f'"
      "\<forall>k'. readable k' \<longrightarrow> (case last_value same k' kvs of Some v \<Rightarrow> shows_value v (get f' k') | None \<Rightarrow> get f' k' = get f1 k')"
    using Cons.IH [of f1] Cons.prems(2) by auto
  have "case last_value same k' (kv # kvs) of Some w \<Rightarrow> shows_value w (get f' k') | None \<Rightarrow> get f' k' = get f k'" if "readable k'" for k'
    using that f'(3) [rule_format, of k'] get_put [OF Cons.prems(1) _ f1(1), of k'] get_put_other [OF Cons.prems(1) _ f1(1), of k'] Cons.prems(2)
    by (auto simp: kv split: option.splits)
  then show ?case using f' f1 kv by auto
qed simp

end

section \<open>Writing and reading back\<close>

lemma key_line_cong: "same_name k k' \<Longrightarrow> key_line (Some k) l = key_line (Some k') l"
proof -
  assume s: "same_name k k'"
  then have "length k = length k'" unfolding same_name_def by (metis length_map)
  with s show ?thesis by (auto simp: key_line_def key_matches_def strnicmp_eq_def same_name_def split: option.splits)
qed

lemma is_section_cong: "same_name s s' \<Longrightarrow> is_section s l = is_section s' l"
proof -
  assume s: "same_name s s'"
  then have "length s = length s'" unfolding same_name_def by (metis length_map)
  with s show ?thesis by (auto simp: is_section_def strnicmp_eq_def same_name_def split: option.splits)
qed

lemma look_cong:
  assumes "same_name s s'" "same_name k k'"
  shows "look s k ls = look s' k' ls"
proof -
  have e: "look_entry k ls = look_entry k' ls" for ls by (induction ls) (auto simp: key_line_cong [OF assms(2)])
  have "look_section s k ls = look_section s' k' ls" by (induction ls) (auto simp: e is_section_cong [OF assms(1)])
  moreover have "s = [] \<longleftrightarrow> s' = []" using assms(1) by (auto simp: same_name_def)
  ultimately show ?thesis using e by (simp add: look_def)
qed

lemma ini_puts_laws:
  assumes "text_files fs" "good_section s" "good_key k" "good_value k v" "fn \<noteq> []" "\<forall>f. writable f"
  obtains fs' where "ini_puts writable (Some s) (Some k) (Some v) fn fs = Inr (1, fs')" "text_files fs'"
    "\<And>s' k' d n. good_key k' \<Longrightarrow> same_name s s' \<Longrightarrow> same_name k k' \<Longrightarrow> int (length v) < n \<Longrightarrow>
       ini_gets (Some s') (Some k') d n fn fs' = Inr (Some v)"
    "\<And>s' k' d n. good_key k' \<Longrightarrow> \<not> same_name s s' \<or> \<not> same_name k k' \<Longrightarrow>
       ini_gets (Some s') (Some k') d n fn fs' = ini_gets (Some s') (Some k') d n fn fs"
proof -
  let ?e = "entry_of k v" and ?h = "heading_of s"
  obtain fs' new where p: "ini_puts writable (Some s) (Some k) (Some v) fn fs = Inr (1, fs')" "fs' fn = Some new" "text_files fs'"
    and eff: "view new = edit s k ?h ?e (view (contents_of fn fs)) \<or>
      fs' = fs \<and> (\<exists>x. look s k (view new) = Some x \<and> line_value INI_BUFFERSIZE x = Inr v)"
    using ini_puts_effect [OF assms] by blast
  note key = entry_of_key [OF assms(3), of v]
  have new: "contents_of fn fs' = new" using p(2) by (simp add: contents_of_def)
  have val: "\<exists>x. look s k (view new) = Some x \<and> line_value n x = Inr v" if n: "length v < n" for n
    using eff
  proof
    assume "view new = edit s k ?h ?e (view (contents_of fn fs))"
    then show ?thesis using look_edit [OF key(2,3) is_section_heading(1)] entry_of_value [OF assms(3,4) n] by simp
  next
    assume "fs' = fs \<and> (\<exists>x. look s k (view new) = Some x \<and> line_value INI_BUFFERSIZE x = Inr v)"
    then show ?thesis using line_value_shorter view_length look_in n by blast
  qed
  show thesis
  proof (rule that [OF p(1,3)])
    fix s' k' :: string and d and n :: int
    assume k': "good_key k'"
    {
      assume s: "same_name s s'" "same_name k k'" and n: "int (length v) < n"
      then have "length v < nat n" "0 < n" by auto
      then show "ini_gets (Some s') (Some k') d n fn fs' = Inr (Some v)"
        using val [of "nat n"] ini_gets_look [OF p(3) k'] look_cong [OF s] new by auto
    next
      assume o: "\<not> same_name s s' \<or> \<not> same_name k k'"
      have "look s' k' (view new) = look s' k' (view (contents_of fn fs))"
        using eff look_edit_other [OF key(2) assms(3) key(3) is_section_heading o] new by auto
      then show "ini_gets (Some s') (Some k') d n fn fs' = ini_gets (Some s') (Some k') d n fn fs"
        using ini_gets_look [OF p(3) k'] ini_gets_look [OF assms(1) k'] new
        by (cases "0 < n") (simp_all add: ini_gets_def)
    }
  qed
qed



definition ex_files :: files where
  "ex_files = [''f'' \<mapsto> ''[wifi]\<newline>ssid=home\<newline>psk=none\<newline>[time]\<newline>posixtz=UTC\<newline>'']"

lemma ex_text_files: "text_files ex_files"
  by (simp add: text_files_def ex_files_def)

lemma ex_same: "same_name ''wifi'' ''WiFi''" "same_name ''psk'' ''PSK''"
  by code_simp+

lemmas good_defs = good_section_def good_key_def good_value_def quoted_def escaped_def check_enquote_def same_name_def blank_def lower_def



text \<open>
  A value that starts with a blank but needs no quotes for another reason is written as it is
  and read back without the blank.
\<close>

theorem leading_blank_is_lost:
  assumes k: "good_key k" and v: "good_value k v" "v \<noteq> []" "check_enquote v = QUOTE_NONE" "length k + length v < 508"
    and fs: "text_files fs" "fs fn = None" "writable fn" and n: "int (length v) < n"
  shows "\<exists>fs'. ini_puts writable (Some []) (Some k) (Some (CHR '' '' # v)) fn fs = Inr (1, fs') \<and>
    ini_gets (Some []) (Some k) d n fn fs' = Inr (Some v)"
proof -
  let ?v = "CHR '' '' # v" and ?e = "k @ ''='' @ CHR '' '' # v"
  have c: "check_enquote ?v = QUOTE_NONE" using v(2,3) by (auto simp: check_enquote_def split: if_splits)
  have q: "quoted v = v" using v(3) by (simp add: quoted_def)
  have w: "writekey k ?v = Inr (?e @ INI_LINETERM)"
    using c v(4) by (simp add: writekey_def ini_strncpy_def INI_BUFFERSIZE_def)
  have special: "CHR 0x0A \<notin> set ?e" "NUL \<notin> set ?e"
    using k quoted_printable [OF v(1)] q by (auto simp: good_key_def)
  have "complete (?e @ INI_LINETERM)" using v(4) special(1) by (intro complete_term) simp_all
  moreover have "strip (?e @ INI_LINETERM) = ?e"
  proof -
    have "\<not> blank (hd ?e)" using k by (cases k) (auto simp: good_key_def)
    moreover have "\<not> blank (last ?e)" using quoted_ends(2) [OF v(1)] q v(2) by simp
    ultimately have "strip ?e = ?e" by (simp add: strip_def skipleading_id skiptrailing_id)
    then show ?thesis using strip_append_blank [of INI_LINETERM ?e] by (simp add: INI_LINETERM_def)
  qed
  ultimately have vw: "view (?e @ INI_LINETERM) = [?e]"
    using lines_of_complete [of "?e @ INI_LINETERM" "[]"] unfolding view_def by simp
  note key = key_of_line [OF k, of "CHR '' '' # v"]
  have "skipleading (drop (length k + 1) ?e) = v"
    using quoted_ends(1) [OF v(1)] q v(2) by (cases v) (auto simp: skipleading_def blank_def)
  then have "line_value (nat n) ?e = Inr v"
    using key(1) cleanstring_plain [of v] v n by (simp add: line_value_def good_value_def ini_strncpy_def)
  moreover have "look [] k (view (?e @ INI_LINETERM)) = Some ?e" unfolding vw look_def using key by simp
  moreover have tf: "text_files (fs(fn \<mapsto> ?e @ INI_LINETERM))" using fs(1) special(2) term_no_NUL(1) by (auto simp: text_files_def)
  ultimately have "ini_gets (Some []) (Some k) d n fn (fs(fn \<mapsto> ?e @ INI_LINETERM)) = Inr (Some v)"
    using ini_gets_look [OF tf k, of n "[]" d fn] n by (simp add: contents_of_def)
  moreover have "ini_puts writable (Some []) (Some k) (Some ?v) fn fs = Inr (1, fs(fn \<mapsto> ?e @ INI_LINETERM))"
    using fs(2,3) w by (simp add: ini_puts_def writesection_def)
  ultimately show ?thesis by blast
qed

theorem leading_blank_is_lost_witness:
  "\<exists>fs'. ini_puts (\<lambda>_. True) (Some []) (Some ''name'') (Some '' x'') ''g'' ex_files = Inr (1, fs') \<and>
     ini_gets (Some []) (Some ''name'') None 64 ''g'' fs' = Inr (Some ''x'')"
  by (rule leading_blank_is_lost [OF _ _ _ _ _ ex_text_files]) (simp_all add: good_defs ex_files_def)

section \<open>Numbers\<close>

lemma digit_value_digit: "d < 10 \<Longrightarrow> digit_value (char_of (48 + d)) = Some d"
  by (simp add: digit_value_def)

definition decimal :: "string \<Rightarrow> bool" where
  "decimal s \<longleftrightarrow> (\<forall>c\<in>set s. \<exists>d<10. c = char_of (48 + d :: nat))"

lemma strtol_digits_append:
  "decimal xs \<Longrightarrow> strtol_digits 10 acc (xs @ ys) = strtol_digits 10 (strtol_digits 10 acc xs) ys"
  by (induction xs arbitrary: acc) (auto simp: decimal_def digit_value_digit)

lemma digits_decimal: "decimal (digits n) \<and> digits n \<noteq> []"
proof (induction n rule: digits.induct)
  case (1 n)
  have d: "\<exists>d<10. char_of (48 + nat (\<bar>n\<bar> mod 10)) = (char_of (48 + d :: nat) :: char)"
    by (intro exI [of _ "nat (\<bar>n\<bar> mod 10)"]) (auto simp: nat_less_iff)
  show ?case using 1 [OF refl refl] d unfolding digits.simps [of n] Let_def by (auto simp: decimal_def)
qed

lemma strtol_digits_long: "strtol_digits 10 0 (rev (digits n)) = nat \<bar>n\<bar>"
proof (induction n rule: digits.induct)
  case (1 n)
  let ?d = "char_of (48 + nat (\<bar>n\<bar> mod 10)) :: char" and ?q = "(\<bar>n\<bar> div 10) * sgn n"
  have dv: "digit_value ?d = Some (nat (\<bar>n\<bar> mod 10))" by (rule digit_value_digit) (simp add: nat_less_iff)
  have lt: "nat (\<bar>n\<bar> mod 10) < 10" by (simp add: nat_less_iff)
  show ?case
  proof (cases "?q = 0")
    case True
    then have "\<bar>n\<bar> < 10" by (auto simp: sgn_if split: if_splits)
    then show ?thesis using True dv lt unfolding digits.simps [of n] Let_def by simp
  next
    case False
    have q: "nat \<bar>?q\<bar> = nat (\<bar>n\<bar> div 10)" using False by (auto simp: abs_mult)
    have "decimal (rev (digits ?q))" using digits_decimal [of ?q] by (simp add: decimal_def)
    then have "strtol_digits 10 0 (rev (digits ?q) @ [?d]) = nat (\<bar>n\<bar> div 10) * 10 + nat (\<bar>n\<bar> mod 10)"
      using 1 [OF refl refl False] dv lt q by (simp add: strtol_digits_append)
    also have "\<dots> = nat \<bar>n\<bar>" by (simp add: nat_div_distrib nat_mod_distrib)
    finally show ?thesis using False unfolding digits.simps [of n] Let_def by simp
  qed
qed

lemma decimal_char: "d < 10 \<Longrightarrow> c = char_of (48 + d :: nat) \<Longrightarrow> 48 \<le> (of_char c :: nat) \<and> (of_char c :: nat) \<le> 57"
  by simp

lemma decimal_of_char: "decimal s \<Longrightarrow> c \<in> set s \<Longrightarrow> 48 \<le> (of_char c :: nat) \<and> (of_char c :: nat) \<le> 57"
  using decimal_char by (auto simp: decimal_def)

lemma long2str_form:
  obtains ds where "long2str n = (if n < 0 then ''-'' else []) @ ds" "decimal ds" "ds \<noteq> []" "strtol_digits 10 0 ds = nat \<bar>n\<bar>"
proof (rule that [of "rev (digits n)"])
  show "long2str n = (if n < 0 then ''-'' else []) @ rev (digits n)" by (simp add: long2str_def)
  show "decimal (rev (digits n))" "rev (digits n) \<noteq> []" using digits_decimal [of n] by (auto simp: decimal_def)
qed (rule strtol_digits_long)

lemma strtol_long2str: "strtol (long2str (sint w)) 10 = (w :: 32 word)"
proof -
  let ?n = "sint w"
  obtain ds where ds: "long2str ?n = (if ?n < 0 then ''-'' else []) @ ds" "decimal ds" "ds \<noteq> []" "strtol_digits 10 0 ds = nat \<bar>?n\<bar>"
    by (rule long2str_form)
  have h: "48 \<le> (of_char (hd ds) :: nat)" "(of_char (hd ds) :: nat) \<le> 57" using decimal_of_char [OF ds(2)] ds(3) by auto
  then have "\<not> isspace (hd ds)" "hd ds \<noteq> CHR ''-''" "hd ds \<noteq> CHR ''+''" by (auto simp: isspace_def)
  then have "dropWhile isspace ds = ds" "\<not> starts (CHR ''-'') ds" "\<not> starts (CHR ''+'') ds"
    using ds(3) by (cases ds; simp add: starts_def)+
  moreover have "\<not> isspace (CHR ''-'')" by (simp add: isspace_def)
  moreover have "- (2 ^ 31) \<le> ?n" "?n \<le> 2 ^ 31 - 1" using sint_ge [of w] sint_lt [of w] by simp_all
  moreover have "starts c (x # xs) \<longleftrightarrow> x = c" for c x and xs :: string by (auto simp: starts_def)
  ultimately show ?thesis using ds(1,4) by (cases "?n < 0") (simp_all add: strtol_def Let_def)
qed

lemma long2str_length: "length (long2str n) \<le> 12" if "\<bar>n\<bar> < 10 ^ 11"
proof -
  have "length (digits n) \<le> Suc k" if "\<bar>n\<bar> < 10 ^ Suc k" for k using that
  proof (induction k arbitrary: n)
    case 0
    then have "\<bar>n\<bar> div 10 * sgn n = 0" by simp
    then show ?case unfolding digits.simps [of n] Let_def by simp
  next
    case (Suc k)
    let ?q = "\<bar>n\<bar> div 10 * sgn n"
    have "\<bar>?q\<bar> \<le> \<bar>n\<bar> div 10" by (simp add: abs_mult sgn_if)
    also have "\<dots> < 10 ^ Suc k" using Suc.prems by (auto intro: div_less_iff_less_mult [THEN iffD2])
    finally have "length (digits ?q) \<le> Suc k" by (rule Suc.IH)
    then show ?case unfolding digits.simps [of n] Let_def by simp
  qed
  from this [of 10] that show ?thesis by (simp add: long2str_def)
qed

lemma ini_putf_then_getf:
  assumes "text_files fs" "good_section s" "good_key k" "good_value k (ftoa w)" "fn \<noteq> []" "\<forall>f. writable f"
    and "length (ftoa w) < 64" "ftoa w \<noteq> []" "atof (ftoa w) = w"
  shows "\<exists>fs'. ini_putf ftoa writable (Some s) (Some k) w fn fs = Inr (1, fs') \<and> ini_getf atof (Some s) (Some k) d fn fs' = Inr w"
proof -
  have same: "same_name s s" "same_name k k" by (simp_all add: same_name_def)
  obtain fs' where "ini_puts writable (Some s) (Some k) (Some (ftoa w)) fn fs = Inr (1, fs')"
      "\<And>d n. int (length (ftoa w)) < n \<Longrightarrow> ini_gets (Some s) (Some k) d n fn fs' = Inr (Some (ftoa w))"
    by (rule ini_puts_laws [OF assms(1-6)]) (use same assms(3) in blast)
  then show ?thesis using assms(7-9) by (auto simp: ini_putf_def ini_getf_def)
qed



end
