(* ===== verification/Config.thy ===== *)
theory Config
  imports IniStore SqObject
begin

text \<open>
  The configuration functions of \<open>acorns.cpp\<close> over the INI file \<open>/spiffs/config.ini\<close>: the script
  functions that write and read a setting, the C++ functions \<open>setConfig\<close> and \<open>getConfig\<close>, and what
  start-up makes of the settings (clock, WiFi, host name). A dotted name is split at its first dot
  into section and key. Which files can be written is a parameter.
\<close>

section \<open>Names\<close>

definition cfg_inifile :: string where
  "cfg_inifile = ''/spiffs/config.ini''"

text \<open>The section and key of a name; \<open>None\<close> when the section has more than 47 characters.\<close>

definition split_config :: "string \<Rightarrow> (string \<times> string) option" where
  "split_config key =
     (case strchr (CHR ''.'') key of
        None \<Rightarrow> Some ([], key)
      | Some x \<Rightarrow> if x > 47 then None else Some (take x key, drop (x + 1) key))"

text \<open>
  \<open>iniCallback\<close> joins section and key in a buffer of 256 bytes; the length of the section is kept in a
  \<open>char\<close>. Its other effect is one insertion into the table of the configuration.
\<close>

definition join_config :: "string \<Rightarrow> string \<Rightarrow> string outcome" where
  "join_config section key =
     (let slen = length section mod 256 in
      if slen \<noteq> 0 then
        if length section \<ge> 256 \<or> slen + 1 + length key \<ge> 256 then Inl OutOfBounds
        else Inr (section @ ''.'' @ key)
      else if length key \<ge> 256 then Inl OutOfBounds else Inr key)"

section \<open>Reading\<close>

definition sqgetconfigfromini :: "sqobject \<Rightarrow> files \<Rightarrow> string option outcome" where
  "sqgetconfigfromini arg fs =
     (case arg of
        OT_STRING s \<Rightarrow>
          (case split_config (cstr s) of
             None \<Rightarrow> Inr None
           | Some (section, key) \<Rightarrow> ini_gets (Some section) (Some key) (Some []) 256 cfg_inifile fs)
      | _ \<Rightarrow> Inr None)"

text \<open>
  \<open>getConfig\<close> asks for the member \<open>key\<close> of the string \<open>key\<close> itself, which is found for the names of the
  string delegate; the value is then no string and the pointer that is copied from uninitialised.
  The buffer is \<open>None\<close> when nothing was written to it.
\<close>

definition string_ddel :: "string list" where
  "string_ddel = [''len'', ''tointeger'', ''tofloat'', ''tostring'', ''slice'', ''find'', ''tolower'', ''toupper'', ''weakref'']"

definition getConfig :: "string \<Rightarrow> string \<Rightarrow> int \<Rightarrow> files \<Rightarrow> string option outcome" where
  "getConfig key d maxlen fs =
     (if key \<in> set string_ddel then Inl OutOfBounds
      else
        let default = (\<lambda>buf. if int (length d) < maxlen then Inr (Some d) else Inr buf) in
        case strchr (CHR ''.'') key of
          None \<Rightarrow> default None
        | Some x \<Rightarrow>
            if x > 47 then default None
            else andthen (ini_gets (Some (take x key)) (Some (drop (x + 1) key)) (Some []) maxlen cfg_inifile fs)
                   (\<lambda>buf. if buf = Some [] then Inr buf else default buf))"

text \<open>The overload on \<open>String\<close> with its buffer of 128 bytes.\<close>

definition getConfigString :: "string \<Rightarrow> string \<Rightarrow> files \<Rightarrow> string outcome" where
  "getConfigString key d fs = andthen (getConfig key d 128 fs) (\<lambda>b. of_opt OutOfBounds b)"

section \<open>Writing\<close>

datatype clock = SetPosix string | SetInterval string | SetServer string

definition refreshConfig :: "files \<Rightarrow> clock list outcome" where
  "refreshConfig fs =
     andthen (getConfigString ''time.posixtz'' ''PST8PDT,M3.2.0,M11.1.0'' fs)
       (\<lambda>tz. andthen (getConfigString ''time.syncinterval'' ''0'' fs)
         (\<lambda>iv. andthen (getConfigString ''time.ntpserver'' ''pool.ntp.org'' fs)
           (\<lambda>srv. Inr [SetPosix tz, SetInterval iv, SetServer srv])))"

text \<open>
  The script function \<open>setConfig\<close>; \<open>None\<close> is a script error. \<open>tostr\<close> is the conversion of a value that
  is no string. After a dotted name the clock is not refreshed.
\<close>

definition sqwriteconfig ::
  "(string \<Rightarrow> bool) \<Rightarrow> (sqobject \<Rightarrow> string option) \<Rightarrow> sqobject \<Rightarrow> sqobject \<Rightarrow> files \<Rightarrow> (files \<times> clock list) option outcome" where
  "sqwriteconfig writable tostr arg val fs =
     (case arg of
        OT_STRING s \<Rightarrow>
          (case (case val of OT_STRING v \<Rightarrow> Some v | _ \<Rightarrow> tostr val) of
             None \<Rightarrow> Inr None
           | Some v \<Rightarrow>
               (case split_config (cstr s) of
                  None \<Rightarrow> Inr None
                | Some (section, key) \<Rightarrow>
                    andthen (ini_puts writable (Some section) (Some key) (Some (cstr v)) cfg_inifile fs)
                      (\<lambda>(_, fs'). if CHR ''.'' \<in> set (cstr s) then Inr (Some (fs', []))
                                  else andthen (refreshConfig fs') (\<lambda>ev. Inr (Some (fs', ev))))))
      | _ \<Rightarrow> Inr None)"

definition setConfig :: "(string \<Rightarrow> bool) \<Rightarrow> string \<Rightarrow> string \<Rightarrow> files \<Rightarrow> (files \<times> clock list) outcome" where
  "setConfig writable strkey v fs =
     (case split_config strkey of
        None \<Rightarrow> Inr (fs, [])
      | Some (section, key) \<Rightarrow>
          andthen (ini_puts writable (Some section) (Some key) (Some v) cfg_inifile fs)
            (\<lambda>(_, fs'). andthen (refreshConfig fs') (\<lambda>ev. Inr (fs', ev))))"

section \<open>WiFi\<close>

datatype wifi = WiFi_begin string string | WiFi_softAP string string

definition wifiConnect :: "files \<Rightarrow> wifi list outcome" where
  "wifiConnect fs =
     (if fs cfg_inifile = None then Inr []
      else
        andthen (getConfig ''wifi.ssid'' '''' 64 fs) (\<lambda>ssid. andthen (of_opt OutOfBounds ssid)
          (\<lambda>ssid. andthen (getConfig ''wifi.psk'' '''' 64 fs) (\<lambda>psk. andthen (of_opt OutOfBounds psk)
            (\<lambda>psk. andthen (getConfig ''wifi.mode'' ''sta'' 8 fs) (\<lambda>mode. andthen (of_opt OutOfBounds mode)
              (\<lambda>wifimode.
                 Inr ((if wifimode = ''sta'' \<and> ssid \<noteq> [] then [WiFi_begin ssid psk] else []) @
                      (if wifimode = ''ap'' then [WiFi_softAP ssid psk] else [])))))))))"

text \<open>The host name of \<open>begin\<close>: the name \<open>MDNS.begin\<close> is called with, if it is called.\<close>

definition begin_hostname :: "files \<Rightarrow> string option outcome" where
  "begin_hostname fs =
     andthen (getConfig ''wifi.hostname'' '''' 32 fs) (\<lambda>b. andthen (of_opt OutOfBounds b)
       (\<lambda>hostname. Inr (if hostname \<noteq> [] then Some hostname else None)))"

section \<open>The configuration as a settings store\<close>

definition put_config :: "string \<Rightarrow> string \<Rightarrow> files \<Rightarrow> files outcome" where
  "put_config key v fs =
     andthen (sqwriteconfig (\<lambda>_. True) (\<lambda>_. None) (OT_STRING key) (OT_STRING v) fs)
       (\<lambda>r. case r of None \<Rightarrow> Inl AssertFail | Some (fs', _) \<Rightarrow> Inr fs')"

definition good_config :: "string \<Rightarrow> bool" where
  "good_config key \<longleftrightarrow> NUL \<notin> set key \<and>
     (case split_config key of None \<Rightarrow> False | Some (section, k) \<Rightarrow> good_section section \<and> good_key k)"

definition same_config :: "string \<Rightarrow> string \<Rightarrow> bool" where
  "same_config key key' \<longleftrightarrow>
     (case (split_config key, split_config key') of
        (Some (s, k), Some (s', k')) \<Rightarrow> same_name s s' \<and> same_name k k'
      | _ \<Rightarrow> False)"

definition good_setting :: "string \<Rightarrow> string \<Rightarrow> bool" where
  "good_setting key v \<longleftrightarrow> good_config key \<and> good_value (snd (the (split_config key))) v \<and> length v < 256"

lemma getConfig_total:
  assumes "key \<notin> set string_ddel" "0 < maxlen" "split_config key = Some (s, k)" "CHR ''.'' \<in> set key"
    and "ini_gets (Some s) (Some k) (Some []) maxlen cfg_inifile fs = Inr (Some v)" "int (length d) < maxlen"
  shows "getConfig key d maxlen fs = Inr (Some (if v = [] then [] else d))"
proof -
  obtain x where x: "strchr (CHR ''.'') key = Some x" using assms(4) strchr_None by fastforce
  with assms(3) have "x \<le> 47" "s = take x key" "k = drop (x + 1) key"
    by (auto simp: split_config_def split: if_splits)
  with assms x show ?thesis by (simp add: getConfig_def)
qed

lemma ini_gets_total:
  assumes "text_files fs" "good_key k" "0 < n"
  shows "\<exists>v. ini_gets (Some s) (Some k) d n fn fs = Inr (Some v)"
proof -
  have "\<exists>v. line_value (nat n) x = Inr v" for x
    using assms(3) by (cases "cleanstring (skipleading (drop (the (key_end x) + 1) x))") (auto simp: line_value_def ini_strncpy_def)
  then show ?thesis using ini_gets_look [OF assms] by (auto split: option.splits) (metis andthen_simps(2))
qed

lemma getConfig_value:
  assumes "text_files fs" "key \<notin> set string_ddel" "split_config key = Some (s, k)" "CHR ''.'' \<in> set key" "good_key k"
    and "int (length d) < maxlen"
  shows "getConfig key d maxlen fs = Inr (Some []) \<or> getConfig key d maxlen fs = Inr (Some d)"
proof -
  have "0 < maxlen" using assms(6) by simp
  then obtain v where "ini_gets (Some s) (Some k) (Some []) maxlen cfg_inifile fs = Inr (Some v)"
    using ini_gets_total [OF assms(1,5)] by blast
  then show ?thesis using getConfig_total [OF assms(2) \<open>0 < maxlen\<close> assms(3,4) _ assms(6)] by auto
qed

lemma known_names:
  "split_config ''time.posixtz'' = Some (''time'', ''posixtz'')" "split_config ''time.syncinterval'' = Some (''time'', ''syncinterval'')"
  "split_config ''time.ntpserver'' = Some (''time'', ''ntpserver'')" "split_config ''wifi.ssid'' = Some (''wifi'', ''ssid'')"
  "split_config ''wifi.psk'' = Some (''wifi'', ''psk'')" "split_config ''wifi.mode'' = Some (''wifi'', ''mode'')"
  "split_config ''wifi.hostname'' = Some (''wifi'', ''hostname'')"
  by (simp_all add: split_config_def)

lemma known_values:
  assumes "text_files fs"
  shows "getConfig ''time.posixtz'' ''PST8PDT,M3.2.0,M11.1.0'' 128 fs \<in> {Inr (Some []), Inr (Some ''PST8PDT,M3.2.0,M11.1.0'')}"
    "getConfig ''time.syncinterval'' ''0'' 128 fs \<in> {Inr (Some []), Inr (Some ''0'')}"
    "getConfig ''time.ntpserver'' ''pool.ntp.org'' 128 fs \<in> {Inr (Some []), Inr (Some ''pool.ntp.org'')}"
    "getConfig ''wifi.ssid'' [] 64 fs = Inr (Some [])" "getConfig ''wifi.psk'' [] 64 fs = Inr (Some [])"
    "getConfig ''wifi.mode'' ''sta'' 8 fs \<in> {Inr (Some []), Inr (Some ''sta'')}"
    "getConfig ''wifi.hostname'' [] 32 fs = Inr (Some [])"
  using getConfig_value [OF assms _ known_names(1)] getConfig_value [OF assms _ known_names(2)]
    getConfig_value [OF assms _ known_names(3)] getConfig_value [OF assms _ known_names(4), where d = "[]" and maxlen = 64]
    getConfig_value [OF assms _ known_names(5), where d = "[]" and maxlen = 64] getConfig_value [OF assms _ known_names(6)]
    getConfig_value [OF assms _ known_names(7), where d = "[]" and maxlen = 32]
  by (simp_all add: string_ddel_def good_key_def blank_def)

lemma refreshConfig_total: "text_files fs \<Longrightarrow> \<exists>ev. refreshConfig fs = Inr ev"
  using known_values(1-3) [of fs] by (auto simp: refreshConfig_def getConfigString_def)

lemma put_config_puts:
  assumes "good_setting key v" "text_files fs"
  obtains s k fs' where "split_config key = Some (s, k)" "good_section s" "good_key k" "good_value k v"
    "put_config key v fs = Inr fs'" "text_files fs'"
    "\<And>s' k' d n. good_key k' \<Longrightarrow> same_name s s' \<Longrightarrow> same_name k k' \<Longrightarrow> int (length v) < n \<Longrightarrow>
       ini_gets (Some s') (Some k') d n cfg_inifile fs' = Inr (Some v)"
    "\<And>s' k' d n. good_key k' \<Longrightarrow> \<not> same_name s s' \<or> \<not> same_name k k' \<Longrightarrow>
       ini_gets (Some s') (Some k') d n cfg_inifile fs' = ini_gets (Some s') (Some k') d n cfg_inifile fs"
proof -
  obtain s k where sk: "split_config key = Some (s, k)" "good_section s" "good_key k" "good_value k v" "NUL \<notin> set key"
    using assms(1) by (auto simp: good_setting_def good_config_def split: option.splits)
  have "NUL \<notin> set v" using sk(4) printable_not_special by (auto simp: good_value_def)
  then have c: "cstr key = key" "cstr v = v" using sk(5) by simp_all
  have fn: "cfg_inifile \<noteq> []" by (simp add: cfg_inifile_def)
  show thesis
  proof (rule ini_puts_laws [OF assms(2) sk(2-4) fn, where writable = "\<lambda>_. True"], simp)
    fix fs'
    assume p: "ini_puts (\<lambda>_. True) (Some s) (Some k) (Some v) cfg_inifile fs = Inr (1, fs')" "text_files fs'"
      and laws: "\<And>s' k' d n. good_key k' \<Longrightarrow> same_name s s' \<Longrightarrow> same_name k k' \<Longrightarrow> int (length v) < n \<Longrightarrow>
        ini_gets (Some s') (Some k') d n cfg_inifile fs' = Inr (Some v)"
        "\<And>s' k' d n. good_key k' \<Longrightarrow> \<not> same_name s s' \<or> \<not> same_name k k' \<Longrightarrow>
        ini_gets (Some s') (Some k') d n cfg_inifile fs' = ini_gets (Some s') (Some k') d n cfg_inifile fs"
    have "put_config key v fs = Inr fs'"
      using p(1) sk(1) c refreshConfig_total [OF p(2)] by (auto simp: put_config_def sqwriteconfig_def)
    then show thesis using that [OF sk(1-4)] p(2) laws by blast
  qed
qed

lemma read_config:
  assumes "good_config key'" "split_config key' = Some (s', k')"
  shows "sqgetconfigfromini (OT_STRING key') fs = ini_gets (Some s') (Some k') (Some []) 256 cfg_inifile fs" "good_key k'"
  using assms by (auto simp: sqgetconfigfromini_def good_config_def)

lemma good_config_split: "good_config key \<Longrightarrow> \<exists>s k. split_config key = Some (s, k)"
  by (auto simp: good_config_def split: option.splits)

interpretation config: settings_store text_files put_config "\<lambda>fs key. sqgetconfigfromini (OT_STRING key) fs"
  "\<lambda>v r. r = Inr (Some v)" same_config good_setting good_config
proof
  fix fs fs' :: files and key v key'
  assume fs: "text_files fs" and g: "good_setting key v"
  obtain s k fs1 where p: "split_config key = Some (s, k)" "put_config key v fs = Inr fs1" "text_files fs1"
    and same: "\<And>s' k' d n. good_key k' \<Longrightarrow> same_name s s' \<Longrightarrow> same_name k k' \<Longrightarrow> int (length v) < n \<Longrightarrow>
       ini_gets (Some s') (Some k') d n cfg_inifile fs1 = Inr (Some v)"
    and other: "\<And>s' k' d n. good_key k' \<Longrightarrow> \<not> same_name s s' \<or> \<not> same_name k k' \<Longrightarrow>
       ini_gets (Some s') (Some k') d n cfg_inifile fs1 = ini_gets (Some s') (Some k') d n cfg_inifile fs"
    by (rule put_config_puts [OF g fs]) blast
  show "\<exists>fs'. put_config key v fs = Inr fs' \<and> text_files fs'" using p by blast
  assume "put_config key v fs = Inr fs'" and k': "good_config key'"
  then have fs': "fs' = fs1" using p(2) by simp
  obtain s' k' where sk: "split_config key' = Some (s', k')" using good_config_split [OF k'] by blast
  note r = read_config [OF k' sk]
  show "same_config key key' \<Longrightarrow> sqgetconfigfromini (OT_STRING key') fs' = Inr (Some v)"
    using same [OF r(2)] r(1) p(1) sk g fs' by (simp add: same_config_def good_setting_def)
  show "\<not> same_config key key' \<Longrightarrow> sqgetconfigfromini (OT_STRING key') fs' = sqgetconfigfromini (OT_STRING key') fs"
    using other [OF r(2)] r(1) p(1) sk fs' by (simp add: same_config_def)
qed

section \<open>Properties\<close>



text \<open>
  Whatever \<open>config.ini\<close> says about the network, start-up and reconnection never join a WiFi
  network, never serve an access point and never advertise a host name.
\<close>

theorem wifiConnect_never_connects:
  assumes "text_files fs"
  shows "wifiConnect fs = Inr [] \<and> begin_hostname fs = Inr None"
  using known_values [OF assms] by (auto simp: wifiConnect_def begin_hostname_def)

definition ex_config :: files where
  "ex_config = [cfg_inifile \<mapsto> ''[wifi]\<newline>ssid=home\<newline>mode=ap\<newline>hostname=acorn\<newline>'']"

lemma ex_config_text: "text_files ex_config"
  by (simp add: text_files_def ex_config_def)

lemmas good_config_defs = good_setting_def good_config_def split_config_def good_defs



theorem wifiConnect_never_connects_witness:
  "wifiConnect ex_config = Inr [] \<and> begin_hostname ex_config = Inr None"
  by (rule wifiConnect_never_connects [OF ex_config_text])

end
