(* ===== verification/Services.thy ===== *)
theory Services
  imports Loading TableMap
begin

text \<open>
  What \<open>acorns.cpp\<close> offers to scripts and to C++ code besides the program table: module import,
  directory iteration, callbacks, functions registered by C++ code, the routing of printed text,
  and paths relative to a program's working directory.
\<close>

section \<open>Modules\<close>

text \<open>
  \<open>sqimport\<close>. The table of modules is a table of the interpreter. \<open>ddel\<close> is the default delegate of
  tables, which a failed lookup falls back to; \<open>user\<close> the import function an application may supply,
  with a state of its own. The built-in import function handles nothing. \<open>None\<close> is a script error.
\<close>

definition sq_builtinImportFunction :: "string \<Rightarrow> 8 word \<Rightarrow> sqobject option" where
  "sq_builtinImportFunction name len = None"

definition enter_module ::
  "(32 word \<Rightarrow> 32 word) \<Rightarrow> string \<Rightarrow> sqobject \<Rightarrow> sqtable \<Rightarrow> sqtable outcome" where
  "enter_module f2i mname ob mods =
     andthen (of_opt Diverges (NewSlot f2i mods (OT_STRING mname) ob)) (\<lambda>(mods', _). Inr mods')"

definition sqimport ::
  "(32 word \<Rightarrow> 32 word) \<Rightarrow> (32 word \<Rightarrow> sqobject) \<Rightarrow> (string \<Rightarrow> sqobject option)
     \<Rightarrow> (string \<Rightarrow> 8 word \<Rightarrow> 'u \<Rightarrow> sqobject option \<times> 'u) \<Rightarrow> sqobject list \<Rightarrow> sqtable \<Rightarrow> 'u
     \<Rightarrow> (sqobject option \<times> sqtable \<times> 'u) outcome" where
  "sqimport f2i wr ddel user args mods u =
     (case args of
        [OT_STRING mname] \<Rightarrow>
          andthen (of_opt Diverges (Get f2i wr mods (OT_STRING mname)))
            (\<lambda>r. case (case r of None \<Rightarrow> ddel mname | Some m \<Rightarrow> Some m) of
                 Some m \<Rightarrow> Inr (Some m, mods, u)
               | None \<Rightarrow>
                   (case sq_builtinImportFunction (cstr mname) (of_nat (length mname)) of
                      Some ob \<Rightarrow> andthen (enter_module f2i mname ob mods) (\<lambda>mods'. Inr (Some ob, mods', u))
                    | None \<Rightarrow>
                        (case user (cstr mname) (of_nat (length mname)) u of
                           (Some ob, u') \<Rightarrow>
                             andthen (enter_module f2i mname ob mods) (\<lambda>mods'. Inr (Some ob, mods', u'))
                         | (None, u') \<Rightarrow> Inr (None, mods, u'))))
      | _ \<Rightarrow> Inr (None, mods, u))"

section \<open>Directories\<close>

text \<open>
  A directory object is a pointer to an open directory; \<open>dirs\<close> holds the open ones, with the names that
  are still to be read. \<open>None\<close> is a script error.
\<close>

type_synonym dirs = "addr \<Rightarrow> string list option"

definition sqdirectoryiterator :: "(string \<Rightarrow> string list option) \<Rightarrow> addr \<Rightarrow> sqobject \<Rightarrow> dirs \<Rightarrow> (addr option \<times> dirs) option" where
  "sqdirectoryiterator disk fresh_dir arg ds =
     (case arg of
        OT_STRING name \<Rightarrow>
          (case disk (cstr name) of
             None \<Rightarrow> None
           | Some names \<Rightarrow> Some (Some fresh_dir, ds(fresh_dir \<mapsto> names)))
      | _ \<Rightarrow> None)"

text \<open>\<open>_nexti\<close>: the next name, or null at the end, where the directory is closed but the pointer is kept.\<close>

definition sqdirectoryiterator_next :: "addr option \<Rightarrow> dirs \<Rightarrow> (sqobject option \<times> dirs) outcome" where
  "sqdirectoryiterator_next d ds =
     (case d of
        None \<Rightarrow> Inr (None, ds)
      | Some a \<Rightarrow>
          (case ds a of
             None \<Rightarrow> Inl UseAfterFree
           | Some [] \<Rightarrow> Inr (Some OT_NULL, ds(a := None))
           | Some (n # ns) \<Rightarrow> Inr (Some (OT_STRING n), ds(a \<mapsto> ns))))"

definition dir_release_hook :: "addr option \<Rightarrow> dirs \<Rightarrow> (addr option \<times> dirs) outcome" where
  "dir_release_hook d ds =
     (case d of
        None \<Rightarrow> Inr (None, ds)
      | Some a \<Rightarrow> if ds a = None then Inl UseAfterFree else Inr (None, ds(a := None)))"

text \<open>A \<open>foreach\<close> over the object: \<open>_nexti\<close> until null, \<open>_get\<close> passes the index through.\<close>

fun foreach_dir :: "nat \<Rightarrow> addr option \<Rightarrow> dirs \<Rightarrow> (sqobject list \<times> dirs) outcome" where
  "foreach_dir 0 d ds = Inl Diverges"
| "foreach_dir (Suc fuel) d ds =
     andthen (sqdirectoryiterator_next d ds)
       (\<lambda>(r, ds'). case r of
            None \<Rightarrow> Inr ([], ds')
          | Some ob \<Rightarrow> if ob = OT_NULL then Inr ([], ds')
                       else andthen (foreach_dir fuel d ds') (\<lambda>(obs, ds''). Inr (ob # obs, ds'')))"

section \<open>Callbacks\<close>

record callback =
  cb_refcount :: "8 word"
  cb_next :: "addr option"
  cb_prog :: addr
  cb_callable :: "addr option"
  cb_userpointer :: addr
  cb_cleanup :: "addr option"

datatype cb_event = Cleanup addr addr addr | ReleaseCallable addr addr | AddRef addr addr

record cbstate =
  cb_acorns :: acorns
  cbs :: "addr \<Rightarrow> callback option"
  cb_log :: "cb_event list"

definition cb_at :: "cbstate \<Rightarrow> addr \<Rightarrow> callback outcome" where
  "cb_at s a = of_opt UseAfterFree (cbs s a)"

text \<open>
  \<open>deref_cb\<close>. The program's list of callbacks is emptied when there is one, so that the branch that
  would unlink this callback only is never reached.
\<close>

definition deref_cb :: "addr \<Rightarrow> cbstate \<Rightarrow> cbstate outcome" where
  "deref_cb a s =
     andthen (cb_at s a)
       (\<lambda>c0. let c1 = c0\<lparr>cb_refcount := cb_refcount c0 - 1, cb_cleanup := None\<rparr>;
                 ev1 = (case cb_cleanup c0 of None \<Rightarrow> [] | Some f \<Rightarrow> [Cleanup f (cb_prog c0) (cb_userpointer c0)]) in
             andthen (prog_at (cb_acorns s) (cb_prog c0))
               (\<lambda>p. andthen (case cb_callable c1 of
                               None \<Rightarrow> Inr []
                             | Some ob \<Rightarrow> andthen (of_opt NullDeref (vm p)) (\<lambda>v. Inr [ReleaseCallable v ob]))
                 (\<lambda>ev2. let c2 = c1\<lparr>cb_callable := None\<rparr>;
                            st = set_prog (cb_prog c0) (p\<lparr>callbackRecievers := None\<rparr>) (cb_acorns s) in
                        Inr \<lparr>cb_acorns = st,
                             cbs = (cbs s)(a := if cb_refcount c2 = 0 then None else Some c2),
                             cb_log = cb_log s @ ev1 @ ev2\<rparr>)))"

text \<open>The walk to the end of the list in \<open>acceptCallback\<close>; the node after the last is then written to.\<close>

fun cb_walk :: "nat \<Rightarrow> addr option \<Rightarrow> cbstate \<Rightarrow> unit outcome" where
  "cb_walk 0 p s = Inl Diverges"
| "cb_walk (Suc fuel) None s = Inl NullDeref"
| "cb_walk (Suc fuel) (Some a) s = andthen (cb_at s a) (\<lambda>c. cb_walk fuel (cb_next c) s)"

text \<open>
  \<open>acceptCallback\<close>: a callable at address \<open>ob\<close>, new blocks at \<open>a\<close>, whose link and user pointer are not
  initialised (\<open>junk\<close>). An object that is not callable sets an error but is accepted all the same.
\<close>

definition acceptCallback :: "nat \<Rightarrow> callback \<Rightarrow> addr \<Rightarrow> addr \<Rightarrow> addr \<Rightarrow> addr option \<Rightarrow> cbstate \<Rightarrow> cbstate outcome" where
  "acceptCallback fuel junk a prg ob cleanup s =
     andthen (prog_at (cb_acorns s) prg)
       (\<lambda>p. andthen (of_opt NullDeref (vm p))
         (\<lambda>v. let d = junk\<lparr>cb_callable := Some ob, cb_cleanup := cleanup, cb_refcount := 2, cb_prog := prg\<rparr>;
                  s1 = s\<lparr>cbs := (cbs s)(a \<mapsto> d), cb_log := cb_log s @ [AddRef v ob]\<rparr> in
              case callbackRecievers p of
                None \<Rightarrow> Inr (s1\<lparr>cb_acorns := set_prog prg (p\<lparr>callbackRecievers := Some a\<rparr>) (cb_acorns s)\<rparr>)
              | Some q \<Rightarrow> andthen (cb_walk fuel (Some q) s1) (\<lambda>_. Inr s1)))"

definition cb_release_hook :: "addr \<Rightarrow> cbstate \<Rightarrow> cbstate outcome" where
  "cb_release_hook a s = deref_cb a s"

section \<open>Functions and variables from C++\<close>

text \<open>The slot of a program's root table that is set, as (interpreter, name).\<close>

definition registerFunction :: "string option \<Rightarrow> string \<Rightarrow> acorns \<Rightarrow> (addr \<times> string) outcome" where
  "registerFunction ident fname st =
     andthen (programForId ident st)
       (\<lambda>r. andthen (of_opt NullDeref r) (\<lambda>a. andthen (vm_of a st) (\<lambda>v. Inr (v, fname))))"

definition setIntVariable :: "string option \<Rightarrow> 64 word \<Rightarrow> string \<Rightarrow> acorns \<Rightarrow> (addr \<times> string \<times> sqobject) outcome" where
  "setIntVariable ident x fname st =
     andthen (programForId ident st)
       (\<lambda>r. andthen (of_opt NullDeref r) (\<lambda>a. andthen (vm_of a st) (\<lambda>v. Inr (v, fname, OT_INTEGER (ucast x)))))"

text \<open>
  The list of dynamic functions, as nodes in memory; \<open>locked\<close> is whether the caller leaves with the
  lock. A new node's link is not initialised.
\<close>

record dynfunc =
  dyn_name :: "string option"
  dyn_f :: addr
  dyn_next :: "addr option"

fun register_walk :: "nat \<Rightarrow> dynfunc \<Rightarrow> addr \<Rightarrow> addr \<Rightarrow> string \<Rightarrow> addr option \<Rightarrow> (addr \<Rightarrow> dynfunc option)
     \<Rightarrow> (bool \<times> (addr \<Rightarrow> dynfunc option)) outcome" where
  "register_walk 0 junk new f fname d m = Inl Diverges"
| "register_walk (Suc fuel) junk new f fname None m = Inr (False, m)"
| "register_walk (Suc fuel) junk new f fname (Some a) m =
     andthen (of_opt UseAfterFree (m a))
       (\<lambda>n. if dyn_name n = None then
              Inr (True, m(a \<mapsto> n\<lparr>dyn_f := f, dyn_name := Some fname\<rparr>))
            else if dyn_next n = None then
              Inr (True, m(a \<mapsto> n\<lparr>dyn_next := Some new\<rparr>, new \<mapsto> junk\<lparr>dyn_f := f, dyn_name := Some fname\<rparr>))
            else register_walk fuel junk new f fname (dyn_next n) m)"

definition registerDynamicFunction ::
  "nat \<Rightarrow> dynfunc \<Rightarrow> addr \<Rightarrow> addr \<Rightarrow> string \<Rightarrow> addr \<Rightarrow> (addr \<Rightarrow> dynfunc option) \<Rightarrow> (bool \<times> (addr \<Rightarrow> dynfunc option)) outcome" where
  "registerDynamicFunction fuel junk new f fname dynFunc m = register_walk fuel junk new f fname (Some dynFunc) m"

text \<open>\<open>sqgetdynamicfunc\<close> returns before it searches: the value on top of the stack is the name itself.\<close>

definition sqgetdynamicfunc :: "sqobject \<Rightarrow> sqobject option" where
  "sqgetdynamicfunc k = (case k of OT_STRING s \<Rightarrow> Some (OT_STRING s) | _ \<Rightarrow> None)"

section \<open>Printing\<close>

datatype printed = Println string | Print string | ToFunc addr addr string

text \<open>\<open>vsnprintf\<close> into a buffer of 256 bytes; \<open>msg\<close> is the formatted text.\<close>

definition printfunc_routed ::
  "addr option \<Rightarrow> addr option \<Rightarrow> addr option \<Rightarrow> string \<Rightarrow> acorns \<Rightarrow> printed list outcome" where
  "printfunc_routed replprogram global active msg st =
     (let buf = take 255 msg in
      if active = replprogram then Inr [Println buf]
      else case active of
        None \<Rightarrow> Inr [Println buf]
      | Some prg \<Rightarrow>
          andthen (prog_at st prg)
            (\<lambda>p. Inr ((case printfunc p of None \<Rightarrow> [] | Some f \<Rightarrow> [ToFunc f prg buf]) @
                      (case global of None \<Rightarrow> [Println buf] | Some f \<Rightarrow> [ToFunc f prg buf]))))"

definition errorfunc_routed ::
  "addr option \<Rightarrow> addr option \<Rightarrow> addr option \<Rightarrow> string \<Rightarrow> acorns \<Rightarrow> printed list outcome" where
  "errorfunc_routed replprogram global active msg st =
     (let buf = take 255 msg in
      if active = replprogram then Inr [Println [], Print buf]
      else case active of
        None \<Rightarrow> Inr [Println buf]
      | Some prg \<Rightarrow>
          andthen (prog_at st prg)
            (\<lambda>p. Inr ((case errorfunc p of None \<Rightarrow> [] | Some f \<Rightarrow> [ToFunc f prg buf]) @
                      (case global of None \<Rightarrow> [Println [], Print buf] | Some f \<Rightarrow> [ToFunc f prg buf]))))"

section \<open>Paths\<close>

definition joinWorkingDir :: "addr \<Rightarrow> string \<Rightarrow> acorns \<Rightarrow> string outcome" where
  "joinWorkingDir prg dir st =
     (if dir \<noteq> [] \<and> hd dir = CHR ''/'' then Inr dir
      else andthen (prog_at st prg)
        (\<lambda>p. Inr (case workingDir p of None \<Rightarrow> dir | Some w \<Rightarrow> w @ ''/'' @ dir)))"

section \<open>Properties\<close>

lemma NewSlot_lookup:
  assumes "table_ok f2i t" "k \<noteq> OT_NULL"
  obtains t' b where "NewSlot f2i t k v = Some (t', b)" "table_ok f2i t'" "lookup (nodes t') = (lookup (nodes t))(k \<mapsto> v)"
  using NewSlot_ok [OF assms, of "Suc 0" v] by (metis NewSlot_def numeral_3_eq_3 set_entry_def)



text \<open>
  A \<open>foreach\<close> over a directory object yields every name once, in order, and ends with the directory
  closed; using the object once more reads from the closed directory.
\<close>

theorem foreach_dir_reads_all_then_faults:
  assumes "ds a = Some names" "length names < fuel"
  shows "foreach_dir fuel (Some a) ds = Inr (map OT_STRING names, ds(a := None)) \<and>
    sqdirectoryiterator_next (Some a) (ds(a := None)) = Inl UseAfterFree"
proof -
  have "foreach_dir fuel (Some a) ds = Inr (map OT_STRING names, ds(a := None))"
    using assms
  proof (induction names arbitrary: fuel ds)
    case (Cons n ns)
    then obtain f where "fuel = Suc f" "length ns < f" by (cases fuel) auto
    with Cons show ?case by (simp add: sqdirectoryiterator_next_def fun_upd_def cong: if_cong)
  next
    case Nil
    then obtain f where "fuel = Suc f" by (cases fuel) auto
    with Nil show ?case by (simp add: sqdirectoryiterator_next_def fun_upd_def)
  qed
  then show ?thesis by (simp add: sqdirectoryiterator_next_def)
qed

theorem foreach_dir_reads_all_then_faults_witness:
  "foreach_dir 9 (Some 4) [4 \<mapsto> [''a.nut'', ''b.nut'']] = Inr ([OT_STRING ''a.nut'', OT_STRING ''b.nut''], Map.empty) \<and>
   sqdirectoryiterator_next (Some 4) Map.empty = Inl UseAfterFree"
  using foreach_dir_reads_all_then_faults [of "[4 \<mapsto> [''a.nut'', ''b.nut'']]" 4 "[''a.nut'', ''b.nut'']" 9]
  by simp



lemma register_walk_locked:
  "register_walk fuel junk new f fname (Some a) m = Inr (locked, m') \<Longrightarrow> locked"
  by (induction fuel arbitrary: a) (auto split: if_splits simp: outcome_simps)

text \<open>
  A registration of a dynamic function that returns has returned with the interpreter lock still
  held, so that the next \<open>GIL_LOCK\<close> of any thread waits for ever.
\<close>

theorem registerDynamicFunction_keeps_lock:
  "registerDynamicFunction fuel junk new f fname dynFunc m = Inr (locked, m') \<Longrightarrow> locked"
  unfolding registerDynamicFunction_def by (rule register_walk_locked)

theorem registerDynamicFunction_keeps_lock_witness:
  "\<exists>locked m'. registerDynamicFunction 5 \<lparr>dyn_name = None, dyn_f = 0, dyn_next = None\<rparr> 9 7 ''led'' 1
       [1 \<mapsto> \<lparr>dyn_name = Some ''beep'', dyn_f = 3, dyn_next = None\<rparr>] = Inr (locked, m') \<and> locked"
proof -
  have r: "registerDynamicFunction 5 \<lparr>dyn_name = None, dyn_f = 0, dyn_next = None\<rparr> 9 7 ''led'' 1
       [1 \<mapsto> \<lparr>dyn_name = Some ''beep'', dyn_f = 3, dyn_next = None\<rparr>] =
     Inr (True, [1 \<mapsto> \<lparr>dyn_name = Some ''beep'', dyn_f = 3, dyn_next = Some 9\<rparr>, 9 \<mapsto> \<lparr>dyn_name = Some ''led'', dyn_f = 7, dyn_next = None\<rparr>])"
    by (simp add: registerDynamicFunction_def eval_nat_numeral)
  show ?thesis using r registerDynamicFunction_keeps_lock [OF r] by blast
qed

end
