(* ===== verification/Links.thy ===== *)
theory Links
  imports Prelude
begin

text \<open>
  Chained hash buckets: cells linked by next pointers, with the chain of every bucket as a list of
  cells. Shared by the reference table and the string table.
\<close>

section \<open>Chains\<close>

primrec seg :: "('c \<Rightarrow> 'c option) \<Rightarrow> 'c list \<Rightarrow> 'c option \<Rightarrow> 'c option \<Rightarrow> bool" where
  "seg nxt [] p q \<longleftrightarrow> p = q"
| "seg nxt (x # xs) p q \<longleftrightarrow> p = Some x \<and> seg nxt xs (nxt x) q"

abbreviation chain :: "('c \<Rightarrow> 'c option) \<Rightarrow> 'c list \<Rightarrow> 'c option \<Rightarrow> bool" where
  "chain nxt xs p \<equiv> seg nxt xs p None"

lemma seg_append [simp]: "seg nxt (xs @ ys) p q \<longleftrightarrow> (\<exists>r. seg nxt xs p r \<and> seg nxt ys r q)"
  by (induction xs arbitrary: p) auto

lemma seg_cong: "(\<And>x. x \<in> set xs \<Longrightarrow> nxt x = nxt' x) \<Longrightarrow> seg nxt xs p q \<longleftrightarrow> seg nxt' xs p q"
  by (induction xs arbitrary: p) auto

lemma seg_upd [simp]: "x \<notin> set xs \<Longrightarrow> seg (nxt(x := v)) xs p q \<longleftrightarrow> seg nxt xs p q"
  by (rule seg_cong) auto

lemma chain_None [simp]: "chain nxt xs None \<longleftrightarrow> xs = []"
  by (cases xs) auto

lemma chain_unique: "chain nxt xs p \<Longrightarrow> chain nxt ys p \<Longrightarrow> xs = ys"
proof (induction xs arbitrary: p ys)
  case (Cons x xs)
  then show ?case by (cases ys) auto
qed simp

lemma chain_distinct: "chain nxt xs p \<Longrightarrow> distinct xs"
proof (induction xs arbitrary: p)
  case (Cons x xs)
  have "x \<notin> set xs"
  proof
    assume "x \<in> set xs"
    then obtain ys zs where xs: "xs = ys @ x # zs" by (auto simp: in_set_conv_decomp)
    with Cons.prems have "chain nxt zs (nxt x)" "chain nxt (ys @ x # zs) (nxt x)" by auto
    from chain_unique [OF this] show False by simp
  qed
  with Cons show ?case by auto
qed simp

lemma chain_unlink:
  assumes "chain nxt (xs @ a # b # ys) p"
  shows "chain (nxt(a := nxt b)) (xs @ a # ys) p"
  using assms chain_distinct [OF assms] by auto

section \<open>Buckets\<close>

text \<open>
  The chain of every bucket holds cells whose place (the hash cut to the number of buckets) is that
  bucket; so the chains are disjoint.
\<close>

definition buckets_ok :: "('c \<Rightarrow> 'c option) \<Rightarrow> ('c \<Rightarrow> nat) \<Rightarrow> 'c option list \<Rightarrow> (nat \<Rightarrow> 'c list) \<Rightarrow> bool" where
  "buckets_ok nxt place bs cs \<longleftrightarrow> (\<forall>h < length bs. chain nxt (cs h) (bs ! h) \<and> (\<forall>x \<in> set (cs h). place x = h))"

definition members :: "'c option list \<Rightarrow> (nat \<Rightarrow> 'c list) \<Rightarrow> 'c set" where
  "members bs cs = (\<Union>h < length bs. set (cs h))"

lemma buckets_okD:
  assumes "buckets_ok nxt place bs cs" "h < length bs"
  shows "chain nxt (cs h) (bs ! h)" "x \<in> set (cs h) \<Longrightarrow> place x = h"
  using assms by (auto simp: buckets_ok_def)

lemma buckets_ok_empty: "buckets_ok nxt place (replicate n None) (\<lambda>_. [])" "members (replicate n None) (\<lambda>_. []) = {}"
  by (auto simp: buckets_ok_def members_def)

lemma members_place:
  assumes "buckets_ok nxt place bs cs" "x \<in> members bs cs"
  shows "place x < length bs" "x \<in> set (cs (place x))"
  using assms by (auto simp: buckets_ok_def members_def)

lemma membersI: "h < length bs \<Longrightarrow> x \<in> set (cs h) \<Longrightarrow> x \<in> members bs cs"
  by (auto simp: members_def)

lemma finite_members [simp]: "finite (members bs cs)"
  by (simp add: members_def)

lemma buckets_ok_cong:
  assumes "buckets_ok nxt place bs cs" "\<And>y. y \<in> members bs cs \<Longrightarrow> nxt' y = nxt y" "\<And>y. y \<in> members bs cs \<Longrightarrow> place' y = place y"
  shows "buckets_ok nxt' place' bs cs"
  using assms seg_cong [of "cs h" nxt' nxt for h] by (auto simp: buckets_ok_def membersI)

lemma buckets_push:
  assumes ok: "buckets_ok nxt place bs cs" and h: "h < length bs" "place' x = h" "nxt' x = bs ! h" and x: "x \<notin> members bs cs"
    and same: "\<And>y. y \<in> members bs cs \<Longrightarrow> nxt' y = nxt y" "\<And>y. y \<in> members bs cs \<Longrightarrow> place' y = place y"
  shows "buckets_ok nxt' place' (bs[h := Some x]) (cs(h := x # cs h))"
    "members (bs[h := Some x]) (cs(h := x # cs h)) = insert x (members bs cs)"
proof -
  from buckets_ok_cong [OF ok same] have "buckets_ok nxt' place' bs cs" .
  with h show "buckets_ok nxt' place' (bs[h := Some x]) (cs(h := x # cs h))"
    by (auto simp: buckets_ok_def nth_list_update)
  show "members (bs[h := Some x]) (cs(h := x # cs h)) = insert x (members bs cs)"
    using h by (auto simp: members_def split: if_splits)
qed

lemma members_remove:
  assumes ok: "buckets_ok nxt place bs cs" and h: "h < length bs" "cs h = xs @ x # ys"
  shows "members bs (cs(h := xs @ ys)) = members bs cs - {x}"
proof -
  have d: "x \<notin> set (xs @ ys)" using chain_distinct [OF buckets_okD(1) [OF ok h(1)]] h(2) by auto
  have "x \<notin> set (cs i)" if "i < length bs" "i \<noteq> h" for i
    using buckets_okD(2) [OF ok that(1), of x] buckets_okD(2) [OF ok h(1), of x] h(2) that(2) by auto
  then have "set ((cs(h := xs @ ys)) i) = set (cs i) - {x}" if "i < length bs" for i
    using d h(2) that by (cases "i = h") auto
  then show ?thesis by (simp add: members_def)
qed

lemma buckets_unlink_first:
  assumes ok: "buckets_ok nxt place bs cs" and h: "h < length bs" "cs h = x # ys"
  shows "buckets_ok nxt place (bs[h := nxt x]) (cs(h := ys))"
    "members (bs[h := nxt x]) (cs(h := ys)) = members bs cs - {x}"
proof -
  show "buckets_ok nxt place (bs[h := nxt x]) (cs(h := ys))"
    using ok h by (auto simp: buckets_ok_def nth_list_update)
  show "members (bs[h := nxt x]) (cs(h := ys)) = members bs cs - {x}"
    using members_remove [OF ok h(1), of "[]" x ys] h(2) by (simp add: members_def)
qed

lemma buckets_unlink:
  assumes ok: "buckets_ok nxt place bs cs" and h: "h < length bs" "cs h = xs @ a # x # ys"
  shows "buckets_ok (nxt(a := nxt x)) place bs (cs(h := xs @ a # ys))"
    "members bs (cs(h := xs @ a # ys)) = members bs cs - {x}"
proof -
  have "a \<notin> set (cs i)" if "i < length bs" "i \<noteq> h" for i
    using buckets_okD(2) [OF ok that(1), of a] buckets_okD(2) [OF ok h(1), of a] h(2) that(2) by auto
  then show "buckets_ok (nxt(a := nxt x)) place bs (cs(h := xs @ a # ys))"
    using ok h chain_unlink [of nxt xs a x ys "bs ! h"] by (auto simp: buckets_ok_def simp del: seg_append)
  show "members bs (cs(h := xs @ a # ys)) = members bs cs - {x}"
    using members_remove [OF ok h(1), of "xs @ [a]" x ys] h(2) by simp
qed

lemma buckets_listed:
  assumes "buckets_ok nxt place bs cs"
  shows "list_all2 (chain nxt) (map cs [0..<length bs]) bs" "distinct (concat (map cs [0..<length bs]))"
    "set (concat (map cs [0..<length bs])) = members bs cs"
proof -
  show "list_all2 (chain nxt) (map cs [0..<length bs]) bs"
    using buckets_okD(1) [OF assms] by (auto simp: list_all2_conv_all_nth)
  have "distinct (concat (map cs [0..<n]))" if "n \<le> length bs" for n
    using that
  proof (induction n)
    case (Suc n)
    then have n: "n < length bs" by simp
    have "x \<notin> set (cs n)" if "x \<in> set (cs i)" "i < n" for x i
      using that n buckets_okD(2) [OF assms, of i x] buckets_okD(2) [OF assms n, of x] by auto
    with Suc chain_distinct [OF buckets_okD(1) [OF assms n]] show ?case by auto
  qed simp
  then show "distinct (concat (map cs [0..<length bs]))" by simp
  show "set (concat (map cs [0..<length bs])) = members bs cs" by (auto simp: members_def)
qed

end
