(* ===== verification/StringTable.thy ===== *)
theory StringTable
  imports Links SqObject
begin

text \<open>
  The table of interned strings (\<open>SQStringTable\<close> in \<open>utility/sqstate.cpp\<close>): buckets of string blocks
  linked by their next pointers. Blocks are at addresses; the address of a new block is an argument.
\<close>

section \<open>The table\<close>

record sqstring =
  str_next :: "addr option"
  str_len :: nat
  str_hash :: "32 word"
  str_val :: "char list"

record stringtable =
  str_heap :: "addr \<Rightarrow> sqstring option"
  strings :: "addr option list"
  numofslots :: nat
  slotused :: nat

definition str_at :: "stringtable \<Rightarrow> addr \<Rightarrow> sqstring outcome" where
  "str_at t a = of_opt UseAfterFree (str_heap t a)"

definition str_place :: "nat \<Rightarrow> 32 word \<Rightarrow> nat" where
  "str_place n h = unat (h AND of_nat (n - 1))"

definition st_AllocNodes :: "nat \<Rightarrow> stringtable \<Rightarrow> stringtable" where
  "st_AllocNodes sz t = t\<lparr>numofslots := sz, strings := replicate sz None\<rparr>"

definition SQStringTable :: stringtable where
  "SQStringTable = st_AllocNodes 4 \<lparr>str_heap = Map.empty, strings = [], numofslots = 0, slotused = 0\<rparr>"

text \<open>
  The walk of a bucket in \<open>Add\<close>. A chain has at most as many strings as the table, which bounds every
  walk below.
\<close>

fun add_walk :: "nat \<Rightarrow> stringtable \<Rightarrow> string \<Rightarrow> addr option \<Rightarrow> addr option outcome" where
  "add_walk 0 t w p = Inl Diverges"
| "add_walk (Suc fuel) t w None = Inr None"
| "add_walk (Suc fuel) t w (Some a) =
     andthen (str_at t a)
       (\<lambda>s. if str_len s = length w \<and> take (length w) (str_val s) = w then Inr (Some a)
            else add_walk fuel t w (str_next s))"

text \<open>\<open>Resize\<close>: every block is moved to the front of its new bucket.\<close>

fun rehash_chain :: "nat \<Rightarrow> addr option \<Rightarrow> stringtable \<Rightarrow> stringtable outcome" where
  "rehash_chain 0 p t = Inl Diverges"
| "rehash_chain (Suc fuel) None t = Inr t"
| "rehash_chain (Suc fuel) (Some a) t =
     andthen (str_at t a)
       (\<lambda>s. let h = str_place (numofslots t) (str_hash s) in
            rehash_chain fuel (str_next s)
              (t\<lparr>str_heap := (str_heap t)(a \<mapsto> s\<lparr>str_next := strings t ! h\<rparr>), strings := (strings t)[h := Some a]\<rparr>))"

fun rehash_all :: "nat \<Rightarrow> addr option list \<Rightarrow> stringtable \<Rightarrow> stringtable outcome" where
  "rehash_all fuel [] t = Inr t"
| "rehash_all fuel (p # ps) t = andthen (rehash_chain fuel p t) (rehash_all fuel ps)"

definition st_Resize :: "nat \<Rightarrow> stringtable \<Rightarrow> stringtable outcome" where
  "st_Resize sz t = rehash_all (Suc (slotused t)) (strings t) (st_AllocNodes sz t)"

text \<open>\<open>Add\<close>: a negative length asks for the length of the C string.\<close>

definition add_length :: "char list \<Rightarrow> int \<Rightarrow> nat outcome" where
  "add_length news len =
     (if len < 0 then (if NUL \<in> set news then Inr (length (cstr news)) else Inl OutOfBounds)
      else if length news < nat len then Inl OutOfBounds else Inr (nat len))"

definition st_Add :: "addr \<Rightarrow> char list \<Rightarrow> int \<Rightarrow> stringtable \<Rightarrow> (addr \<times> stringtable) outcome" where
  "st_Add fresh news len t =
     andthen (add_length news len)
       (\<lambda>n. let w = take n news;
                newhash = hashstr w;
                h = str_place (numofslots t) newhash in
            andthen (add_walk (Suc (slotused t)) t w (strings t ! h))
              (\<lambda>r. case r of
                   Some a \<Rightarrow> Inr (a, t)
                 | None \<Rightarrow>
                     let t1 = t\<lparr>str_heap := (str_heap t)(fresh \<mapsto>
                                  \<lparr>str_next = strings t ! h, str_len = n, str_hash = newhash, str_val = w @ [NUL]\<rparr>),
                                strings := (strings t)[h := Some fresh],
                                slotused := slotused t + 1\<rparr> in
                     andthen (if slotused t1 > numofslots t1 then st_Resize (numofslots t1 * 2) t1 else Inr t1)
                       (\<lambda>t2. Inr (fresh, t2))))"

definition unlink_string :: "nat \<Rightarrow> addr \<Rightarrow> sqstring \<Rightarrow> addr option \<Rightarrow> stringtable \<Rightarrow> stringtable outcome" where
  "unlink_string h a s prev t =
     andthen
       (case prev of
          Some q \<Rightarrow> andthen (str_at t q)
            (\<lambda>sq. Inr (t\<lparr>str_heap := (str_heap t)(q \<mapsto> sq\<lparr>str_next := str_next s\<rparr>)\<rparr>))
        | None \<Rightarrow> Inr (t\<lparr>strings := (strings t)[h := str_next s]\<rparr>))
       (\<lambda>t1. Inr (t1\<lparr>slotused := slotused t1 - 1, str_heap := (str_heap t1)(a := None)\<rparr>))"

fun remove_walk :: "nat \<Rightarrow> nat \<Rightarrow> addr \<Rightarrow> addr option \<Rightarrow> addr option \<Rightarrow> stringtable \<Rightarrow> stringtable outcome" where
  "remove_walk 0 h bs prev p t = Inl Diverges"
| "remove_walk (Suc fuel) h bs prev None t = Inl AssertFail"
| "remove_walk (Suc fuel) h bs prev (Some a) t =
     andthen (str_at t a)
       (\<lambda>s. if a = bs then unlink_string h a s prev t else remove_walk fuel h bs (Some a) (str_next s) t)"

definition st_Remove :: "addr \<Rightarrow> stringtable \<Rightarrow> stringtable outcome" where
  "st_Remove bs t =
     andthen (str_at t bs)
       (\<lambda>b. let h = str_place (numofslots t) (str_hash b) in
            remove_walk (Suc (slotused t)) h bs None (strings t ! h) t)"

section \<open>Invariant\<close>

definition str_link :: "stringtable \<Rightarrow> addr \<Rightarrow> addr option" where
  "str_link t a = (case str_heap t a of None \<Rightarrow> None | Some s \<Rightarrow> str_next s)"

definition str_home :: "stringtable \<Rightarrow> addr \<Rightarrow> nat" where
  "str_home t a = (case str_heap t a of None \<Rightarrow> 0 | Some s \<Rightarrow> str_place (numofslots t) (str_hash s))"

definition str_wf :: "sqstring \<Rightarrow> bool" where
  "str_wf s \<longleftrightarrow> (\<exists>w. str_val s = w @ [NUL] \<and> str_len s = length w \<and> str_hash s = hashstr w)"

definition contents :: "stringtable \<Rightarrow> addr \<Rightarrow> string option" where
  "contents t a = map_option (\<lambda>s. butlast (str_val s)) (str_heap t a)"

definition linked :: "stringtable \<Rightarrow> (nat \<Rightarrow> addr list) \<Rightarrow> bool" where
  "linked t cs \<longleftrightarrow> numofslots t = length (strings t) \<and> 0 < numofslots t \<and>
     buckets_ok (str_link t) (str_home t) (strings t) cs"

definition str_ok :: "stringtable \<Rightarrow> (nat \<Rightarrow> addr list) \<Rightarrow> bool" where
  "str_ok t cs \<longleftrightarrow> linked t cs \<and> members (strings t) cs = dom (str_heap t) \<and> slotused t = card (dom (str_heap t)) \<and>
     (\<forall>a s. str_heap t a = Some s \<longrightarrow> str_wf s) \<and> inj_on (contents t) (dom (str_heap t))"

lemma str_okD:
  assumes "str_ok t cs"
  shows "linked t cs" "members (strings t) cs = dom (str_heap t)" "slotused t = card (dom (str_heap t))"
    "str_heap t a = Some s \<Longrightarrow> str_wf s" "inj_on (contents t) (dom (str_heap t))"
  using assms by (auto simp: str_ok_def)

lemma linkedD:
  assumes "linked t cs"
  shows "numofslots t = length (strings t)" "0 < numofslots t" "buckets_ok (str_link t) (str_home t) (strings t) cs"
  using assms by (auto simp: linked_def)

lemma str_place_less: "0 < n \<Longrightarrow> str_place n h < n"
  unfolding str_place_def by (rule unat_and_of_nat_less)

lemma str_wf_contents: "str_heap t a = Some s \<Longrightarrow> str_wf s \<Longrightarrow> contents t a = Some w \<longleftrightarrow> str_val s = w @ [NUL]"
  by (auto simp: contents_def str_wf_def)

lemma str_wf_hash: "str_wf s \<Longrightarrow> str_val s = w @ [NUL] \<Longrightarrow> str_hash s = hashstr w"
  by (auto simp: str_wf_def)

lemma linked_push:
  assumes "linked t cs" "a \<notin> members (strings t) cs" "h = str_place (numofslots t) (str_hash s)"
    and t': "t' = t\<lparr>str_heap := (str_heap t)(a \<mapsto> s\<lparr>str_next := strings t ! h\<rparr>), strings := (strings t)[h := Some a], slotused := n\<rparr>"
  obtains cs' where "linked t' cs'" "members (strings t') cs' = insert a (members (strings t) cs)"
proof -
  note l = linkedD [OF assms(1)]
  have h: "h < length (strings t)" using str_place_less [OF l(2)] l(1) assms(3) by simp
  have home: "str_home t' a = h" and link: "str_link t' a = strings t ! h"
    using assms(3) t' by (simp_all add: str_home_def str_link_def)
  have "str_link t' y = str_link t y" "str_home t' y = str_home t y" if "y \<in> members (strings t) cs" for y
    using that assms(2) t' by (auto simp: str_home_def str_link_def split: option.splits)
  note push = buckets_push [OF l(3) h home link assms(2) this]
  show ?thesis by (rule that [of "cs(h := a # cs h)"]) (use push l t' in \<open>auto simp: linked_def\<close>)
qed

section \<open>Growth\<close>

text \<open>The blocks without their links: what moving them between buckets does not change.\<close>

definition bare :: "stringtable \<Rightarrow> addr \<Rightarrow> sqstring option" where
  "bare t a = map_option (str_next_update (\<lambda>_. None)) (str_heap t a)"

definition same_strings :: "stringtable \<Rightarrow> stringtable \<Rightarrow> bool" where
  "same_strings t t' \<longleftrightarrow> numofslots t' = numofslots t \<and> slotused t' = slotused t \<and> bare t' = bare t"

lemma contents_bare: "contents t a = map_option (\<lambda>s. butlast (str_val s)) (bare t a)"
  by (simp add: contents_def bare_def option.map_comp comp_def)

lemma dom_bare: "dom (str_heap t) = dom (bare t)"
  by (auto simp: bare_def)

lemma str_wf_next: "str_wf (s\<lparr>str_next := q\<rparr>) \<longleftrightarrow> str_wf s"
  by (simp add: str_wf_def)

lemma wf_bare: "(\<forall>a s. str_heap t a = Some s \<longrightarrow> str_wf s) \<longleftrightarrow> (\<forall>a s. bare t a = Some s \<longrightarrow> str_wf s)"
  by (simp add: bare_def) (metis str_wf_next)

lemma same_strings_keeps:
  assumes "same_strings t t'"
  shows "dom (str_heap t') = dom (str_heap t)" "contents t' = contents t"
    "(\<forall>a s. str_heap t' a = Some s \<longrightarrow> str_wf s) \<longleftrightarrow> (\<forall>a s. str_heap t a = Some s \<longrightarrow> str_wf s)"
proof -
  have b: "bare t' = bare t" using assms by (simp add: same_strings_def)
  show "dom (str_heap t') = dom (str_heap t)" by (simp add: dom_bare b)
  show "contents t' = contents t" by (rule ext) (simp add: contents_bare b)
  show "(\<forall>a s. str_heap t' a = Some s \<longrightarrow> str_wf s) \<longleftrightarrow> (\<forall>a s. str_heap t a = Some s \<longrightarrow> str_wf s)"
    by (simp add: wf_bare b)
qed

lemma rehash_chain_ok:
  assumes "linked t cs" "chain (str_link t) xs p" "set xs \<inter> members (strings t) cs = {}" "set xs \<subseteq> dom (str_heap t)" "length xs < fuel"
  obtains t' cs' where "rehash_chain fuel p t = Inr t'" "linked t' cs'" "members (strings t') cs' = set xs \<union> members (strings t) cs"
    "same_strings t t'" "\<And>a. a \<notin> set xs \<Longrightarrow> str_heap t' a = str_heap t a"
  using assms
proof (induction xs arbitrary: t cs p fuel thesis)
  case Nil
  then obtain f where "fuel = Suc f" by (cases fuel) auto
  then show ?case using Nil by (auto simp: same_strings_def)
next
  case (Cons x xs)
  from Cons.prems obtain f s where f: "fuel = Suc f" and s: "str_heap t x = Some s" and p: "p = Some x" by (cases fuel) auto
  define h where "h = str_place (numofslots t) (str_hash s)"
  define t1 where "t1 = t\<lparr>str_heap := (str_heap t)(x \<mapsto> s\<lparr>str_next := strings t ! h\<rparr>), strings := (strings t)[h := Some x]\<rparr>"
  have x: "x \<notin> members (strings t) cs" "x \<notin> set xs"
    using Cons.prems(4) chain_distinct [OF Cons.prems(3)] by auto
  obtain cs1 where cs1: "linked t1 cs1" "members (strings t1) cs1 = insert x (members (strings t) cs)"
    by (rule linked_push [OF Cons.prems(2) x(1) h_def, of t1 "slotused t"]) (auto simp: t1_def)
  have "str_link t x = str_next s" using s by (simp add: str_link_def)
  then have "chain (str_link t) xs (str_next s)" using Cons.prems(3) by simp
  moreover have "chain (str_link t1) xs q \<longleftrightarrow> chain (str_link t) xs q" for q
    using x(2) by (intro seg_cong) (auto simp: str_link_def t1_def)
  ultimately have c: "chain (str_link t1) xs (str_next s)" by blast
  obtain t' cs' where t': "rehash_chain f (str_next s) t1 = Inr t'" "linked t' cs'" "members (strings t') cs' = set xs \<union> members (strings t1) cs1"
      "same_strings t1 t'" "\<And>a. a \<notin> set xs \<Longrightarrow> str_heap t' a = str_heap t1 a"
    by (rule Cons.IH [OF _ cs1(1) c, of f]) (use Cons.prems f x cs1(2) s in \<open>auto simp: t1_def\<close>)
  have "rehash_chain fuel p t = Inr t'"
    using t'(1) s p f by (simp add: str_at_def Let_def h_def t1_def)
  then show ?case
    by (rule Cons.prems(1) [OF _ t'(2)]) (use t' cs1(2) s in \<open>auto simp: same_strings_def bare_def t1_def fun_eq_iff\<close>)
qed

lemma rehash_all_ok:
  assumes "linked t cs" "list_all2 (chain (str_link t)) css ps" "distinct (concat css)" "set (concat css) \<inter> members (strings t) cs = {}"
    and "set (concat css) \<subseteq> dom (str_heap t)" "\<And>xs. xs \<in> set css \<Longrightarrow> length xs < fuel"
  obtains t' cs' where "rehash_all fuel ps t = Inr t'" "linked t' cs'" "members (strings t') cs' = set (concat css) \<union> members (strings t) cs"
    "same_strings t t'"
  using assms
proof (induction css arbitrary: t cs ps thesis)
  case Nil
  then show ?case by (auto simp: same_strings_def)
next
  case (Cons xs css)
  from Cons.prems(3) obtain p ps' where ps: "ps = p # ps'" "chain (str_link t) xs p" "list_all2 (chain (str_link t)) css ps'"
    by (auto simp: list_all2_Cons1)
  obtain t1 cs1 where t1: "rehash_chain fuel p t = Inr t1" "linked t1 cs1" "members (strings t1) cs1 = set xs \<union> members (strings t) cs"
      "same_strings t t1" "\<And>a. a \<notin> set xs \<Longrightarrow> str_heap t1 a = str_heap t a"
    by (rule rehash_chain_ok [OF Cons.prems(2) ps(2), of fuel]) (use Cons.prems in auto)
  have "str_heap t1 a = str_heap t a" if "ys \<in> set css" "a \<in> set ys" for ys a
    using that Cons.prems(4) by (intro t1(5)) auto
  then have "chain (str_link t1) ys q \<longleftrightarrow> chain (str_link t) ys q" if "ys \<in> set css" for ys q
    using that by (intro seg_cong) (simp add: str_link_def)
  then have la: "list_all2 (chain (str_link t1)) css ps'"
    using ps(3) by (auto simp: list_all2_conv_all_nth)
  obtain t' cs' where t': "rehash_all fuel ps' t1 = Inr t'" "linked t' cs'"
      "members (strings t') cs' = set (concat css) \<union> members (strings t1) cs1" "same_strings t1 t'"
    by (rule Cons.IH [OF _ t1(2) la]) (use Cons.prems t1 same_strings_keeps(1) [OF t1(4)] in auto)
  show ?case
    by (rule Cons.prems(1) [of t' cs']) (use t' t1 ps(1) in \<open>auto simp: same_strings_def\<close>)
qed

lemma chain_length:
  assumes ok: "str_ok t cs" and h: "h < length (strings t)"
  shows "length (cs h) < Suc (slotused t)"
proof -
  have "distinct (cs h)" by (rule chain_distinct [OF buckets_okD(1) [OF linkedD(3) [OF str_okD(1) [OF ok]] h]])
  then have "length (cs h) = card (set (cs h))" by (simp add: distinct_card)
  also have "\<dots> \<le> card (dom (str_heap t))"
    by (rule card_mono) (use h str_okD(2) [OF ok] finite_members [of "strings t" cs] in \<open>auto simp: members_def\<close>)
  finally show ?thesis using str_okD(3) [OF ok] by simp
qed

lemma st_Resize_ok:
  assumes ok: "str_ok t cs" and sz: "0 < sz"
  obtains t' cs' where "st_Resize sz t = Inr t'" "str_ok t' cs'" "contents t' = contents t"
proof -
  note l = linkedD [OF str_okD(1) [OF ok]] and li = buckets_listed [OF linkedD(3) [OF str_okD(1) [OF ok]]]
  define t0 where "t0 = st_AllocNodes sz t"
  have heap: "str_heap t0 = str_heap t" "slotused t0 = slotused t" by (simp_all add: t0_def st_AllocNodes_def)
  have l0: "linked t0 (\<lambda>_. [])" "members (strings t0) (\<lambda>_. []) = {}"
    using sz by (auto simp: linked_def t0_def st_AllocNodes_def buckets_ok_empty)
  have link: "str_link t0 = str_link t" by (rule ext) (simp add: str_link_def heap)
  have len: "length xs < Suc (slotused t)" if "xs \<in> set (map cs [0..<length (strings t)])" for xs
    using that chain_length [OF ok] by auto
  obtain t' cs' where t': "rehash_all (Suc (slotused t)) (strings t) t0 = Inr t'" "linked t' cs'"
      "members (strings t') cs' = set (concat (map cs [0..<length (strings t)])) \<union> members (strings t0) (\<lambda>_. [])" "same_strings t0 t'"
    by (rule rehash_all_ok [OF l0(1), of "map cs [0..<length (strings t)]" "strings t" "Suc (slotused t)"])
      (use li l0(2) len str_okD(2) [OF ok] in \<open>auto simp: link heap\<close>)
  note k = same_strings_keeps [OF t'(4)]
  have c0: "contents t0 = contents t" by (rule ext) (simp add: contents_def heap)
  have "str_ok t' cs'"
    unfolding str_ok_def
    using t'(2-4) li(3) l0(2) heap str_okD [OF ok] k c0 by (simp add: same_strings_def)
  with t'(1) k(2) c0 that show ?thesis by (simp add: st_Resize_def t0_def)
qed

section \<open>Adding and removing\<close>

lemma add_walk_ok:
  assumes "chain (str_link t) xs p" "set xs \<subseteq> dom (str_heap t)" "\<And>a s. a \<in> set xs \<Longrightarrow> str_heap t a = Some s \<Longrightarrow> str_wf s" "length xs < fuel"
  shows "\<exists>r. add_walk fuel t w p = Inr r \<and>
    (case r of None \<Rightarrow> \<forall>a \<in> set xs. contents t a \<noteq> Some w | Some a \<Rightarrow> a \<in> set xs \<and> contents t a = Some w)"
  using assms
proof (induction xs arbitrary: p fuel)
  case Nil
  then obtain f where "fuel = Suc f" by (cases fuel) auto
  then show ?case using Nil by simp
next
  case (Cons x xs)
  from Cons.prems obtain f s where f: "fuel = Suc f" and s: "str_heap t x = Some s" and p: "p = Some x" by (cases fuel) auto
  have wf: "str_wf s" by (rule Cons.prems(3)) (use s in auto)
  then obtain v where v: "str_val s = v @ [NUL]" "str_len s = length v" by (auto simp: str_wf_def)
  have eq: "str_len s = length w \<and> take (length w) (str_val s) = w \<longleftrightarrow> contents t x = Some w"
    unfolding str_wf_contents [OF s wf] using v by auto
  have "str_link t x = str_next s" using s by (simp add: str_link_def)
  then have "chain (str_link t) xs (str_next s)" using Cons.prems(1) by simp
  from Cons.IH [OF this, of f] Cons.prems f obtain r where
    "add_walk f t w (str_next s) = Inr r" "case r of None \<Rightarrow> \<forall>a \<in> set xs. contents t a \<noteq> Some w | Some a \<Rightarrow> a \<in> set xs \<and> contents t a = Some w"
    by auto
  then show ?case using eq s p f by (auto simp: str_at_def split: option.splits)
qed

lemma home_of_contents:
  assumes "str_ok t cs" "contents t a = Some w"
  shows "str_home t a = str_place (numofslots t) (hashstr w)" "a \<in> set (cs (str_home t a))" "a \<in> dom (str_heap t)"
proof -
  from assms(2) obtain s where s: "str_heap t a = Some s" by (auto simp: contents_def)
  note wf = str_okD(4) [OF assms(1) s]
  show "a \<in> dom (str_heap t)" using s by auto
  then show "a \<in> set (cs (str_home t a))"
    using str_okD(2) [OF assms(1)] by (intro members_place(2) [OF linkedD(3) [OF str_okD(1) [OF assms(1)]]]) simp
  show "str_home t a = str_place (numofslots t) (hashstr w)"
    using s str_wf_hash [OF wf, of w] str_wf_contents [OF s wf, of w] assms(2) by (simp add: str_home_def)
qed

lemma enter_string:
  assumes ok: "str_ok t cs" and "str_heap t fresh = None" "\<And>a. contents t a \<noteq> Some w" "h = str_place (numofslots t) (hashstr w)"
    and t': "t' = t\<lparr>str_heap := (str_heap t)(fresh \<mapsto> \<lparr>str_next = strings t ! h, str_len = length w, str_hash = hashstr w, str_val = w @ [NUL]\<rparr>),
        strings := (strings t)[h := Some fresh], slotused := slotused t + 1\<rparr>"
  obtains cs' where "str_ok t' cs'" "contents t' = (contents t)(fresh \<mapsto> w)"
proof -
  have c: "contents t' = (contents t)(fresh \<mapsto> w)" by (rule ext) (simp add: contents_def t')
  have d: "dom (str_heap t') = insert fresh (dom (str_heap t))" by (simp add: t')
  have f: "fresh \<notin> members (strings t) cs" using assms(2) str_okD(2) [OF ok] by auto
  have fin: "finite (dom (str_heap t))" using str_okD(2) [OF ok] finite_members by metis
  obtain cs' where cs': "linked t' cs'" "members (strings t') cs' = insert fresh (members (strings t) cs)"
    by (rule linked_push [OF str_okD(1) [OF ok] f, of h "\<lparr>str_next = None, str_len = length w, str_hash = hashstr w, str_val = w @ [NUL]\<rparr>" t'])
      (use assms in auto)
  have "inj_on (contents t') (dom (str_heap t'))"
    unfolding d c using str_okD(5) [OF ok] assms(2) by (auto simp: inj_on_def) (metis assms(3))+
  moreover have "str_wf s" if "str_heap t' a = Some s" for a s
    using that str_okD(4) [OF ok] by (auto simp: t' str_wf_def split: if_splits)
  ultimately have "str_ok t' cs'"
    using cs' d fin str_okD(2,3) [OF ok] assms(2) unfolding str_ok_def by (auto simp: t' card_insert_if)
  then show ?thesis using c that by blast
qed

lemma st_Add_ok:
  assumes ok: "str_ok t cs" and fresh: "str_heap t fresh = None" and n: "add_length news len = Inr n"
  obtains a t' cs' where "st_Add fresh news len t = Inr (a, t')" "str_ok t' cs'" "contents t' a = Some (take n news)"
    "(if \<exists>b. contents t b = Some (take n news) then t' = t else a = fresh \<and> contents t' = (contents t)(fresh \<mapsto> take n news))"
proof -
  define w where "w = take n news"
  define h where "h = str_place (numofslots t) (hashstr w)"
  note l = linkedD [OF str_okD(1) [OF ok]]
  have h: "h < length (strings t)" using str_place_less [OF l(2)] l(1) by (simp add: h_def)
  have lw: "length w = n" using n by (auto simp: w_def add_length_def cstr_def length_takeWhile_le split: if_splits)
  have n': "add_length news len = Inr (length w)" "take (length w) news = w" using n lw w_def by simp_all
  have sub: "set (cs h) \<subseteq> dom (str_heap t)" using h str_okD(2) [OF ok] by (auto simp: members_def)
  obtain r where r: "add_walk (Suc (slotused t)) t w (strings t ! h) = Inr r"
      "case r of None \<Rightarrow> \<forall>a \<in> set (cs h). contents t a \<noteq> Some w | Some a \<Rightarrow> a \<in> set (cs h) \<and> contents t a = Some w"
    using add_walk_ok [OF buckets_okD(1) [OF l(3) h] sub _ chain_length [OF ok h], of w] str_okD(4) [OF ok] by blast
  show ?thesis
  proof (cases r)
    case (Some a)
    then have "st_Add fresh news len t = Inr (a, t)" "contents t a = Some w"
      using r n by (auto simp: st_Add_def Let_def w_def h_def)
    then show ?thesis by (intro that [of a t cs]) (use ok w_def in auto)
  next
    case None
    have absent: "contents t a \<noteq> Some w" for a
      using home_of_contents [OF ok, of a w] r(2) None by (auto simp: h_def)
    define t1 where "t1 = t\<lparr>str_heap := (str_heap t)(fresh \<mapsto> \<lparr>str_next = strings t ! h, str_len = length w, str_hash = hashstr w, str_val = w @ [NUL]\<rparr>),
        strings := (strings t)[h := Some fresh], slotused := slotused t + 1\<rparr>"
    obtain cs1 where t1: "str_ok t1 cs1" "contents t1 = (contents t)(fresh \<mapsto> w)"
      by (rule enter_string [OF ok fresh absent h_def t1_def])
    have nz: "0 < numofslots t1 * 2" using l(2) by (simp add: t1_def)
    obtain t3 cs3 where t3: "st_Resize (numofslots t1 * 2) t1 = Inr t3" "str_ok t3 cs3" "contents t3 = contents t1"
      by (rule st_Resize_ok [OF t1(1) nz])
    obtain t2 cs2 where t2: "(if slotused t1 > numofslots t1 then st_Resize (numofslots t1 * 2) t1 else Inr t1) = Inr t2"
        "str_ok t2 cs2" "contents t2 = contents t1"
      using that [of t3 cs3] that [of t1 cs1] t3 t1(1) by presburger
    have "st_Add fresh news len t = andthen (if slotused t1 > numofslots t1 then st_Resize (numofslots t1 * 2) t1 else Inr t1) (\<lambda>t2. Inr (fresh, t2))"
      using r(1) None by (simp add: st_Add_def Let_def n' h_def [symmetric] t1_def)
    then have "st_Add fresh news len t = Inr (fresh, t2)" using t2(1) by simp
    then show ?thesis by (intro that [of fresh t2 cs2]) (use t2 t1 absent w_def in auto)
  qed
qed

lemma remove_walk_reach:
  assumes "chain (str_link t) (xs @ a # ys) p" "set xs \<subseteq> dom (str_heap t)" "str_heap t a = Some s" "length xs < fuel"
  shows "remove_walk fuel h a prev p t = unlink_string h a s (if xs = [] then prev else Some (last xs)) t"
  using assms
proof (induction xs arbitrary: p fuel prev)
  case Nil
  then obtain f where "fuel = Suc f" by (cases fuel) auto
  then show ?case using Nil by (simp add: str_at_def)
next
  case (Cons x xs)
  from Cons.prems obtain f sx where f: "fuel = Suc f" and sx: "str_heap t x = Some sx" and p: "p = Some x" by (cases fuel) auto
  have ne: "x \<noteq> a" using chain_distinct [OF Cons.prems(1)] by auto
  have "str_link t x = str_next sx" using sx by (simp add: str_link_def)
  then have "chain (str_link t) (xs @ a # ys) (str_next sx)" using Cons.prems(1) by (simp del: seg_append)
  from Cons.IH [OF this, of f "Some x"] Cons.prems f ne sx p show ?case by (auto simp: str_at_def)
qed

lemma unlink_string_ok:
  assumes ok: "linked t cs" and h: "h < length (strings t)" and cs: "cs h = xs @ a # ys" and s: "str_heap t a = Some s"
    and sub: "set (cs h) \<subseteq> dom (str_heap t)"
  obtains t' cs' where "unlink_string h a s (if xs = [] then None else Some (last xs)) t = Inr t'" "linked t' cs'"
    "members (strings t') cs' = members (strings t) cs - {a}" "slotused t' = slotused t - 1" "bare t' = (bare t)(a := None)"
proof -
  note l = linkedD [OF ok]
  have link: "str_link t a = str_next s" using s by (simp add: str_link_def)
  show ?thesis
  proof (cases xs rule: rev_cases)
    case Nil
    define t' where "t' = t\<lparr>strings := (strings t)[h := str_next s], slotused := slotused t - 1, str_heap := (str_heap t)(a := None)\<rparr>"
    note u = buckets_unlink_first [OF l(3) h cs [unfolded Nil append_Nil]]
    have "linked t' (cs(h := ys))"
      unfolding linked_def using l(1,2) u buckets_ok_cong [OF u(1), of "str_link t'" "str_home t'"]
      by (auto simp: t'_def str_link_def str_home_def link [unfolded str_link_def] split: option.splits)
    moreover have "bare t' = (bare t)(a := None)" by (rule ext) (simp add: t'_def bare_def)
    moreover have "unlink_string h a s None t = Inr t'" by (simp add: unlink_string_def t'_def)
    ultimately show ?thesis using that [of t' "cs(h := ys)"] Nil u(2) link by (simp add: t'_def)
  next
    case (snoc zs q)
    obtain sq where sq: "str_heap t q = Some sq" using sub cs snoc by auto
    have qa: "q \<noteq> a" using chain_distinct [OF buckets_okD(1) [OF l(3) h]] cs snoc by auto
    define t' where "t' = t\<lparr>str_heap := ((str_heap t)(q \<mapsto> sq\<lparr>str_next := str_next s\<rparr>))(a := None), slotused := slotused t - 1\<rparr>"
    have cs2: "cs h = zs @ q # a # ys" using cs snoc by simp
    note u = buckets_unlink [OF l(3) h cs2]
    have "linked t' (cs(h := zs @ q # ys))"
      unfolding linked_def using l(1,2) u buckets_ok_cong [OF u(1), of "str_link t'" "str_home t'"] sq qa link
      by (auto simp: t'_def str_link_def str_home_def split: option.splits)
    moreover have "bare t' = (bare t)(a := None)" using sq by (intro ext) (simp add: t'_def bare_def)
    moreover have "unlink_string h a s (Some q) t = Inr t'" using sq by (simp add: unlink_string_def str_at_def t'_def)
    ultimately show ?thesis using that [of t' "cs(h := zs @ q # ys)"] snoc u(2) by (simp add: t'_def)
  qed
qed

lemma st_Remove_ok:
  assumes ok: "str_ok t cs" and s: "str_heap t a = Some s"
  obtains t' cs' where "st_Remove a t = Inr t'" "str_ok t' cs'" "contents t' = (contents t)(a := None)"
proof -
  define h where "h = str_place (numofslots t) (str_hash s)"
  note l = linkedD [OF str_okD(1) [OF ok]]
  have h: "h < length (strings t)" using str_place_less [OF l(2)] l(1) by (simp add: h_def)
  have home: "str_home t a = h" using s by (simp add: str_home_def h_def)
  have "a \<in> members (strings t) cs" using s str_okD(2) [OF ok] by auto
  from members_place(2) [OF l(3) this] obtain xs ys where cs: "cs h = xs @ a # ys" unfolding home by (metis split_list)
  have c: "chain (str_link t) (xs @ a # ys) (strings t ! h)" using buckets_okD(1) [OF l(3) h] cs by simp
  have sub: "set (cs h) \<subseteq> dom (str_heap t)" using h str_okD(2) [OF ok] by (auto simp: members_def)
  have reach: "st_Remove a t = unlink_string h a s (if xs = [] then None else Some (last xs)) t"
    using remove_walk_reach [OF c _ s, of "Suc (slotused t)" h None] sub cs chain_length [OF ok h] s
    by (auto simp: st_Remove_def str_at_def h_def [symmetric] Let_def)
  obtain t' cs' where t': "unlink_string h a s (if xs = [] then None else Some (last xs)) t = Inr t'" "linked t' cs'"
      "members (strings t') cs' = members (strings t) cs - {a}" "slotused t' = slotused t - 1" "bare t' = (bare t)(a := None)"
    by (rule unlink_string_ok [OF str_okD(1) [OF ok] h cs s sub])
  have con: "contents t' = (contents t)(a := None)" by (rule ext) (simp add: contents_bare t'(5))
  have d: "dom (str_heap t') = dom (str_heap t) - {a}" by (auto simp: dom_bare t'(5) split: if_splits)
  have "finite (dom (str_heap t))" using str_okD(2) [OF ok] finite_members by metis
  moreover have "\<forall>b s. bare t b = Some s \<longrightarrow> str_wf s" using str_okD(4) [OF ok] wf_bare [of t] by blast
  ultimately have "str_ok t' cs'"
    unfolding str_ok_def using t'(2-4) d s str_okD(2,3,5) [OF ok] con
    by (auto simp: wf_bare t'(5) inj_on_def card_Diff_singleton_if)
  with reach t'(1) con that show ?thesis by simp
qed

section \<open>Interning\<close>

text \<open>
  The contract of an interning table: live objects with the same contents are the same object,
  adding returns the object that has the contents, and only makes one when there is none.
\<close>

datatype ('p, 'w) intern_op = Intern 'w 'p | Drop 'p

fun intern_run :: "('p \<Rightarrow> 'w \<Rightarrow> 's \<Rightarrow> ('p \<times> 's) outcome) \<Rightarrow> ('p \<Rightarrow> 's \<Rightarrow> 's outcome)
     \<Rightarrow> ('p, 'w) intern_op list \<Rightarrow> 's \<Rightarrow> ('p list \<times> 's) outcome" where
  "intern_run add remove [] s = Inr ([], s)"
| "intern_run add remove (Intern w p # ops) s =
     andthen (add p w s) (\<lambda>(q, s'). andthen (intern_run add remove ops s') (\<lambda>(qs, s''). Inr (q # qs, s'')))"
| "intern_run add remove (Drop p # ops) s = andthen (remove p s) (intern_run add remove ops)"

text \<open>
  The specification, over the list of live objects with their contents. \<open>None\<close> when a new object is
  placed on a live one or an object that is not live is dropped.
\<close>

fun intern_spec :: "('p, 'w) intern_op list \<Rightarrow> ('p \<times> 'w) list \<Rightarrow> ('p list \<times> ('p \<times> 'w) list) option" where
  "intern_spec [] ms = Some ([], ms)"
| "intern_spec (Intern w p # ops) ms =
     (if p \<in> fst ` set ms then None
      else case find (\<lambda>m. snd m = w) ms of
             Some m \<Rightarrow> map_option (\<lambda>(qs, ms'). (fst m # qs, ms')) (intern_spec ops ms)
           | None \<Rightarrow> map_option (\<lambda>(qs, ms'). (p # qs, ms')) (intern_spec ops ((p, w) # ms)))"
| "intern_spec (Drop p # ops) ms =
     (if p \<in> fst ` set ms then intern_spec ops (filter (\<lambda>m. fst m \<noteq> p) ms) else None)"

lemma map_of_drop: "(map_of ms)(p := None) = map_of (filter (\<lambda>m. fst m \<noteq> p) ms)"
proof
  fix x
  show "((map_of ms)(p := None)) x = map_of (filter (\<lambda>m. fst m \<noteq> p) ms) x"
    by (induction ms) auto
qed

locale interning =
  fixes ok :: "'s \<Rightarrow> bool" and live :: "'s \<Rightarrow> 'p \<Rightarrow> 'w option"
    and add :: "'p \<Rightarrow> 'w \<Rightarrow> 's \<Rightarrow> ('p \<times> 's) outcome" and remove :: "'p \<Rightarrow> 's \<Rightarrow> 's outcome"
  assumes live_inj: "ok s \<Longrightarrow> live s p = Some w \<Longrightarrow> live s q = Some w \<Longrightarrow> p = q"
    and add_known: "ok s \<Longrightarrow> live s p = None \<Longrightarrow> live s q = Some w \<Longrightarrow> add p w s = Inr (q, s)"
    and add_new: "ok s \<Longrightarrow> live s p = None \<Longrightarrow> (\<And>q. live s q \<noteq> Some w) \<Longrightarrow>
      \<exists>s'. add p w s = Inr (p, s') \<and> ok s' \<and> live s' = (live s)(p \<mapsto> w)"
    and remove_live: "ok s \<Longrightarrow> live s p = Some w \<Longrightarrow> \<exists>s'. remove p s = Inr s' \<and> ok s' \<and> live s' = (live s)(p := None)"
begin

lemma run_refines:
  assumes "ok s" "live s = map_of ms" "distinct (map fst ms)" "distinct (map snd ms)" "intern_spec ops ms = Some (qs, ms')"
  shows "\<exists>s'. intern_run add remove ops s = Inr (qs, s') \<and> ok s' \<and> live s' = map_of ms' \<and> distinct (map fst ms') \<and> distinct (map snd ms')"
  using assms
proof (induction ops arbitrary: s ms qs)
  case (Cons op ops)
  show ?case
  proof (cases op)
    case (Intern w p)
    have p: "live s p = None" using Cons.prems Intern by (auto simp: map_of_eq_None_iff split: if_splits)
    show ?thesis
    proof (cases "find (\<lambda>m. snd m = w) ms")
      case None
      then have new: "live s q \<noteq> Some w" for q using Cons.prems(2) by (auto simp: find_None_iff dest: map_of_SomeD)
      obtain s' where s': "add p w s = Inr (p, s')" "ok s'" "live s' = (live s)(p \<mapsto> w)"
        using add_new [OF Cons.prems(1) p new] by blast
      from None Cons.prems(5) Intern obtain qs' where "intern_spec ops ((p, w) # ms) = Some (qs', ms')" "qs = p # qs'"
        by (auto split: if_splits)
      with Cons.IH [OF s'(2), of "(p, w) # ms" qs'] s' Cons.prems(2-5) None Intern show ?thesis
        by (force simp: find_None_iff fun_upd_def split: if_splits)
    next
      case (Some m)
      then have m: "m \<in> set ms" "snd m = w" by (auto simp: find_Some_iff)
      then have "live s (fst m) = Some w" using Cons.prems(2,3) by (metis map_of_is_SomeI prod.collapse)
      from add_known [OF Cons.prems(1) p this] Cons.IH [OF Cons.prems(1-4)] Cons.prems(5) Intern Some show ?thesis
        by (fastforce split: if_splits)
    qed
  next
    case (Drop p)
    then obtain w where w: "live s p = Some w"
      using Cons.prems by (cases "map_of ms p") (auto simp: map_of_eq_None_iff split: if_splits)
    obtain s' where s': "remove p s = Inr s'" "ok s'" "live s' = (live s)(p := None)"
      using remove_live [OF Cons.prems(1) w] by blast
    have "live s' = map_of (filter (\<lambda>m. fst m \<noteq> p) ms)"
      unfolding s'(3) Cons.prems(2) by (rule map_of_drop)
    with Cons.IH [OF s'(2) this, of qs] Cons.prems Drop s' show ?thesis
      by (auto simp: distinct_map_filter split: if_splits)
  qed
qed simp

end

section \<open>The string table interns\<close>

definition st_intern :: "addr \<Rightarrow> string \<Rightarrow> stringtable \<Rightarrow> (addr \<times> stringtable) outcome" where
  "st_intern fresh w t = st_Add fresh w (int (length w)) t"

lemma contents_inj:
  assumes "str_ok t cs" "contents t a = Some w" "contents t b = Some w"
  shows "a = b"
  using home_of_contents(3) [OF assms(1,2)] home_of_contents(3) [OF assms(1,3)] assms(2,3) str_okD(5) [OF assms(1)]
  by (simp add: inj_onD)

lemma st_intern_ok:
  assumes ok: "str_ok t cs" and p: "contents t p = None"
  shows "contents t q = Some w \<Longrightarrow> st_intern p w t = Inr (q, t)"
    "(\<And>q. contents t q \<noteq> Some w) \<Longrightarrow> \<exists>t'. st_intern p w t = Inr (p, t') \<and> (\<exists>cs. str_ok t' cs) \<and> contents t' = (contents t)(p \<mapsto> w)"
proof -
  have p': "str_heap t p = None" using p by (simp add: contents_def)
  have n: "add_length w (int (length w)) = Inr (length w)" by (simp add: add_length_def)
  obtain a t' cs' where a: "st_Add p w (int (length w)) t = Inr (a, t')" "str_ok t' cs'" "contents t' a = Some (take (length w) w)"
      "(if \<exists>b. contents t b = Some (take (length w) w) then t' = t else a = p \<and> contents t' = (contents t)(p \<mapsto> take (length w) w))"
    by (rule st_Add_ok [OF ok p' n])
  show "contents t q = Some w \<Longrightarrow> st_intern p w t = Inr (q, t)"
    using a contents_inj [OF ok, of a w q] by (auto simp: st_intern_def split: if_splits)
  show "(\<And>q. contents t q \<noteq> Some w) \<Longrightarrow> \<exists>t'. st_intern p w t = Inr (p, t') \<and> (\<exists>cs. str_ok t' cs) \<and> contents t' = (contents t)(p \<mapsto> w)"
    using a by (auto simp: st_intern_def)
qed

interpretation string_table: interning "\<lambda>t. \<exists>cs. str_ok t cs" contents st_intern st_Remove
proof unfold_locales
  fix s :: stringtable and p q w
  assume "\<exists>cs. str_ok s cs"
  then obtain cs where ok: "str_ok s cs" ..
  show "contents s p = Some w \<Longrightarrow> contents s q = Some w \<Longrightarrow> p = q" by (rule contents_inj [OF ok])
  show "contents s p = None \<Longrightarrow> contents s q = Some w \<Longrightarrow> st_intern p w s = Inr (q, s)" by (rule st_intern_ok(1) [OF ok])
  show "contents s p = None \<Longrightarrow> (\<And>q. contents s q \<noteq> Some w) \<Longrightarrow>
      \<exists>s'. st_intern p w s = Inr (p, s') \<and> (\<exists>cs. str_ok s' cs) \<and> contents s' = (contents s)(p \<mapsto> w)"
    by (rule st_intern_ok(2) [OF ok])
  assume "contents s p = Some w"
  then obtain b where "str_heap s p = Some b" by (auto simp: contents_def)
  from st_Remove_ok [OF ok this] show "\<exists>s'. st_Remove p s = Inr s' \<and> (\<exists>cs. str_ok s' cs) \<and> contents s' = (contents s)(p := None)" by metis
qed

lemma SQStringTable_ok: "str_ok SQStringTable (\<lambda>_. [])" "contents SQStringTable = map_of []"
proof -
  show "str_ok SQStringTable (\<lambda>_. [])"
    by (auto simp: str_ok_def linked_def SQStringTable_def st_AllocNodes_def buckets_ok_empty)
  show "contents SQStringTable = map_of []"
    by (rule ext) (simp add: contents_def SQStringTable_def st_AllocNodes_def)
qed

text \<open>
  C12. The string table interns: in any history of additions and removals on a new table, through any
  number of growths, every addition returns the one live string with these contents, the old one if
  there is one and the new block otherwise; removals unlink exactly their string; no walk runs on, no
  freed string is read and the assertion that a removed string is found holds. So two live strings
  are the same object exactly when their contents are equal, which is what value equality and the
  hash tables rely on.
\<close>

theorem string_table_interns:
  assumes "intern_spec ops [] = Some (ptrs, live)"
  shows "\<exists>t. intern_run st_intern st_Remove ops SQStringTable = Inr (ptrs, t) \<and> contents t = map_of live \<and>
    (\<forall>p q w v. contents t p = Some w \<and> contents t q = Some v \<longrightarrow> (p = q \<longleftrightarrow> w = v))"
proof -
  have "\<exists>cs. str_ok SQStringTable cs" using SQStringTable_ok(1) by blast
  from string_table.run_refines [OF this SQStringTable_ok(2) _ _ assms] obtain t where
    t: "intern_run st_intern st_Remove ops SQStringTable = Inr (ptrs, t)" "\<exists>cs. str_ok t cs" "contents t = map_of live"
    by auto
  with string_table.live_inj [OF t(2)] show ?thesis by fastforce
qed

theorem string_table_interns_witness:
  "\<exists>t. intern_run st_intern st_Remove
        [Intern ''a'' 1, Intern ''b'' 2, Intern ''a'' 3, Intern ''c'' 3, Intern ''d'' 4, Intern ''e'' 5, Drop 2, Intern ''b'' 6, Intern ''e'' 7]
        SQStringTable = Inr ([1, 2, 1, 3, 4, 5, 6, 5], t) \<and>
     contents t = map_of [(6, ''b''), (5, ''e''), (4, ''d''), (3, ''c''), (1, ''a'')]"
  using string_table_interns
    [of "[Intern ''a'' 1, Intern ''b'' 2, Intern ''a'' 3, Intern ''c'' 3, Intern ''d'' 4, Intern ''e'' 5, Drop 2, Intern ''b'' 6, Intern ''e'' 7]"
        "[1, 2, 1, 3, 4, 5, 6, 5]" "[(6, ''b''), (5, ''e''), (4, ''d''), (3, ''c''), (1, ''a'')]"]
  by auto

end
