(* ===== verification/RefTable.thy ===== *)
theory RefTable
  imports Links SqObject
begin

text \<open>
  The table of references held by C++ code (\<open>RefTable\<close> in \<open>utility/sqstate.cpp\<close>, reached by \<open>sq_addref\<close>,
  \<open>sq_release\<close> and \<open>sq_getrefcount\<close> of \<open>utility/sqapi.cpp\<close>): an array of nodes that are linked into
  buckets or into the list of free nodes. A node pointer is the node's index.
\<close>

section \<open>The table\<close>

record refnode =
  rn_obj :: sqobject
  rn_refs :: "32 word"
  rn_next :: "nat option"

record reftable =
  rt_numofslots :: nat
  rt_slotused :: nat
  rt_nodes :: "refnode list"
  rt_freelist :: "nat option"
  rt_buckets :: "nat option list"

definition rt_AllocNodes :: "nat \<Rightarrow> reftable" where
  "rt_AllocNodes sz = \<lparr>rt_numofslots = sz, rt_slotused = 0,
     rt_nodes = map (\<lambda>n. \<lparr>rn_obj = OT_NULL, rn_refs = 0, rn_next = (if n + 1 < sz then Some (n + 1) else None)\<rparr>) [0..<sz],
     rt_freelist = Some 0, rt_buckets = replicate sz None\<rparr>"

definition RefTable_new :: reftable where
  "RefTable_new = rt_AllocNodes 4"

definition rt_place :: "(32 word \<Rightarrow> 32 word) \<Rightarrow> nat \<Rightarrow> sqobject \<Rightarrow> nat" where
  "rt_place f2i n ob = unat (HashObj f2i ob AND of_nat (n - 1))"

text \<open>\<open>Add\<close> takes the first free node and puts it in front of its bucket.\<close>

definition rt_Add :: "nat \<Rightarrow> sqobject \<Rightarrow> reftable \<Rightarrow> (nat \<times> reftable) outcome" where
  "rt_Add mainpos ob t =
     andthen (of_opt NullDeref (rt_freelist t))
       (\<lambda>i. let n = rt_nodes t ! i in
            if rn_refs n \<noteq> 0 then Inl AssertFail
            else Inr (i, t\<lparr>rt_nodes := (rt_nodes t)[i := n\<lparr>rn_obj := ob, rn_next := rt_buckets t ! mainpos\<rparr>],
                           rt_buckets := (rt_buckets t)[mainpos := Some i],
                           rt_freelist := rn_next n,
                           rt_slotused := rt_slotused t + 1\<rparr>))"

text \<open>The nodes of the old array are entered one by one; the result counts them.\<close>

fun rt_readd :: "(32 word \<Rightarrow> 32 word) \<Rightarrow> refnode list \<Rightarrow> nat \<Rightarrow> reftable \<Rightarrow> (nat \<times> reftable) outcome" where
  "rt_readd f2i [] nfound t = Inr (nfound, t)"
| "rt_readd f2i (n # ns) nfound t =
     (if rn_obj n = OT_NULL then rt_readd f2i ns nfound t
      else if rn_refs n = 0 then Inl AssertFail
      else andthen (rt_Add (rt_place f2i (rt_numofslots t) (rn_obj n)) (rn_obj n) t)
             (\<lambda>(i, t'). rt_readd f2i ns (nfound + 1)
                (t'\<lparr>rt_nodes := (rt_nodes t')[i := (rt_nodes t' ! i)\<lparr>rn_refs := rn_refs n\<rparr>]\<rparr>)))"

definition rt_Resize :: "(32 word \<Rightarrow> 32 word) \<Rightarrow> nat \<Rightarrow> reftable \<Rightarrow> reftable outcome" where
  "rt_Resize f2i sz t =
     andthen (rt_readd f2i (rt_nodes t) 0 (rt_AllocNodes sz))
       (\<lambda>(nfound, t'). if nfound = rt_numofslots t then Inr t' else Inl AssertFail)"

text \<open>The walk of a bucket: the node of the object, if any, and the node before it.\<close>

fun rt_walk :: "nat \<Rightarrow> reftable \<Rightarrow> sqobject \<Rightarrow> nat option \<Rightarrow> nat option \<Rightarrow> (nat option \<times> nat option) outcome" where
  "rt_walk 0 t ob prev ref = Inl Diverges"
| "rt_walk (Suc fuel) t ob prev None = Inr (None, prev)"
| "rt_walk (Suc fuel) t ob prev (Some i) =
     (if rn_obj (rt_nodes t ! i) = ob then Inr (Some i, prev)
      else rt_walk fuel t ob (Some i) (rn_next (rt_nodes t ! i)))"

definition rt_Get :: "(32 word \<Rightarrow> 32 word) \<Rightarrow> sqobject \<Rightarrow> bool \<Rightarrow> reftable \<Rightarrow> (nat option \<times> nat \<times> nat option \<times> reftable) outcome" where
  "rt_Get f2i ob add t =
     (let mainpos = rt_place f2i (rt_numofslots t) ob in
      andthen (rt_walk (Suc (rt_numofslots t)) t ob None (rt_buckets t ! mainpos))
        (\<lambda>(ref, prev).
           if ref = None \<and> add then
             andthen (if rt_numofslots t = rt_slotused t then
                        if rt_freelist t \<noteq> None then Inl AssertFail else rt_Resize f2i (rt_numofslots t * 2) t
                      else Inr t)
               (\<lambda>t1. let mainpos1 = rt_place f2i (rt_numofslots t1) ob in
                     andthen (rt_Add mainpos1 ob t1) (\<lambda>(i, t2). Inr (Some i, mainpos1, prev, t2)))
           else Inr (ref, mainpos, prev, t)))"

definition rt_AddRef :: "(32 word \<Rightarrow> 32 word) \<Rightarrow> sqobject \<Rightarrow> reftable \<Rightarrow> reftable outcome" where
  "rt_AddRef f2i ob t =
     andthen (rt_Get f2i ob True t)
       (\<lambda>(ref, _, _, t'). andthen (of_opt NullDeref ref)
          (\<lambda>i. Inr (t'\<lparr>rt_nodes := (rt_nodes t')[i := (rt_nodes t' ! i)\<lparr>rn_refs := rn_refs (rt_nodes t' ! i) + 1\<rparr>]\<rparr>)))"

text \<open>\<open>GetRefCount\<close> enters the object when it is not there.\<close>

definition rt_GetRefCount :: "(32 word \<Rightarrow> 32 word) \<Rightarrow> sqobject \<Rightarrow> reftable \<Rightarrow> (32 word \<times> reftable) outcome" where
  "rt_GetRefCount f2i ob t =
     andthen (rt_Get f2i ob True t)
       (\<lambda>(ref, _, _, t'). andthen (of_opt NullDeref ref) (\<lambda>i. Inr (rn_refs (rt_nodes t' ! i), t')))"

definition rt_unlink :: "nat \<Rightarrow> nat \<Rightarrow> nat option \<Rightarrow> reftable \<Rightarrow> reftable" where
  "rt_unlink i mainpos prev t =
     (let n = rt_nodes t ! i;
          t1 = (case prev of
                  Some p \<Rightarrow> t\<lparr>rt_nodes := (rt_nodes t)[p := (rt_nodes t ! p)\<lparr>rn_next := rn_next n\<rparr>]\<rparr>
                | None \<Rightarrow> t\<lparr>rt_buckets := (rt_buckets t)[mainpos := rn_next n]\<rparr>) in
      t1\<lparr>rt_nodes := (rt_nodes t1)[i := n\<lparr>rn_refs := 0, rn_next := rt_freelist t, rn_obj := OT_NULL\<rparr>],
         rt_freelist := Some i, rt_slotused := rt_slotused t - 1\<rparr>)"

definition rt_Release :: "(32 word \<Rightarrow> 32 word) \<Rightarrow> sqobject \<Rightarrow> reftable \<Rightarrow> (bool \<times> reftable) outcome" where
  "rt_Release f2i ob t =
     andthen (rt_Get f2i ob False t)
       (\<lambda>(ref, mainpos, prev, t').
          case ref of
            None \<Rightarrow> Inl AssertFail
          | Some i \<Rightarrow>
              let n = rt_nodes t' ! i in
              if rn_refs n - 1 = 0 then Inr (True, rt_unlink i mainpos prev t')
              else Inr (False, t'\<lparr>rt_nodes := (rt_nodes t')[i := n\<lparr>rn_refs := rn_refs n - 1\<rparr>]\<rparr>))"

definition rt_Finalize :: "reftable \<Rightarrow> reftable" where
  "rt_Finalize t = t\<lparr>rt_nodes := map (\<lambda>n. n\<lparr>rn_obj := OT_NULL\<rparr>) (rt_nodes t)\<rparr>"

text \<open>The objects \<open>Mark\<close> passes to the collector.\<close>

definition rt_Mark :: "reftable \<Rightarrow> sqobject list" where
  "rt_Mark t = filter (\<lambda>ob. ob \<noteq> OT_NULL) (map rn_obj (rt_nodes t))"

section \<open>The interface\<close>

fun ISREFCOUNTED :: "sqobject \<Rightarrow> bool" where
  "ISREFCOUNTED OT_NULL = False"
| "ISREFCOUNTED (OT_INTEGER _) = False"
| "ISREFCOUNTED (OT_FLOAT _) = False"
| "ISREFCOUNTED (OT_BOOL _) = False"
| "ISREFCOUNTED (OT_USERPOINTER _) = False"
| "ISREFCOUNTED _ = True"

definition sq_addref :: "(32 word \<Rightarrow> 32 word) \<Rightarrow> sqobject \<Rightarrow> reftable \<Rightarrow> reftable outcome" where
  "sq_addref f2i po t = (if \<not> ISREFCOUNTED po then Inr t else rt_AddRef f2i po t)"

definition sq_getrefcount :: "(32 word \<Rightarrow> 32 word) \<Rightarrow> sqobject \<Rightarrow> reftable \<Rightarrow> (32 word \<times> reftable) outcome" where
  "sq_getrefcount f2i po t = (if \<not> ISREFCOUNTED po then Inr (0, t) else rt_GetRefCount f2i po t)"

definition sq_release :: "(32 word \<Rightarrow> 32 word) \<Rightarrow> sqobject \<Rightarrow> reftable \<Rightarrow> (bool \<times> reftable) outcome" where
  "sq_release f2i po t = (if \<not> ISREFCOUNTED po then Inr (True, t) else rt_Release f2i po t)"

section \<open>Invariant\<close>

definition rt_link :: "reftable \<Rightarrow> nat \<Rightarrow> nat option" where
  "rt_link t i = rn_next (rt_nodes t ! i)"

definition rt_home :: "(32 word \<Rightarrow> 32 word) \<Rightarrow> reftable \<Rightarrow> nat \<Rightarrow> nat" where
  "rt_home f2i t i = rt_place f2i (rt_numofslots t) (rn_obj (rt_nodes t ! i))"

definition rt_ok :: "(32 word \<Rightarrow> 32 word) \<Rightarrow> reftable \<Rightarrow> (nat \<Rightarrow> nat list) \<Rightarrow> nat list \<Rightarrow> bool" where
  "rt_ok f2i t cs fs \<longleftrightarrow>
     rt_numofslots t = length (rt_nodes t) \<and> length (rt_buckets t) = length (rt_nodes t) \<and> 0 < length (rt_nodes t) \<and>
     buckets_ok (rt_link t) (rt_home f2i t) (rt_buckets t) cs \<and> chain (rt_link t) fs (rt_freelist t) \<and>
     members (rt_buckets t) cs \<union> set fs = {..<length (rt_nodes t)} \<and> members (rt_buckets t) cs \<inter> set fs = {} \<and>
     rt_slotused t = card (members (rt_buckets t) cs) \<and>
     (\<forall>i \<in> members (rt_buckets t) cs. rn_obj (rt_nodes t ! i) \<noteq> OT_NULL) \<and>
     (\<forall>i \<in> set fs. rn_obj (rt_nodes t ! i) = OT_NULL \<and> rn_refs (rt_nodes t ! i) = 0) \<and>
     inj_on (\<lambda>i. rn_obj (rt_nodes t ! i)) (members (rt_buckets t) cs)"

lemma rt_okD:
  assumes "rt_ok f2i t cs fs"
  shows "rt_numofslots t = length (rt_nodes t)" "length (rt_buckets t) = length (rt_nodes t)" "0 < length (rt_nodes t)"
    "buckets_ok (rt_link t) (rt_home f2i t) (rt_buckets t) cs" "chain (rt_link t) fs (rt_freelist t)"
    "members (rt_buckets t) cs \<union> set fs = {..<length (rt_nodes t)}" "members (rt_buckets t) cs \<inter> set fs = {}"
    "rt_slotused t = card (members (rt_buckets t) cs)"
    "i \<in> members (rt_buckets t) cs \<Longrightarrow> rn_obj (rt_nodes t ! i) \<noteq> OT_NULL"
    "i \<in> set fs \<Longrightarrow> rn_obj (rt_nodes t ! i) = OT_NULL \<and> rn_refs (rt_nodes t ! i) = 0"
    "inj_on (\<lambda>i. rn_obj (rt_nodes t ! i)) (members (rt_buckets t) cs)"
  using assms by (simp_all add: rt_ok_def)

text \<open>The number of references of every object.\<close>

definition refs_of :: "reftable \<Rightarrow> sqobject \<Rightarrow> (32 word) option" where
  "refs_of t ob = (if ob = OT_NULL then None else map_option rn_refs (find (\<lambda>n. rn_obj n = ob) (rt_nodes t)))"

lemma find_nth_unique:
  assumes "i < length xs" "P (xs ! i)" "\<And>j. j < length xs \<Longrightarrow> P (xs ! j) \<Longrightarrow> j = i"
  shows "find P xs = Some (xs ! i)"
proof -
  have "\<not> P (xs ! j)" if "j < i" for j using that assms(3) [of j] assms(1) by auto
  then show ?thesis unfolding find_Some_iff using assms(1,2) by blast
qed

lemma node_member:
  assumes "rt_ok f2i t cs fs" "j < length (rt_nodes t)" "rn_obj (rt_nodes t ! j) \<noteq> OT_NULL"
  shows "j \<in> members (rt_buckets t) cs"
  using rt_okD(6) [OF assms(1)] rt_okD(10) [OF assms(1), of j] assms(2,3) by auto

lemma refs_of_member:
  assumes ok: "rt_ok f2i t cs fs" and i: "i \<in> members (rt_buckets t) cs"
  shows "refs_of t (rn_obj (rt_nodes t ! i)) = Some (rn_refs (rt_nodes t ! i))"
proof -
  have "i < length (rt_nodes t)" using i rt_okD(6) [OF ok] by auto
  then have "find (\<lambda>n. rn_obj n = rn_obj (rt_nodes t ! i)) (rt_nodes t) = Some (rt_nodes t ! i)"
    using node_member [OF ok] rt_okD(9) [OF ok i] rt_okD(11) [OF ok] i
    by (intro find_nth_unique) (auto simp: inj_on_def)
  then show ?thesis using rt_okD(9) [OF ok i] by (simp add: refs_of_def)
qed

lemma refs_of_absent:
  assumes ok: "rt_ok f2i t cs fs" and "\<And>i. i \<in> members (rt_buckets t) cs \<Longrightarrow> rn_obj (rt_nodes t ! i) \<noteq> ob"
  shows "refs_of t ob = None"
  using node_member [OF ok] assms(2) by (auto simp: refs_of_def find_None_iff in_set_conv_nth)

lemma refs_of_cases:
  assumes ok: "rt_ok f2i t cs fs"
  obtains (absent) "refs_of t ob = None" "\<And>i. i \<in> members (rt_buckets t) cs \<Longrightarrow> rn_obj (rt_nodes t ! i) \<noteq> ob"
  | (present) i where "i \<in> members (rt_buckets t) cs" "rn_obj (rt_nodes t ! i) = ob" "refs_of t ob = Some (rn_refs (rt_nodes t ! i))"
  using refs_of_member [OF ok] refs_of_absent [OF ok] by metis

section \<open>Operations\<close>

lemma rt_walk_none:
  assumes "chain (rt_link t) xs p" "length xs < fuel" "\<And>x. x \<in> set xs \<Longrightarrow> rn_obj (rt_nodes t ! x) \<noteq> ob"
  shows "\<exists>q. rt_walk fuel t ob prev p = Inr (None, q)"
  using assms
proof (induction xs arbitrary: p fuel prev)
  case Nil
  then show ?case by (cases fuel) auto
next
  case (Cons x xs)
  then obtain f where "fuel = Suc f" by (cases fuel) auto
  with Cons.prems Cons.IH [of "rt_link t x" f "Some x"] show ?case by (simp add: rt_link_def)
qed

lemma rt_walk_found:
  assumes "chain (rt_link t) (xs @ i # ys) p" "length xs < fuel" "rn_obj (rt_nodes t ! i) = ob"
    and "\<And>x. x \<in> set xs \<Longrightarrow> rn_obj (rt_nodes t ! x) \<noteq> ob"
  shows "rt_walk fuel t ob prev p = Inr (Some i, if xs = [] then prev else Some (last xs))"
  using assms
proof (induction xs arbitrary: p fuel prev)
  case Nil
  then show ?case by (cases fuel) auto
next
  case (Cons x xs)
  then obtain f where "fuel = Suc f" by (cases fuel) auto
  moreover have "chain (rt_link t) (xs @ i # ys) (rt_link t x)" using Cons.prems(1) by (simp del: seg_append)
  ultimately show ?case using Cons.prems Cons.IH [of "rt_link t x" f "Some x"] by (auto simp: rt_link_def)
qed

lemma rt_AllocNodes_ok:
  assumes "0 < sz"
  shows "rt_ok f2i (rt_AllocNodes sz) (\<lambda>_. []) [0..<sz]" "refs_of (rt_AllocNodes sz) ob = None"
proof -
  define nx where "nx = rt_link (rt_AllocNodes sz)"
  have nx: "nx i = (if i + 1 < sz then Some (i + 1) else None)" if "i < sz" for i
    using that by (simp add: nx_def rt_link_def rt_AllocNodes_def)
  have "chain nx [i..<sz] (if i < sz then Some i else None)" if "i \<le> sz" for i
    using that
  proof (induction "sz - i" arbitrary: i)
    case (Suc k)
    then have i: "i < sz" by simp
    have "chain nx [Suc i..<sz] (if Suc i < sz then Some (Suc i) else None)" by (rule Suc.hyps(1)) (use Suc in auto)
    then show ?case using i nx [OF i] by (auto simp: upt_conv_Cons [OF i] split: if_splits)
  qed simp
  from this [of 0] assms have c: "chain nx [0..<sz] (Some 0)" by simp
  show "rt_ok f2i (rt_AllocNodes sz) (\<lambda>_. []) [0..<sz]"
    using assms c unfolding rt_ok_def nx_def [symmetric] by (auto simp: rt_AllocNodes_def buckets_ok_empty)
  show "refs_of (rt_AllocNodes sz) ob = None" by (simp add: refs_of_def rt_AllocNodes_def find_None_iff)
qed

lemma rt_place_less: "0 < n \<Longrightarrow> rt_place f2i n ob < n"
  unfolding rt_place_def by (rule unat_and_of_nat_less)

lemma refs_of_update:
  assumes "rt_nodes t' = (rt_nodes t)[i := n]" "i < length (rt_nodes t)" "ob \<noteq> rn_obj (rt_nodes t ! i)" "ob \<noteq> rn_obj n"
  shows "refs_of t' ob = refs_of t ob"
proof -
  have "find (\<lambda>n. rn_obj n = ob) (ns[i := n]) = find (\<lambda>n. rn_obj n = ob) ns"
    if "i < length ns" "ob \<noteq> rn_obj (ns ! i)" for ns :: "refnode list" and i
    using that assms(4) by (induction ns arbitrary: i) (auto split: nat.splits)
  with assms show ?thesis by (simp add: refs_of_def)
qed

lemma rt_Add_ok:
  assumes ok: "rt_ok f2i t cs (i # fs)" and ob: "ob \<noteq> OT_NULL" "refs_of t ob = None"
  obtains t' cs' where "rt_Add (rt_place f2i (rt_numofslots t) ob) ob t = Inr (i, t')" "rt_ok f2i t' cs' fs"
    "i \<in> members (rt_buckets t') cs'" "rn_obj (rt_nodes t' ! i) = ob" "refs_of t' = (refs_of t)(ob \<mapsto> 0)"
    "length (rt_nodes t') = length (rt_nodes t)"
proof -
  note o = rt_okD [OF ok]
  define h where "h = rt_place f2i (rt_numofslots t) ob"
  define n where "n = rt_nodes t ! i"
  define t' where "t' = t\<lparr>rt_nodes := (rt_nodes t)[i := n\<lparr>rn_obj := ob, rn_next := rt_buckets t ! h\<rparr>],
    rt_buckets := (rt_buckets t)[h := Some i], rt_freelist := rn_next n, rt_slotused := rt_slotused t + 1\<rparr>"
  have n: "rn_refs n = 0" "rn_obj n = OT_NULL" using o(10) [of i] by (simp_all add: n_def)
  have i: "i < length (rt_nodes t)" "i \<notin> members (rt_buckets t) cs" "i \<notin> set fs"
    using o(6,7) chain_distinct [OF o(5)] by auto
  have h: "h < length (rt_buckets t)" using rt_place_less [of "rt_numofslots t"] o(1-3) by (simp add: h_def)
  have run: "rt_Add h ob t = Inr (i, t')" using o(5) n by (simp add: rt_Add_def n_def [symmetric] Let_def t'_def)
  have home: "rt_home f2i t' i = h" and link: "rt_link t' i = rt_buckets t ! h"
    using i by (simp_all add: rt_home_def rt_link_def t'_def h_def)
  have same: "rt_link t' y = rt_link t y" "rt_home f2i t' y = rt_home f2i t y" if "y \<noteq> i" for y
    using that by (simp_all add: rt_link_def rt_home_def t'_def)
  have ne: "y \<in> members (rt_buckets t) cs \<Longrightarrow> y \<noteq> i" for y using i by auto
  note push = buckets_push [OF o(4) h home link i(2) same(1) [OF ne] same(2) [OF ne]]
  have bk: "rt_buckets t' = (rt_buckets t)[h := Some i]" by (simp add: t'_def)
  have absent: "rn_obj (rt_nodes t ! y) \<noteq> ob" if "y \<in> members (rt_buckets t) cs" for y
    using refs_of_member [OF ok that] ob(2) by auto
  have "chain (rt_link t) fs (rn_next n)" using o(5) by (simp add: rt_link_def n_def)
  then have fr: "chain (rt_link t') fs (rn_next n)" using seg_cong [of fs "rt_link t'" "rt_link t"] same(1) i(3) by metis
  have fields: "rt_numofslots t' = rt_numofslots t" "length (rt_nodes t') = length (rt_nodes t)" "rt_freelist t' = rn_next n"
      "rt_slotused t' = rt_slotused t + 1" "length (rt_buckets t') = length (rt_buckets t)"
    by (simp_all add: t'_def)
  have ni: "rt_nodes t' ! i = n\<lparr>rn_obj := ob, rn_next := rt_buckets t ! h\<rparr>" "\<And>y. y \<noteq> i \<Longrightarrow> rt_nodes t' ! y = rt_nodes t ! y"
    using i by (simp_all add: t'_def)
  have mem: "members (rt_buckets t') (cs(h := i # cs h)) = insert i (members (rt_buckets t) cs)" using push(2) by (simp add: bk)
  have objs: "rn_obj (rt_nodes t' ! y) = rn_obj (rt_nodes t ! y)" if "y \<in> members (rt_buckets t) cs" for y
    using ni(2) [OF ne [OF that]] by simp
  have "inj_on (\<lambda>i. rn_obj (rt_nodes t' ! i)) (members (rt_buckets t) cs)"
    using o(11) objs by (simp cong: inj_on_cong)
  then have inj: "inj_on (\<lambda>i. rn_obj (rt_nodes t' ! i)) (insert i (members (rt_buckets t) cs))"
    using ni(1) objs absent by (auto simp: inj_on_insert)
  have free: "rt_nodes t' ! y = rt_nodes t ! y" if "y \<in> set fs" for y using ni(2) that i(3) by metis
  have ok': "rt_ok f2i t' (cs(h := i # cs h)) fs"
    unfolding rt_ok_def mem fields
    using o(1-3,6-8) o(9,10) push(1) [folded bk] fr i n ob inj ni(1) objs free by (auto simp: card_insert_if)
  have obi: "rn_obj (rt_nodes t' ! i) = ob" "i \<in> members (rt_buckets t') (cs(h := i # cs h))" using ni(1) mem by simp_all
  have "refs_of t' ob' = ((refs_of t)(ob \<mapsto> 0)) ob'" for ob'
  proof (cases "ob' = ob \<or> ob' = OT_NULL")
    case True
    then show ?thesis using refs_of_member [OF ok' obi(2)] obi(1) ni(1) n ob by (auto simp: refs_of_def)
  next
    case False
    have "rt_nodes t' = (rt_nodes t)[i := n\<lparr>rn_obj := ob, rn_next := rt_buckets t ! h\<rparr>]" by (simp add: t'_def)
    from refs_of_update [OF this i(1), of ob'] False n show ?thesis by (simp add: n_def [symmetric])
  qed
  then have "refs_of t' = (refs_of t)(ob \<mapsto> 0)" by (rule ext)
  from that [OF run [unfolded h_def] ok' obi(2,1) this fields(2)] show ?thesis .
qed

lemma set_refs_ok:
  assumes ok: "rt_ok f2i t cs fs" and i: "i \<in> members (rt_buckets t) cs"
    and t': "t' = t\<lparr>rt_nodes := (rt_nodes t)[i := (rt_nodes t ! i)\<lparr>rn_refs := r\<rparr>]\<rparr>"
  shows "rt_ok f2i t' cs fs" "refs_of t' = (refs_of t)(rn_obj (rt_nodes t ! i) \<mapsto> r)"
proof -
  note o = rt_okD [OF ok]
  have l: "i < length (rt_nodes t)" "i \<notin> set fs" using i o(6,7) by auto
  have ni: "rn_obj (rt_nodes t' ! y) = rn_obj (rt_nodes t ! y)" "rn_next (rt_nodes t' ! y) = rn_next (rt_nodes t ! y)" for y
    using l by (cases "y = i"; simp add: t')+
  have links: "rt_link t' = rt_link t" "rt_home f2i t' = rt_home f2i t"
    by (rule ext, simp add: rt_link_def ni, rule ext) (simp add: rt_home_def ni, simp add: t')
  have free: "rt_nodes t' ! y = rt_nodes t ! y" if "y \<in> set fs" for y using that l by (cases "y = i") (auto simp: t')
  have bk: "rt_buckets t' = rt_buckets t" "rt_numofslots t' = rt_numofslots t" "length (rt_nodes t') = length (rt_nodes t)"
      "rt_freelist t' = rt_freelist t" "rt_slotused t' = rt_slotused t"
    by (simp_all add: t')
  show ok': "rt_ok f2i t' cs fs"
    unfolding rt_ok_def bk links using o(1-8) o(9,10,11) free by (simp add: ni)
  show "refs_of t' = (refs_of t)(rn_obj (rt_nodes t ! i) \<mapsto> r)"
  proof
    fix ob
    show "refs_of t' ob = ((refs_of t)(rn_obj (rt_nodes t ! i) \<mapsto> r)) ob"
    proof (cases "ob = rn_obj (rt_nodes t ! i)")
      case True
      then show ?thesis using refs_of_member [OF ok', of i] i l by (simp add: bk ni) (simp add: t')
    next
      case False
      moreover have "rt_nodes t' = (rt_nodes t)[i := (rt_nodes t ! i)\<lparr>rn_refs := r\<rparr>]" by (simp add: t')
      ultimately show ?thesis using refs_of_update [OF _ l(1), of t' _ ob] by simp
    qed
  qed
qed

lemma enter_ok:
  assumes ok: "rt_ok f2i t cs (i # fs)" and ob: "ob \<noteq> OT_NULL" "refs_of t ob = None"
  obtains t' t'' cs' where "rt_Add (rt_place f2i (rt_numofslots t) ob) ob t = Inr (i, t')"
    "t'' = t'\<lparr>rt_nodes := (rt_nodes t')[i := (rt_nodes t' ! i)\<lparr>rn_refs := r\<rparr>]\<rparr>"
    "rt_ok f2i t'' cs' fs" "refs_of t'' = (refs_of t)(ob \<mapsto> r)" "rn_refs (rt_nodes t' ! i) = 0"
proof -
  obtain t' cs' where t': "rt_Add (rt_place f2i (rt_numofslots t) ob) ob t = Inr (i, t')" "rt_ok f2i t' cs' fs"
      "i \<in> members (rt_buckets t') cs'" "rn_obj (rt_nodes t' ! i) = ob" "refs_of t' = (refs_of t)(ob \<mapsto> 0)"
    by (rule rt_Add_ok [OF assms])
  have "rn_refs (rt_nodes t' ! i) = 0" using refs_of_member [OF t'(2,3)] t'(4,5) by simp
  with set_refs_ok [OF t'(2,3) refl, of r] t' that show ?thesis by simp
qed

definition obj_refs :: "refnode list \<Rightarrow> sqobject \<Rightarrow> (32 word) option" where
  "obj_refs ns ob = (if ob = OT_NULL then None else map_option rn_refs (find (\<lambda>n. rn_obj n = ob) ns))"

lemma rt_readd_ok:
  assumes "rt_ok f2i t cs fs" "distinct (map rn_obj ns)" "\<And>n. n \<in> set ns \<Longrightarrow> rn_obj n \<noteq> OT_NULL \<and> rn_refs n \<noteq> 0 \<and> refs_of t (rn_obj n) = None"
    and "length ns \<le> length fs"
  obtains t' cs' fs' where "rt_readd f2i ns k t = Inr (k + length ns, t')" "rt_ok f2i t' cs' fs'" "length fs' = length fs - length ns"
    "refs_of t' = refs_of t ++ obj_refs ns"
  using assms
proof (induction ns arbitrary: t cs fs k thesis)
  case Nil
  then show ?case by (auto simp: obj_refs_def map_add_def fun_eq_iff)
next
  case (Cons n ns)
  from Cons.prems(5) obtain i fs1 where fs: "fs = i # fs1" by (cases fs) auto
  have n: "rn_obj n \<noteq> OT_NULL" "rn_refs n \<noteq> 0" "refs_of t (rn_obj n) = None" using Cons.prems(4) by auto
  obtain t1 t2 cs' where t1: "rt_Add (rt_place f2i (rt_numofslots t) (rn_obj n)) (rn_obj n) t = Inr (i, t1)"
      "t2 = t1\<lparr>rt_nodes := (rt_nodes t1)[i := (rt_nodes t1 ! i)\<lparr>rn_refs := rn_refs n\<rparr>]\<rparr>"
      "rt_ok f2i t2 cs' fs1" "refs_of t2 = (refs_of t)(rn_obj n \<mapsto> rn_refs n)"
    by (rule enter_ok [OF Cons.prems(2) [unfolded fs] n(1,3), of "rn_refs n"])
  have d: "distinct (map rn_obj ns)" and len: "length ns \<le> length fs1" using Cons.prems fs by auto
  have ne: "rn_obj m \<noteq> rn_obj n" if "m \<in> set ns" for m using Cons.prems(3) that by (metis distinct.simps(2) image_eqI list.map(2) list.set_map)
  have hyp: "rn_obj m \<noteq> OT_NULL \<and> rn_refs m \<noteq> 0 \<and> refs_of t2 (rn_obj m) = None" if "m \<in> set ns" for m
    using Cons.prems(4) [of m] that ne [OF that] t1(4) by simp
  obtain t' cs2 fs' where t': "rt_readd f2i ns (k + 1) t2 = Inr (k + 1 + length ns, t')" "rt_ok f2i t' cs2 fs'"
      "length fs' = length fs1 - length ns" "refs_of t' = refs_of t2 ++ obj_refs ns"
    by (rule Cons.IH [OF _ t1(3) d hyp len, of "k + 1"])
  have "rt_readd f2i (n # ns) k t = Inr (k + length (n # ns), t')" using n t1 t'(1) by simp
  moreover have "refs_of t' = refs_of t ++ obj_refs (n # ns)"
  proof
    fix ob
    have "obj_refs ns (rn_obj n) = None" using ne by (auto simp: obj_refs_def find_None_iff)
    then show "refs_of t' ob = (refs_of t ++ obj_refs (n # ns)) ob"
      unfolding t'(4) t1(4) using n(1) by (auto simp: map_add_def obj_refs_def split: option.splits)
  qed
  ultimately show ?case using Cons.prems(1) t'(2,3) fs by simp
qed

lemma rt_Resize_ok:
  assumes ok: "rt_ok f2i t cs []" and pos: "\<And>ob. refs_of t ob \<noteq> Some 0"
  obtains t' cs' fs where "rt_Resize f2i (rt_numofslots t * 2) t = Inr t'" "rt_ok f2i t' cs' fs" "fs \<noteq> []" "refs_of t' = refs_of t"
proof -
  note o = rt_okD [OF ok]
  have mem: "members (rt_buckets t) cs = {..<length (rt_nodes t)}" using o(6) by simp
  have d: "distinct (map rn_obj (rt_nodes t))"
    using o(11) unfolding mem by (auto simp: distinct_conv_nth inj_on_def)
  define t0 where "t0 = rt_AllocNodes (rt_numofslots t * 2)"
  have t0: "rt_ok f2i t0 (\<lambda>_. []) [0..<rt_numofslots t * 2]" "refs_of t0 = Map.empty"
    using rt_AllocNodes_ok [of "rt_numofslots t * 2"] o(1,3) by (auto simp: t0_def)
  have ns: "rn_obj n \<noteq> OT_NULL \<and> rn_refs n \<noteq> 0 \<and> refs_of t0 (rn_obj n) = None" if n: "n \<in> set (rt_nodes t)" for n
  proof -
    obtain i where "n = rt_nodes t ! i" "i \<in> members (rt_buckets t) cs" using n mem by (auto simp: in_set_conv_nth)
    with o(9) [of i] pos [of "rn_obj n"] refs_of_member [OF ok, of i] t0(2) show ?thesis by auto
  qed
  obtain t' cs' fs' where t': "rt_readd f2i (rt_nodes t) 0 t0 = Inr (0 + length (rt_nodes t), t')" "rt_ok f2i t' cs' fs'"
      "length fs' = length [0..<rt_numofslots t * 2] - length (rt_nodes t)" "refs_of t' = refs_of t0 ++ obj_refs (rt_nodes t)"
    by (rule rt_readd_ok [OF t0(1) d ns, of 0]) (use o(1) in auto)
  have "refs_of t' = refs_of t" unfolding t'(4) t0(2) by (rule ext) (simp add: obj_refs_def refs_of_def)
  moreover have "fs' \<noteq> []" using t'(3) o(1,3) by auto
  ultimately show ?thesis using that [of t' cs' fs'] t' o(1) by (simp add: rt_Resize_def t0_def)
qed

section \<open>References as a multiset\<close>

definition rt_state :: "(32 word \<Rightarrow> 32 word) \<Rightarrow> reftable \<Rightarrow> bool" where
  "rt_state f2i t \<longleftrightarrow> (\<exists>cs fs. rt_ok f2i t cs fs) \<and> (\<forall>ob. refs_of t ob \<noteq> Some 0)"

lemma chain_bound:
  assumes ok: "rt_ok f2i t cs fs" and h: "h < length (rt_buckets t)"
  shows "length (cs h) < Suc (rt_numofslots t)"
proof -
  note o = rt_okD [OF ok]
  have "length (cs h) = card (set (cs h))" using chain_distinct [OF buckets_okD(1) [OF o(4) h]] by (simp add: distinct_card)
  also have "\<dots> \<le> card {..<length (rt_nodes t)}"
    by (rule card_mono) (use o(6) h in \<open>auto simp: members_def\<close>)
  finally show ?thesis using o(1) by simp
qed

lemma home_less:
  assumes ok: "rt_ok f2i t cs fs"
  shows "rt_place f2i (rt_numofslots t) ob < length (rt_buckets t)"
  using rt_place_less [of "rt_numofslots t"] rt_okD(1-3) [OF ok] by simp

lemma rt_Get_present:
  assumes ok: "rt_ok f2i t cs fs" and i: "i \<in> members (rt_buckets t) cs" "rn_obj (rt_nodes t ! i) = ob"
  obtains xs ys where "cs (rt_place f2i (rt_numofslots t) ob) = xs @ i # ys"
    "rt_Get f2i ob add t = Inr (Some i, rt_place f2i (rt_numofslots t) ob, if xs = [] then None else Some (last xs), t)"
proof -
  note o = rt_okD [OF ok]
  define h where "h = rt_place f2i (rt_numofslots t) ob"
  have h: "h < length (rt_buckets t)" unfolding h_def by (rule home_less [OF ok])
  have "rt_home f2i t i = h" using i(2) by (simp add: rt_home_def h_def)
  with members_place(2) [OF o(4) i(1)] obtain xs ys where cs: "cs h = xs @ i # ys" by (metis split_list)
  have c: "chain (rt_link t) (xs @ i # ys) (rt_buckets t ! h)" using buckets_okD(1) [OF o(4) h] cs by simp
  have "rn_obj (rt_nodes t ! x) \<noteq> ob" if x: "x \<in> set xs" for x
  proof
    assume "rn_obj (rt_nodes t ! x) = ob"
    moreover have "x \<in> members (rt_buckets t) cs" using membersI [of h "rt_buckets t" x cs] h cs x by simp
    ultimately have "x = i" using o(11) i by (auto simp: inj_on_def)
    then show False using chain_distinct [OF c] x by auto
  qed
  then have "rt_walk (Suc (rt_numofslots t)) t ob None (rt_buckets t ! h) = Inr (Some i, if xs = [] then None else Some (last xs))"
    using chain_bound [OF ok h] cs by (intro rt_walk_found [OF c _ i(2)]) auto
  then show ?thesis using that [of xs ys] cs by (simp add: rt_Get_def h_def Let_def)
qed

lemma rt_Get_new:
  assumes st: "rt_state f2i t" and ob: "ob \<noteq> OT_NULL" "refs_of t ob = None"
  obtains i pos prev t' t'' cs fs where "rt_Get f2i ob True t = Inr (Some i, pos, prev, t')"
    "t'' = t'\<lparr>rt_nodes := (rt_nodes t')[i := (rt_nodes t' ! i)\<lparr>rn_refs := 1\<rparr>]\<rparr>" "rn_refs (rt_nodes t' ! i) = 0"
    "rt_ok f2i t'' cs fs" "refs_of t'' = (refs_of t)(ob \<mapsto> 1)"
proof -
  obtain cs fs where ok: "rt_ok f2i t cs fs" using st by (auto simp: rt_state_def)
  note o = rt_okD [OF ok]
  define h where "h = rt_place f2i (rt_numofslots t) ob"
  have h: "h < length (rt_buckets t)" unfolding h_def by (rule home_less [OF ok])
  have "rn_obj (rt_nodes t ! x) \<noteq> ob" if "x \<in> set (cs h)" for x
    using refs_of_member [OF ok membersI [of h _ _ cs, OF h that]] ob(2) by auto
  then obtain prev where w: "rt_walk (Suc (rt_numofslots t)) t ob None (rt_buckets t ! h) = Inr (None, prev)"
    using rt_walk_none [OF buckets_okD(1) [OF o(4) h] chain_bound [OF ok h], of ob None] by blast
  have full: "rt_numofslots t = rt_slotused t \<longleftrightarrow> fs = []"
  proof -
    have "card (members (rt_buckets t) cs) + card (set fs) = length (rt_nodes t)"
      using card_Un_disjoint [of "members (rt_buckets t) cs" "set fs"] o(6,7) by simp
    then show ?thesis using o(1,8) chain_distinct [OF o(5)] by (auto simp: distinct_card)
  qed
  obtain t1 cs1 fs1 where t1: "(if rt_numofslots t = rt_slotused t then
        if rt_freelist t \<noteq> None then Inl AssertFail else rt_Resize f2i (rt_numofslots t * 2) t else Inr t) = Inr t1"
      "rt_ok f2i t1 cs1 fs1" "fs1 \<noteq> []" "refs_of t1 = refs_of t"
  proof (cases "fs = []")
    case True
    then obtain t' cs' fs' where "rt_Resize f2i (rt_numofslots t * 2) t = Inr t'" "rt_ok f2i t' cs' fs'" "fs' \<noteq> []" "refs_of t' = refs_of t"
      using rt_Resize_ok [of f2i t cs] ok st by (auto simp: rt_state_def)
    then show ?thesis using that [of t' cs' fs'] full True o(5) by simp
  next
    case False
    then show ?thesis using that [of t cs fs] full ok by simp
  qed
  then obtain i fs2 where "fs1 = i # fs2" by (cases fs1) auto
  then obtain t' t'' cs' where t': "rt_Add (rt_place f2i (rt_numofslots t1) ob) ob t1 = Inr (i, t')"
      "t'' = t'\<lparr>rt_nodes := (rt_nodes t')[i := (rt_nodes t' ! i)\<lparr>rn_refs := 1\<rparr>]\<rparr>" "rt_ok f2i t'' cs' fs2" "refs_of t'' = (refs_of t1)(ob \<mapsto> 1)"
      "rn_refs (rt_nodes t' ! i) = 0"
    using enter_ok [of f2i t1 cs1 i fs2 ob 1] t1(2,4) ob by metis
  have "rt_Get f2i ob True t = Inr (Some i, rt_place f2i (rt_numofslots t1) ob, prev, t')"
    using w t1(1) t'(1) by (simp add: rt_Get_def h_def [symmetric] Let_def)
  then show ?thesis using that t' t1(4) by simp
qed

lemma rt_unlink_nodes:
  assumes "t' = rt_unlink i h (if xs = [] then None else Some (last xs)) t" "i < length (rt_nodes t)" "i \<notin> set xs"
    and l: "xs \<noteq> [] \<Longrightarrow> last xs < length (rt_nodes t)"
  shows "rn_obj (rt_nodes t' ! y) = (if y = i then OT_NULL else rn_obj (rt_nodes t ! y))"
    "rn_refs (rt_nodes t' ! y) = (if y = i then 0 else rn_refs (rt_nodes t ! y))"
    "xs \<noteq> [] \<Longrightarrow> rt_link t' y = (if y = i then rt_freelist t else if y = last xs then rt_link t i else rt_link t y)"
    "xs = [] \<Longrightarrow> rt_link t' y = (if y = i then rt_freelist t else rt_link t y)"
    "rt_buckets t' = (if xs = [] then (rt_buckets t)[h := rt_link t i] else rt_buckets t)"
    "rt_numofslots t' = rt_numofslots t" "length (rt_nodes t') = length (rt_nodes t)"
    "rt_freelist t' = Some i" "rt_slotused t' = rt_slotused t - 1"
proof -
  have ne: "xs \<noteq> [] \<Longrightarrow> last xs \<noteq> i" using assms(3) by auto
  show "rn_obj (rt_nodes t' ! y) = (if y = i then OT_NULL else rn_obj (rt_nodes t ! y))"
    "rn_refs (rt_nodes t' ! y) = (if y = i then 0 else rn_refs (rt_nodes t ! y))"
    "xs \<noteq> [] \<Longrightarrow> rt_link t' y = (if y = i then rt_freelist t else if y = last xs then rt_link t i else rt_link t y)"
    "xs = [] \<Longrightarrow> rt_link t' y = (if y = i then rt_freelist t else rt_link t y)"
    "rt_buckets t' = (if xs = [] then (rt_buckets t)[h := rt_link t i] else rt_buckets t)"
    "rt_numofslots t' = rt_numofslots t" "length (rt_nodes t') = length (rt_nodes t)"
    "rt_freelist t' = Some i" "rt_slotused t' = rt_slotused t - 1"
    using assms(2) ne l by (cases "xs = []"; auto simp: assms(1) rt_unlink_def Let_def rt_link_def nth_list_update)+
qed

lemma rt_unlink_ok:
  assumes ok: "rt_ok f2i t cs fs" and h: "h < length (rt_buckets t)" and cs: "cs h = xs @ i # ys"
    and t': "t' = rt_unlink i h (if xs = [] then None else Some (last xs)) t"
  shows "rt_ok f2i t' (cs(h := xs @ ys)) (i # fs)" "refs_of t' = (refs_of t)(rn_obj (rt_nodes t ! i) := None)"
proof -
  note o = rt_okD [OF ok]
  have i: "i \<in> members (rt_buckets t) cs" using membersI [of h "rt_buckets t" i cs] h cs by simp
  have li: "i < length (rt_nodes t)" "i \<notin> set fs" using i o(6,7) by auto
  have d: "distinct (xs @ i # ys)" using chain_distinct [OF buckets_okD(1) [OF o(4) h]] cs by simp
  then have ix: "i \<notin> set xs" by simp
  have last: "last xs < length (rt_nodes t)" "last xs \<notin> set fs" if "xs \<noteq> []"
  proof -
    have "last xs \<in> members (rt_buckets t) cs" using membersI [of h "rt_buckets t" "last xs" cs] h cs that by simp
    then show "last xs < length (rt_nodes t)" "last xs \<notin> set fs" using o(6,7) by auto
  qed
  note n = rt_unlink_nodes [OF t' li(1) ix last(1)]
  have mem: "members (rt_buckets t') (cs(h := xs @ ys)) = members (rt_buckets t) cs - {i}"
    using members_remove [OF o(4) h cs] n(5) by (simp add: members_def)
  have home: "rt_home f2i t' y = rt_home f2i t y" if "y \<noteq> i" for y using that by (simp add: rt_home_def n)
  have "buckets_ok (rt_link t') (rt_home f2i t') (rt_buckets t') (cs(h := xs @ ys))"
  proof (cases xs rule: rev_cases)
    case Nil
    note u = buckets_unlink_first [OF o(4) h cs [unfolded Nil append_Nil]]
    show ?thesis using buckets_ok_cong [OF u(1), of "rt_link t'" "rt_home f2i t'"] u(2) Nil home n(4,5) by auto
  next
    case (snoc zs q)
    then have cs2: "cs h = zs @ q # i # ys" using cs by simp
    note u = buckets_unlink [OF o(4) h cs2]
    show ?thesis using buckets_ok_cong [OF u(1), of "rt_link t'" "rt_home f2i t'"] u(2) snoc home n(3,5) last by auto
  qed
  moreover have "rt_link t' y = rt_link t y" if "y \<in> set fs" for y
    using that li(2) last n(3,4) by (cases "xs = []") auto
  then have "chain (rt_link t') fs (rt_freelist t)" using seg_cong [of fs "rt_link t'" "rt_link t"] o(5) by metis
  moreover have "rt_link t' i = rt_freelist t" using n(3,4) last by (cases "xs = []") auto
  moreover have "inj_on (\<lambda>y. rn_obj (rt_nodes t' ! y)) (members (rt_buckets t) cs - {i})"
    using inj_on_diff [OF o(11), of "{i}"] by (auto simp: n inj_on_def)
  ultimately show ok': "rt_ok f2i t' (cs(h := xs @ ys)) (i # fs)"
    unfolding rt_ok_def mem using o(1-3,6-8) o(9,10) i li n(5-9) by (auto simp: n(1,2))
  show "refs_of t' = (refs_of t)(rn_obj (rt_nodes t ! i) := None)"
  proof
    fix ob
    show "refs_of t' ob = ((refs_of t)(rn_obj (rt_nodes t ! i) := None)) ob"
    proof (cases "ob = rn_obj (rt_nodes t ! i)")
      case True
      have "rn_obj (rt_nodes t' ! y) \<noteq> ob" if "y \<in> members (rt_buckets t') (cs(h := xs @ ys))" for y
        using that True mem n(1) [of y] inj_onD [OF o(11), of y i] i by auto
      from refs_of_absent [OF ok' this] True show ?thesis by simp
    next
      case False
      show ?thesis
      proof (cases "\<exists>y. y \<in> members (rt_buckets t) cs \<and> rn_obj (rt_nodes t ! y) = ob")
        case True
        then obtain y where y: "y \<in> members (rt_buckets t) cs" "rn_obj (rt_nodes t ! y) = ob" by blast
        then have "y \<noteq> i" using False by auto
        with y False refs_of_member [OF ok y(1)] refs_of_member [OF ok', of y] mem n(1,2) [of y] show ?thesis by auto
      next
        case none: False
        have "refs_of t ob = None" by (rule refs_of_absent [OF ok]) (use none in blast)
        moreover have "refs_of t' ob = None" by (rule refs_of_absent [OF ok']) (use none mem n(1) in auto)
        ultimately show ?thesis using False by simp
      qed
    qed
  qed
qed

lemma rt_AddRef_ok:
  assumes st: "rt_state f2i t" and ob: "ob \<noteq> OT_NULL" and big: "refs_of t ob \<noteq> Some (- 1)"
  shows "\<exists>t'. rt_AddRef f2i ob t = Inr t' \<and> rt_state f2i t' \<and>
    refs_of t' = (refs_of t)(ob \<mapsto> case refs_of t ob of None \<Rightarrow> 1 | Some r \<Rightarrow> r + 1)"
proof (cases "refs_of t ob")
  case None
  from rt_Get_new [OF st ob None] obtain i pos prev t' t'' cs fs where "rt_Get f2i ob True t = Inr (Some i, pos, prev, t')"
    "t'' = t'\<lparr>rt_nodes := (rt_nodes t')[i := (rt_nodes t' ! i)\<lparr>rn_refs := 1\<rparr>]\<rparr>" "rn_refs (rt_nodes t' ! i) = 0"
    "rt_ok f2i t'' cs fs" "refs_of t'' = (refs_of t)(ob \<mapsto> 1)" .
  with st None show ?thesis by (auto simp: rt_AddRef_def rt_state_def)
next
  case (Some r)
  obtain cs fs where ok: "rt_ok f2i t cs fs" using st by (auto simp: rt_state_def)
  obtain i where i: "i \<in> members (rt_buckets t) cs" "rn_obj (rt_nodes t ! i) = ob" "rn_refs (rt_nodes t ! i) = r"
    using Some by (metis ok option.distinct(1) option.inject refs_of_cases)
  obtain xs ys where "rt_Get f2i ob True t = Inr (Some i, rt_place f2i (rt_numofslots t) ob, if xs = [] then None else Some (last xs), t)"
    by (rule rt_Get_present [OF ok i(1,2)])
  moreover have "r + 1 \<noteq> 0" using big Some by (auto simp: eq_neg_iff_add_eq_0)
  ultimately show ?thesis using set_refs_ok [OF ok i(1) refl, of "r + 1"] Some st i by (auto simp: rt_AddRef_def rt_state_def)
qed

lemma rt_Release_ok:
  assumes st: "rt_state f2i t" and r: "refs_of t ob = Some r"
  shows "\<exists>t'. rt_Release f2i ob t = Inr (r = 1, t') \<and> rt_state f2i t' \<and>
    refs_of t' = (refs_of t)(ob := if r = 1 then None else Some (r - 1))"
proof -
  obtain cs fs where ok: "rt_ok f2i t cs fs" using st by (auto simp: rt_state_def)
  obtain i where i: "i \<in> members (rt_buckets t) cs" "rn_obj (rt_nodes t ! i) = ob" "rn_refs (rt_nodes t ! i) = r"
    using r by (metis ok option.distinct(1) option.inject refs_of_cases)
  define h where "h = rt_place f2i (rt_numofslots t) ob"
  obtain xs ys where g: "cs h = xs @ i # ys" "rt_Get f2i ob False t = Inr (Some i, h, if xs = [] then None else Some (last xs), t)"
    using rt_Get_present [OF ok i(1,2), of False] unfolding h_def by metis
  show ?thesis
  proof (cases "r = 1")
    case True
    define t' where "t' = rt_unlink i h (if xs = [] then None else Some (last xs)) t"
    note u = rt_unlink_ok [OF ok home_less [OF ok, of ob, folded h_def] g(1) t'_def]
    have "rt_state f2i t'" using u st by (auto simp: rt_state_def)
    moreover have "rt_Release f2i ob t = Inr (True, t')" using True g(2) i by (simp add: rt_Release_def t'_def)
    ultimately show ?thesis using True u(2) i by simp
  next
    case False
    moreover have "r - 1 \<noteq> 0" using False by simp
    ultimately show ?thesis using set_refs_ok [OF ok i(1) refl, of "r - 1"] g(2) i st by (auto simp: rt_Release_def rt_state_def)
  qed
qed

datatype ref_op = Hold sqobject | Let_go sqobject

fun ref_run :: "(32 word \<Rightarrow> 32 word) \<Rightarrow> ref_op list \<Rightarrow> reftable \<Rightarrow> (bool list \<times> reftable) outcome" where
  "ref_run f2i [] t = Inr ([], t)"
| "ref_run f2i (Hold ob # ops) t = andthen (sq_addref f2i ob t) (ref_run f2i ops)"
| "ref_run f2i (Let_go ob # ops) t =
     andthen (sq_release f2i ob t) (\<lambda>(b, t'). andthen (ref_run f2i ops t') (\<lambda>(bs, t''). Inr (b # bs, t'')))"

text \<open>
  The specification, over the list of references that are held. \<open>None\<close> when one is released that is
  not held. Values that are not counted are ignored.
\<close>

fun ref_spec :: "ref_op list \<Rightarrow> sqobject list \<Rightarrow> (bool list \<times> sqobject list) option" where
  "ref_spec [] rs = Some ([], rs)"
| "ref_spec (Hold ob # ops) rs = ref_spec ops (if ISREFCOUNTED ob then ob # rs else rs)"
| "ref_spec (Let_go ob # ops) rs =
     (if \<not> ISREFCOUNTED ob then map_option (\<lambda>(bs, rs'). (True # bs, rs')) (ref_spec ops rs)
      else if ob \<in> set rs then
        map_option (\<lambda>(bs, rs'). ((ob \<notin> set (remove1 ob rs)) # bs, rs')) (ref_spec ops (remove1 ob rs))
      else None)"

definition held :: "sqobject list \<Rightarrow> sqobject \<Rightarrow> (32 word) option" where
  "held rs ob = (if ob \<in> set rs then Some (of_nat (count_list rs ob)) else None)"

lemma count_list_pos: "0 < count_list xs x \<longleftrightarrow> x \<in> set xs"
  by (induction xs) auto

lemma count_list_remove1: "count_list (remove1 x xs) y = count_list xs y - (if x = y then 1 else 0)"
  by (induction xs) (auto simp: Suc_diff_Suc count_list_pos [symmetric] Suc_diff_le)

lemma held_not_max:
  assumes "length rs + 1 < 2 ^ 32"
  shows "held rs ob \<noteq> Some (- 1)"
proof
  assume "held rs ob = Some (- 1)"
  then have "(of_nat (count_list rs ob + 1) :: 32 word) = 0" by (simp add: held_def split: if_splits)
  moreover have "count_list rs ob + 1 < 2 ^ 32" using assms count_le_length [of rs ob] by simp
  then have "unat (of_nat (count_list rs ob + 1) :: 32 word) = count_list rs ob + 1" by (rule unat_of_nat32)
  ultimately show False by simp
qed

lemma held_Cons:
  "held (ob # rs) = (held rs)(ob \<mapsto> case held rs ob of None \<Rightarrow> 1 | Some r \<Rightarrow> r + 1)"
  by (rule ext) (auto simp: held_def count_list_0_iff)

lemma held_remove1:
  assumes "ob \<in> set rs" "length rs < 2 ^ 32"
  shows "held (remove1 ob rs) = (held rs)(ob := if the (held rs ob) = 1 then None else Some (the (held rs ob) - 1))"
    "the (held rs ob) = 1 \<longleftrightarrow> ob \<notin> set (remove1 ob rs)"
proof -
  define k where "k = count_list rs ob"
  have k: "0 < k" "k < 2 ^ 32"
    using assms count_list_pos [of rs ob] count_le_length [of rs ob] by (auto simp: k_def)
  have one: "(of_nat k :: 32 word) = 1 \<longleftrightarrow> k = 1" using k of_nat_inverse [of k "1 :: 32 word"] by auto
  have mem: "ob \<in> set (remove1 ob rs) \<longleftrightarrow> k \<noteq> 1"
    using k(1) count_list_pos [of "remove1 ob rs" ob] by (auto simp: count_list_remove1 k_def)
  show "the (held rs ob) = 1 \<longleftrightarrow> ob \<notin> set (remove1 ob rs)" using assms(1) mem one by (simp add: held_def k_def)
  show "held (remove1 ob rs) = (held rs)(ob := if the (held rs ob) = 1 then None else Some (the (held rs ob) - 1))"
  proof
    fix x
    show "held (remove1 ob rs) x = ((held rs)(ob := if the (held rs ob) = 1 then None else Some (the (held rs ob) - 1))) x"
      using assms(1) mem one k(1) by (cases "x = ob") (auto simp: held_def count_list_remove1 k_def)
  qed
qed

lemma ISREFCOUNTED_not_null: "ISREFCOUNTED ob \<Longrightarrow> ob \<noteq> OT_NULL"
  by auto

lemma ref_run_refines:
  assumes "rt_state f2i t" "refs_of t = held rs" "ref_spec ops rs = Some (bs, rs')" "length rs + length ops < 2 ^ 32"
  shows "\<exists>t'. ref_run f2i ops t = Inr (bs, t') \<and> rt_state f2i t' \<and> refs_of t' = held rs'"
  using assms
proof (induction ops arbitrary: t rs bs)
  case (Cons op ops)
  show ?case
  proof (cases op)
    case (Hold ob)
    show ?thesis
    proof (cases "ISREFCOUNTED ob")
      case True
      have "held rs ob \<noteq> Some (- 1)" by (rule held_not_max) (use Cons.prems(4) in simp)
      with rt_AddRef_ok [OF Cons.prems(1) ISREFCOUNTED_not_null [OF True]] Cons.prems(2) obtain t' where
        t': "rt_AddRef f2i ob t = Inr t'" "rt_state f2i t'" "refs_of t' = held (ob # rs)"
        by (auto simp: held_Cons)
      from Cons.IH [OF t'(2,3)] Cons.prems(3,4) True Hold t'(1) show ?thesis by (simp add: sq_addref_def)
    next
      case False
      with Cons.IH [OF Cons.prems(1,2)] Cons.prems(3,4) Hold show ?thesis by (simp add: sq_addref_def)
    qed
  next
    case (Let_go ob)
    show ?thesis
    proof (cases "ISREFCOUNTED ob")
      case True
      then have ob: "ob \<in> set rs" using Cons.prems(3) Let_go by (auto split: if_splits)
      then obtain r where r: "held rs ob = Some r" by (simp add: held_def)
      have len: "length rs < 2 ^ 32" using Cons.prems(4) by simp
      obtain t' where t': "rt_Release f2i ob t = Inr (r = 1, t')" "rt_state f2i t'" "refs_of t' = held (remove1 ob rs)"
        using rt_Release_ok [OF Cons.prems(1), of ob r] Cons.prems(2) r held_remove1(1) [OF ob len] by auto
      have "length (remove1 ob rs) \<le> length rs" by (simp add: length_remove1)
      then have "length (remove1 ob rs) + length ops < 2 ^ 32" using Cons.prems(4) by simp
      with Cons.IH [OF t'(2,3)] Cons.prems(3) True Let_go t'(1) ob held_remove1(2) [OF ob len] r show ?thesis
        by (fastforce simp: sq_release_def)
    next
      case False
      with Cons.IH [OF Cons.prems(1,2)] Cons.prems(3,4) Let_go show ?thesis by (fastforce simp: sq_release_def)
    qed
  qed
qed simp

text \<open>
  C13. The references held by C++ code are counted right: in any history of fewer than \<open>2 ^ 32\<close> calls of
  \<open>sq_addref\<close> and \<open>sq_release\<close>, each release matching an earlier reference, every call returns (no
  walk runs on, no assertion fails, also through the growth of the table), the count of every object
  is the number of references held, and \<open>sq_release\<close> reports exactly when the last one is dropped.
  Values that are not counted pass through.
\<close>

theorem references_are_counted:
  assumes "ref_spec ops [] = Some (bs, rs)" "length ops < 2 ^ 32"
  shows "\<exists>t. ref_run f2i ops RefTable_new = Inr (bs, t) \<and>
    (\<forall>ob. refs_of t ob = (if ob \<in> set rs then Some (of_nat (count_list rs ob)) else None))"
proof -
  have "rt_state f2i RefTable_new" "refs_of RefTable_new = held []"
    using rt_AllocNodes_ok [where sz = 4] by (auto simp: RefTable_new_def rt_state_def held_def fun_eq_iff)
  from ref_run_refines [OF this assms(1)] assms(2) show ?thesis by (auto simp: held_def)
qed

theorem references_are_counted_witness:
  "\<exists>t. ref_run (\<lambda>x. x) [Hold (OT_TABLE 8), Hold (OT_TABLE 16), Hold (OT_INTEGER 1), Hold (OT_TABLE 8), Hold (OT_STRING ''s''), Hold (OT_CLOSURE 24),
        Hold (OT_CLASS 64), Let_go (OT_TABLE 8), Let_go (OT_INTEGER 3), Let_go (OT_TABLE 16)] RefTable_new = Inr ([False, True, True], t) \<and>
     refs_of t (OT_TABLE 8) = Some 1 \<and> refs_of t (OT_TABLE 16) = None"
  using references_are_counted
    [of "[Hold (OT_TABLE 8), Hold (OT_TABLE 16), Hold (OT_INTEGER 1), Hold (OT_TABLE 8), Hold (OT_STRING ''s''), Hold (OT_CLOSURE 24),
        Hold (OT_CLASS 64), Let_go (OT_TABLE 8), Let_go (OT_INTEGER 3), Let_go (OT_TABLE 16)]" "[False, True, True]"
      "[OT_CLASS 64, OT_CLOSURE 24, OT_STRING ''s'', OT_TABLE 8]" "\<lambda>x. x"]
  by auto

text \<open>
  Asking for the count of an object that is not held changes the table: it takes a node with the
  count zero. Four such questions fill a new table, and the next reference to a new object fails an
  assertion when the table grows.
\<close>

lemma getrefcount_breaks_table:
  "(case andthen (sq_getrefcount (\<lambda>x. x) (OT_TABLE 8) RefTable_new)
           (\<lambda>(c1, t1). andthen (sq_getrefcount (\<lambda>x. x) (OT_TABLE 16) t1)
             (\<lambda>(c2, t2). andthen (sq_getrefcount (\<lambda>x. x) (OT_TABLE 24) t2)
               (\<lambda>(c3, t3). andthen (sq_getrefcount (\<lambda>x. x) (OT_TABLE 32) t3)
                 (\<lambda>(c4, t4). Inr ([c1, c2, c3, c4], t4))))) of
      Inl _ \<Rightarrow> False
    | Inr (counts, t4) \<Rightarrow> counts = [0, 0, 0, 0] \<and> sq_addref (\<lambda>x. x) (OT_TABLE 40) t4 = Inl AssertFail)"
  by code_simp

end
