(* ===== verification/HeapSort.thy ===== *)
theory HeapSort
  imports SqObject "HOL-Library.Multiset"
begin

text \<open>
  Comparison of values (\<open>SQVM::ObjCmp\<close>) and the heap sort behind \<open>array.sort\<close> (\<open>utility/sqbaselib.cpp\<close>).
  A comparison may run a script, which can fail and can change the array that is being sorted, so a
  comparison takes and returns the elements. Float arithmetic is a parameter.
\<close>

section \<open>Comparison\<close>

record float_ops =
  f_less :: "32 word \<Rightarrow> 32 word \<Rightarrow> bool"
  f_eq :: "32 word \<Rightarrow> 32 word \<Rightarrow> bool"
  i2f :: "32 word \<Rightarrow> 32 word"

type_synonym elems = "sqobject list"

fun strcmp_loop :: "string \<Rightarrow> string \<Rightarrow> 32 word" where
  "strcmp_loop [] [] = 0"
| "strcmp_loop [] (d # ds) = - 1"
| "strcmp_loop (c # cs) [] = 1"
| "strcmp_loop (c # cs) (d # ds) =
     (if c = d then strcmp_loop cs ds else if (of_char c :: nat) < of_char d then - 1 else 1)"

definition scstrcmp :: "string \<Rightarrow> string \<Rightarrow> 32 word" where
  "scstrcmp a b = strcmp_loop (cstr a) (cstr b)"

definition ptr_cmp :: "32 word \<Rightarrow> 32 word \<Rightarrow> 32 word" where
  "ptr_cmp p q = (if p = q then 0 else if p < q then - 1 else 1)"

text \<open>
  \<open>meta\<close> calls the \<open>_cmp\<close> metamethod of a table, user data or instance: \<open>None\<close> when there is none,
  \<open>Some None\<close> when the call fails. The result \<open>None\<close> of the comparison is a script error.
\<close>

type_synonym metacall = "sqobject \<Rightarrow> sqobject \<Rightarrow> elems \<Rightarrow> sqobject option option \<times> elems"

definition cmp_meta :: "metacall \<Rightarrow> sqobject \<Rightarrow> sqobject \<Rightarrow> 32 word \<Rightarrow> 32 word \<Rightarrow> elems \<Rightarrow> (32 word) option \<times> elems" where
  "cmp_meta meta o1 o2 p q vals =
     (if p = q then (Some 0, vals)
      else case meta o1 o2 vals of
        (None, vals') \<Rightarrow> (Some (ptr_cmp p q), vals')
      | (Some None, vals') \<Rightarrow> (None, vals')
      | (Some (Some (OT_INTEGER i)), vals') \<Rightarrow> (Some i, vals')
      | (Some (Some _), vals') \<Rightarrow> (None, vals'))"

text \<open>A comparison across the two numeric types converts the integer.\<close>

definition cmp_mixed :: "float_ops \<Rightarrow> 32 word \<Rightarrow> 32 word \<Rightarrow> 32 word" where
  "cmp_mixed fo x y = (if f_eq fo x y then 0 else if f_less fo x y then - 1 else 1)"

definition ObjCmp :: "float_ops \<Rightarrow> metacall \<Rightarrow> sqobject \<Rightarrow> sqobject \<Rightarrow> elems \<Rightarrow> (32 word) option \<times> elems" where
  "ObjCmp fo meta o1 o2 vals =
     (if o1 = o2 then (Some 0, vals)
      else case (o1, o2) of
        (OT_STRING a, OT_STRING b) \<Rightarrow> (Some (scstrcmp a b), vals)
      | (OT_INTEGER a, OT_INTEGER b) \<Rightarrow> (Some (if sint a < sint b then - 1 else 1), vals)
      | (OT_FLOAT a, OT_FLOAT b) \<Rightarrow> (Some (if f_less fo a b then - 1 else 1), vals)
      | (OT_TABLE p, OT_TABLE q) \<Rightarrow> cmp_meta meta o1 o2 p q vals
      | (OT_USERDATA p, OT_USERDATA q) \<Rightarrow> cmp_meta meta o1 o2 p q vals
      | (OT_INSTANCE p, OT_INSTANCE q) \<Rightarrow> cmp_meta meta o1 o2 p q vals
      | (OT_BOOL a, OT_BOOL b) \<Rightarrow> (Some (if b then - 1 else 1), vals)
      | (OT_ARRAY p, OT_ARRAY q) \<Rightarrow> (Some (ptr_cmp p q), vals)
      | (OT_CLOSURE p, OT_CLOSURE q) \<Rightarrow> (Some (ptr_cmp p q), vals)
      | (OT_NATIVECLOSURE p, OT_NATIVECLOSURE q) \<Rightarrow> (Some (ptr_cmp p q), vals)
      | (OT_GENERATOR p, OT_GENERATOR q) \<Rightarrow> (Some (ptr_cmp p q), vals)
      | (OT_USERPOINTER p, OT_USERPOINTER q) \<Rightarrow> (Some (ptr_cmp p q), vals)
      | (OT_THREAD p, OT_THREAD q) \<Rightarrow> (Some (ptr_cmp p q), vals)
      | (OT_FUNCPROTO p, OT_FUNCPROTO q) \<Rightarrow> (Some (ptr_cmp p q), vals)
      | (OT_CLASS p, OT_CLASS q) \<Rightarrow> (Some (ptr_cmp p q), vals)
      | (OT_WEAKREF p, OT_WEAKREF q) \<Rightarrow> (Some (ptr_cmp p q), vals)
      | (OT_OUTER p, OT_OUTER q) \<Rightarrow> (Some (ptr_cmp p q), vals)
      | (OT_INTEGER a, OT_FLOAT b) \<Rightarrow> (Some (cmp_mixed fo (i2f fo a) b), vals)
      | (OT_FLOAT a, OT_INTEGER b) \<Rightarrow> (Some (cmp_mixed fo a (i2f fo b)), vals)
      | (OT_NULL, _) \<Rightarrow> (Some (- 1), vals)
      | (_, OT_NULL) \<Rightarrow> (Some 1, vals)
      | _ \<Rightarrow> (None, vals))"

text \<open>
  \<open>_sort_compare\<close>: without a function argument values are compared as above; otherwise the function
  is called (\<open>call\<close>) and must return a number.
\<close>

type_synonym compare = "sqobject \<Rightarrow> sqobject \<Rightarrow> elems \<Rightarrow> (32 word) option \<times> elems"

definition sort_compare :: "(32 word \<Rightarrow> 32 word) \<Rightarrow> compare \<Rightarrow> (sqobject \<Rightarrow> sqobject \<Rightarrow> elems \<Rightarrow> sqobject option \<times> elems) option \<Rightarrow> compare" where
  "sort_compare f2i objcmp func a b vals =
     (case func of
        None \<Rightarrow> objcmp a b vals
      | Some call \<Rightarrow>
          (case call a b vals of
             (None, vals') \<Rightarrow> (None, vals')
           | (Some r, vals') \<Rightarrow> (sq_getinteger f2i r, vals')))"

section \<open>Heap sort\<close>

text \<open>
  The children of node \<open>i\<close> are \<open>2 * i\<close> and \<open>2 * i + 1\<close>, from index 0: node 0 is its own first child and has
  node 1 as its only other one. The result \<open>False\<close> is a script error.
\<close>

definition elem_at :: "elems \<Rightarrow> nat \<Rightarrow> sqobject outcome" where
  "elem_at vals i = (if i < length vals then Inr (vals ! i) else Inl OutOfBounds)"

definition swap_elems :: "nat \<Rightarrow> nat \<Rightarrow> elems \<Rightarrow> elems outcome" where
  "swap_elems i j vals =
     andthen (elem_at vals i) (\<lambda>x. andthen (elem_at vals j) (\<lambda>y. Inr (vals[i := y, j := x])))"

definition max_child :: "compare \<Rightarrow> nat \<Rightarrow> nat \<Rightarrow> elems \<Rightarrow> (nat option \<times> elems) outcome" where
  "max_child cmp root2 bottom vals =
     (if root2 = bottom then Inr (Some root2, vals)
      else andthen (elem_at vals root2) (\<lambda>x. andthen (elem_at vals (root2 + 1)) (\<lambda>y.
        case cmp x y vals of
          (None, vals') \<Rightarrow> Inr (None, vals')
        | (Some ret, vals') \<Rightarrow> Inr (Some (if 0 < sint ret then root2 else root2 + 1), vals'))))"

lemma max_child_bounds:
  assumes "max_child cmp root2 bottom vals = Inr (Some c, vals')" "root2 \<le> bottom"
  shows "root2 \<le> c \<and> c \<le> bottom"
proof (cases "root2 = bottom")
  case False
  then obtain x y where c: "(case cmp x y vals of (None, v) \<Rightarrow> Inr (None, v)
      | (Some ret, v) \<Rightarrow> Inr (Some (if 0 < sint ret then root2 else root2 + 1), v)) = (Inr (Some c, vals') :: (nat option \<times> elems) outcome)"
    using assms(1) by (auto simp: max_child_def andthen_Inr_iff)
  obtain r v where "cmp x y vals = (r, v)" by fastforce
  then show ?thesis using c False assms(2) by (cases r) (auto split: if_splits)
qed (use assms in \<open>auto simp: max_child_def\<close>)

function hsort_sift_down :: "compare \<Rightarrow> nat \<Rightarrow> nat \<Rightarrow> elems \<Rightarrow> (bool \<times> elems) outcome" where
  "hsort_sift_down cmp root bottom vals =
     (if root * 2 \<le> bottom then
        andthen (max_child cmp (root * 2) bottom vals)
          (\<lambda>(mc, v1). case mc of
               None \<Rightarrow> Inr (False, v1)
             | Some maxChild \<Rightarrow>
                 andthen (elem_at v1 root) (\<lambda>x. andthen (elem_at v1 maxChild) (\<lambda>y.
                   case cmp x y v1 of
                     (None, v2) \<Rightarrow> Inr (False, v2)
                   | (Some ret, v2) \<Rightarrow>
                       if sint ret < 0 then
                         if root = maxChild then Inr (False, v2)
                         else andthen (swap_elems root maxChild v2) (\<lambda>v3. hsort_sift_down cmp maxChild bottom v3)
                       else Inr (True, v2))))
      else Inr (True, vals))"
  by pat_completeness auto
termination
proof (relation "measure (\<lambda>(cmp, root, bottom, vals). bottom - root)")
qed (auto dest!: max_child_bounds)

declare hsort_sift_down.simps [simp del]

fun hsort_build :: "compare \<Rightarrow> nat \<Rightarrow> nat \<Rightarrow> elems \<Rightarrow> (bool \<times> elems) outcome" where
  "hsort_build cmp 0 bottom vals = hsort_sift_down cmp 0 bottom vals"
| "hsort_build cmp (Suc i) bottom vals =
     andthen (hsort_sift_down cmp (Suc i) bottom vals)
       (\<lambda>(ok, v). if ok then hsort_build cmp i bottom v else Inr (False, v))"

fun hsort_extract :: "compare \<Rightarrow> nat \<Rightarrow> elems \<Rightarrow> (bool \<times> elems) outcome" where
  "hsort_extract cmp 0 vals = Inr (True, vals)"
| "hsort_extract cmp (Suc i) vals =
     andthen (swap_elems 0 (Suc i) vals)
       (\<lambda>v. andthen (hsort_sift_down cmp 0 i v)
          (\<lambda>(ok, v'). if ok then hsort_extract cmp i v' else Inr (False, v')))"

definition hsort :: "compare \<Rightarrow> elems \<Rightarrow> (bool \<times> elems) outcome" where
  "hsort cmp vals =
     (let array_size = length vals in
      andthen (hsort_build cmp (array_size div 2) (array_size - 1) vals)
        (\<lambda>(ok, v). if ok then hsort_extract cmp (array_size - 1) v else Inr (False, v)))"

definition array_sort :: "compare \<Rightarrow> elems \<Rightarrow> (bool \<times> elems) outcome" where
  "array_sort cmp vals = (if length vals > 1 then hsort cmp vals else Inr (True, vals))"

section \<open>Sorting by a consistent comparison\<close>

definition ret_le :: "(sqobject \<Rightarrow> sqobject \<Rightarrow> 32 word) \<Rightarrow> sqobject \<Rightarrow> sqobject \<Rightarrow> bool" where
  "ret_le ret a b \<longleftrightarrow> \<not> 0 < sint (ret a b)"

text \<open>Every node of the first \<open>bottom + 1\<close> below node \<open>low\<close>, except for the children of \<open>hole\<close>, is at most its parent.\<close>

definition heap_but :: "(sqobject \<Rightarrow> sqobject \<Rightarrow> 32 word) \<Rightarrow> nat \<Rightarrow> nat \<Rightarrow> (nat \<Rightarrow> bool) \<Rightarrow> elems \<Rightarrow> bool" where
  "heap_but ret low bottom hole v \<longleftrightarrow>
     (\<forall>i. 1 \<le> i \<and> i \<le> bottom \<and> low \<le> i div 2 \<and> \<not> hole (i div 2) \<longrightarrow> ret_le ret (v ! i) (v ! (i div 2)))"

abbreviation is_heap :: "(sqobject \<Rightarrow> sqobject \<Rightarrow> 32 word) \<Rightarrow> nat \<Rightarrow> nat \<Rightarrow> elems \<Rightarrow> bool" where
  "is_heap ret low bottom v \<equiv> heap_but ret low bottom (\<lambda>_. False) v"

lemma mset_swap_elems:
  assumes "i < length v" "j < length v"
  shows "swap_elems i j v = Inr (v[i := v ! j, j := v ! i])" "mset (v[i := v ! j, j := v ! i]) = mset v"
  using assms mset_swap [of j v i] by (simp_all add: swap_elems_def elem_at_def)

text \<open>
  A comparison is consistent on a set of values when it does not touch the array, its sign is
  antisymmetric and \<open>at most\<close> is transitive.
\<close>

locale consistent =
  fixes A :: "sqobject set" and cmp :: compare and ret :: "sqobject \<Rightarrow> sqobject \<Rightarrow> 32 word"
  assumes pure: "a \<in> A \<Longrightarrow> b \<in> A \<Longrightarrow> cmp a b v = (Some (ret a b), v)"
    and antisym: "a \<in> A \<Longrightarrow> b \<in> A \<Longrightarrow> sint (ret a b) < 0 \<longleftrightarrow> 0 < sint (ret b a)"
    and trans: "a \<in> A \<Longrightarrow> b \<in> A \<Longrightarrow> c \<in> A \<Longrightarrow> ret_le ret a b \<Longrightarrow> ret_le ret b c \<Longrightarrow> ret_le ret a c"
begin

lemma le_refl: "a \<in> A \<Longrightarrow> ret_le ret a a"
  using antisym [of a a] by (auto simp: ret_le_def)

lemma le_other: "a \<in> A \<Longrightarrow> b \<in> A \<Longrightarrow> 0 < sint (ret a b) \<Longrightarrow> ret_le ret b a"
  using antisym [of b a] by (auto simp: ret_le_def)

lemma less_le: "a \<in> A \<Longrightarrow> b \<in> A \<Longrightarrow> sint (ret a b) < 0 \<Longrightarrow> ret_le ret a b"
  by (simp add: ret_le_def)

lemma not_less_le: "a \<in> A \<Longrightarrow> b \<in> A \<Longrightarrow> \<not> sint (ret a b) < 0 \<Longrightarrow> ret_le ret b a"
  using antisym [of a b] by (simp add: ret_le_def)

lemma max_child_ok:
  assumes "root2 \<le> bottom" "bottom < length v" "set v \<subseteq> A"
  obtains c where "max_child cmp root2 bottom v = Inr (Some c, v)" "root2 \<le> c" "c \<le> root2 + 1" "c \<le> bottom"
    "ret_le ret (v ! root2) (v ! c)" "root2 + 1 \<le> bottom \<longrightarrow> ret_le ret (v ! (root2 + 1)) (v ! c)"
proof (cases "root2 = bottom")
  case True
  have "v ! root2 \<in> A" using assms by (auto intro: nth_mem)
  then show ?thesis using that [of root2] assms True by (simp add: max_child_def le_refl)
next
  case False
  have A: "v ! root2 \<in> A" "v ! (root2 + 1) \<in> A" using assms False by (auto intro: nth_mem)
  then have "max_child cmp root2 bottom v = Inr (Some (if 0 < sint (ret (v ! root2) (v ! (root2 + 1))) then root2 else root2 + 1), v)"
    using assms False pure [OF A] by (simp add: max_child_def elem_at_def)
  then show ?thesis
    using that [of "if 0 < sint (ret (v ! root2) (v ! (root2 + 1))) then root2 else root2 + 1"] assms False A le_refl le_other [OF A]
    by (auto simp: ret_le_def split: if_splits)
qed

lemma sift_swap:
  assumes v: "bottom < length v" "low \<le> root" "heap_but ret low bottom (\<lambda>p. p = root) v"
    and top: "root \<noteq> low \<Longrightarrow> \<forall>i. 1 \<le> i \<and> i \<le> bottom \<and> i div 2 = root \<longrightarrow> ret_le ret (v ! i) (v ! (root div 2))"
    and c: "1 \<le> c" "c \<le> bottom" "c div 2 = root" "ret_le ret (v ! root) (v ! c)"
    and kids: "\<And>i. 1 \<le> i \<Longrightarrow> i \<le> bottom \<Longrightarrow> i div 2 = root \<Longrightarrow> ret_le ret (v ! i) (v ! c)"
    and v': "v' = v[root := v ! c, c := v ! root]"
  shows "heap_but ret low bottom (\<lambda>p. p = c) v'"
    "\<forall>i. 1 \<le> i \<and> i \<le> bottom \<and> i div 2 = c \<longrightarrow> ret_le ret (v' ! i) (v' ! (c div 2))"
proof -
  have rc: "root < c" using c(1,3) by auto
  have at: "v' ! root = v ! c" "v' ! c = v ! root" "\<And>i. i \<noteq> root \<Longrightarrow> i \<noteq> c \<Longrightarrow> v' ! i = v ! i"
    using v(1) c(2) rc by (auto simp: v' nth_list_update)
  have heap: "ret_le ret (v ! i) (v ! (i div 2))" if "1 \<le> i" "i \<le> bottom" "low \<le> i div 2" "i div 2 \<noteq> root" for i
    using v(3) that by (auto simp: heap_but_def)
  show "\<forall>i. 1 \<le> i \<and> i \<le> bottom \<and> i div 2 = c \<longrightarrow> ret_le ret (v' ! i) (v' ! (c div 2))"
  proof (intro allI impI)
    fix i
    assume i: "1 \<le> i \<and> i \<le> bottom \<and> i div 2 = c"
    then have "i \<noteq> root" "i \<noteq> c" using rc c(1) by auto
    then show "ret_le ret (v' ! i) (v' ! (c div 2))" using heap [of i] i rc v(2) at c(3) by simp
  qed
  have "ret_le ret (v' ! i) (v' ! (i div 2))" if i: "1 \<le> i" "i \<le> bottom" "low \<le> i div 2" "i div 2 \<noteq> c" for i
  proof -
    consider "i = c" | "i \<noteq> c" "i div 2 = root" | "i = root" "i div 2 \<noteq> root" | "i \<noteq> root" "i \<noteq> c" "i div 2 \<noteq> root" by blast
    then show ?thesis
    proof cases
      case 1
      then show ?thesis using at c(3,4) by simp
    next
      case 2
      then have "i \<noteq> root" using i(1) by auto
      then show ?thesis using 2 at kids [OF i(1,2)] by simp
    next
      case 3
      then have "root \<noteq> low" using i(1,3) by auto
      then have "ret_le ret (v ! c) (v ! (root div 2))" using top c by blast
      then show ?thesis using 3 at rc by auto
    next
      case 4
      then show ?thesis using heap [OF i(1,2,3)] i(4) at(3) by simp
    qed
  qed
  then show "heap_but ret low bottom (\<lambda>p. p = c) v'" by (simp add: heap_but_def)
qed

lemma sift_down_ok:
  assumes "bottom < length v" "set v \<subseteq> A" "low \<le> root"
    and "heap_but ret low bottom (\<lambda>p. p = root) v"
    and "root \<noteq> low \<Longrightarrow> 1 \<le> root \<and> low \<le> root div 2 \<and> (\<forall>i. 1 \<le> i \<and> i \<le> bottom \<and> i div 2 = root \<longrightarrow> ret_le ret (v ! i) (v ! (root div 2)))"
  shows "\<exists>v'. hsort_sift_down cmp root bottom v = Inr (True, v') \<and> mset v' = mset v \<and> drop (Suc bottom) v' = drop (Suc bottom) v \<and>
    is_heap ret low bottom v'"
  using assms
proof (induction "bottom - root" arbitrary: root v rule: less_induct)
  case less
  show ?case
  proof (cases "root * 2 \<le> bottom")
    case False
    then have "i div 2 \<noteq> root" if "i \<le> bottom" for i using that by auto
    then have "is_heap ret low bottom v" using less.prems(4) by (auto simp: heap_but_def)
    then show ?thesis using False by (simp add: hsort_sift_down.simps)
  next
    case True
    obtain c where c: "max_child cmp (root * 2) bottom v = Inr (Some c, v)" "root * 2 \<le> c" "c \<le> root * 2 + 1" "c \<le> bottom"
        "ret_le ret (v ! (root * 2)) (v ! c)" "root * 2 + 1 \<le> bottom \<longrightarrow> ret_le ret (v ! (root * 2 + 1)) (v ! c)"
      by (rule max_child_ok [OF True less.prems(1,2)])
    have l: "root < length v" "c < length v" using c less.prems(1) by auto
    have A: "v ! root \<in> A" "v ! c \<in> A" "\<And>i. i \<le> bottom \<Longrightarrow> v ! i \<in> A" using l less.prems(1,2) by (auto intro: nth_mem)
    have kids: "ret_le ret (v ! i) (v ! c)" if "1 \<le> i" "i \<le> bottom" "i div 2 = root" for i
    proof -
      have "i = root * 2 \<or> i = root * 2 + 1" using that(3) by auto
      then show ?thesis using c(5,6) that(2) by auto
    qed
    show ?thesis
    proof (cases "sint (ret (v ! root) (v ! c)) < 0")
      case False
      then have up: "ret_le ret (v ! c) (v ! root)" using not_less_le A by blast
      have "ret_le ret (v ! i) (v ! root)" if "1 \<le> i" "i \<le> bottom" "i div 2 = root" for i
        using trans [OF _ A(2,1) kids [OF that] up] A(3) that by blast
      then have "is_heap ret low bottom v" using less.prems(4) by (auto simp: heap_but_def)
      then show ?thesis using True c(1) False l pure [OF A(1,2)] by (simp add: hsort_sift_down.simps elem_at_def)
    next
      case lt: True
      have rc: "root \<noteq> c" using antisym [OF A(1,1)] lt by auto
      then have c': "1 \<le> c" "c div 2 = root" using c(2,3) by auto
      define v' where "v' = v[root := v ! c, c := v ! root]"
      note sw = sift_swap [OF less.prems(1,3,4) conjunct2 [OF conjunct2 [OF less.prems(5)]] c'(1) c(4) c'(2) less_le [OF A(1,2) lt] kids v'_def]
      have m: "swap_elems root c v = Inr v'" "mset v' = mset v" using mset_swap_elems [OF l] by (simp_all add: v'_def)
      then have sub: "set v' \<subseteq> A" "bottom < length v'" using less.prems(1,2) by (auto dest: mset_eq_setD mset_eq_length)
      have "\<exists>v''. hsort_sift_down cmp c bottom v' = Inr (True, v'') \<and> mset v'' = mset v' \<and> drop (Suc bottom) v'' = drop (Suc bottom) v' \<and>
          is_heap ret low bottom v''"
      proof (rule less.hyps [OF _ sub(2,1) _ sw(1)])
        show "bottom - c < bottom - root" "low \<le> c" using c(4) c' less.prems(3) by auto
        show "1 \<le> c \<and> low \<le> c div 2 \<and> (\<forall>i. 1 \<le> i \<and> i \<le> bottom \<and> i div 2 = c \<longrightarrow> ret_le ret (v' ! i) (v' ! (c div 2)))"
          using c'(1) less.prems(3) sw(2) unfolding c'(2) by blast
      qed
      moreover have "drop (Suc bottom) v' = drop (Suc bottom) v" using c(4) c' by (simp add: v'_def)
      ultimately show ?thesis using True c(1) lt l rc m pure [OF A(1,2)] by (subst hsort_sift_down.simps) (simp add: elem_at_def)
    qed
  qed
qed

lemma build_ok:
  assumes "bottom < length v" "set v \<subseteq> A" "is_heap ret (Suc i) bottom v"
  shows "\<exists>v'. hsort_build cmp i bottom v = Inr (True, v') \<and> mset v' = mset v \<and> is_heap ret 0 bottom v'"
  using assms
proof (induction i arbitrary: v)
  case 0
  then have "heap_but ret 0 bottom (\<lambda>p. p = 0) v" by (auto simp: heap_but_def)
  from sift_down_ok [OF 0(1,2) _ this] show ?case by auto
next
  case (Suc i)
  then have "heap_but ret (Suc i) bottom (\<lambda>p. p = Suc i) v" by (auto simp: heap_but_def)
  from sift_down_ok [OF Suc.prems(1,2) _ this] obtain v1 where
    v1: "hsort_sift_down cmp (Suc i) bottom v = Inr (True, v1)" "mset v1 = mset v" "is_heap ret (Suc i) bottom v1" by auto
  have "bottom < length v1" "set v1 \<subseteq> A" using v1(2) Suc.prems(1,2) by (auto dest: mset_eq_setD mset_eq_length)
  from Suc.IH [OF this v1(3)] v1 show ?case by auto
qed

lemma heap_top:
  assumes "is_heap ret 0 bottom v" "bottom < length v" "set v \<subseteq> A" "i \<le> bottom"
  shows "ret_le ret (v ! i) (v ! 0)"
  using assms(4)
proof (induction i rule: less_induct)
  case (less i)
  have A: "v ! j \<in> A" if "j \<le> bottom" for j using that assms(2,3) by (auto intro: nth_mem)
  show ?case
  proof (cases "i = 0")
    case False
    then have "ret_le ret (v ! i) (v ! (i div 2))" using assms(1) less.prems by (auto simp: heap_but_def)
    moreover have "ret_le ret (v ! (i div 2)) (v ! 0)" using False less by auto
    ultimately show ?thesis using trans A less.prems by (metis div_le_dividend le0 order_trans)
  qed (use A le_refl in auto)
qed

lemma extract_ok:
  assumes "i < length v" "set v \<subseteq> A" "is_heap ret 0 i v" "sorted_wrt (ret_le ret) (drop (Suc i) v)"
    and "\<And>x y. x \<in> set (take (Suc i) v) \<Longrightarrow> y \<in> set (drop (Suc i) v) \<Longrightarrow> ret_le ret x y"
  shows "\<exists>v'. hsort_extract cmp i v = Inr (True, v') \<and> mset v' = mset v \<and> sorted_wrt (ret_le ret) v'"
  using assms
proof (induction i arbitrary: v)
  case 0
  then obtain x v1 where "v = x # v1" by (cases v) auto
  then show ?case using 0 by simp
next
  case (Suc i)
  have z: "0 < length v" using Suc.prems(1) by linarith
  define w where "w = v[0 := v ! Suc i, Suc i := v ! 0]"
  have w: "swap_elems 0 (Suc i) v = Inr w" "mset w = mset v" "length w = length v"
    using mset_swap_elems [OF z Suc.prems(1)] by (simp_all add: w_def)
  have wi: "w ! j = v ! j" if "j \<noteq> 0" "j \<noteq> Suc i" for j using that by (simp add: w_def)
  have "heap_but ret 0 i (\<lambda>p. p = 0) w"
    using Suc.prems(3) wi unfolding heap_but_def by (metis Suc_n_not_le_n div_le_dividend le_SucI le_trans not_one_le_zero)
  moreover have "i < length w" "set w \<subseteq> A" using w Suc.prems(1,2) by (auto dest: mset_eq_setD)
  ultimately obtain u where u: "hsort_sift_down cmp 0 i w = Inr (True, u)" "mset u = mset w" "drop (Suc i) u = drop (Suc i) w" "is_heap ret 0 i u"
    using sift_down_ok [of i w 0 0] by auto
  have dw: "drop (Suc i) w = v ! 0 # drop (Suc (Suc i)) v"
    using Suc.prems(1) by (simp add: w_def Cons_nth_drop_Suc [symmetric] nth_list_update)
  have "mset (take (Suc i) u) = mset (take (Suc i) w)"
    using u(2,3) by (metis add_right_cancel append_take_drop_id mset_append)
  then have "set (take (Suc i) u) = set (take (Suc i) w)" by (rule mset_eq_setD)
  also have "\<dots> \<subseteq> set (take (Suc (Suc i)) v)"
  proof
    fix x assume "x \<in> set (take (Suc i) w)"
    then obtain j where j: "j < Suc i" "x = w ! j" by (auto simp: in_set_conv_nth)
    then have "x = v ! (if j = 0 then Suc i else j)" using z Suc.prems(1) by (auto simp: w_def nth_list_update)
    then show "x \<in> set (take (Suc (Suc i)) v)" using j(1) Suc.prems(1) by (auto simp: in_set_conv_nth intro!: exI [of _ "if j = 0 then Suc i else j"])
  qed
  finally have sub: "set (take (Suc i) u) \<subseteq> set (take (Suc (Suc i)) v)" .
  have max: "ret_le ret x (v ! 0)" if x: "x \<in> set (take (Suc (Suc i)) v)" for x
    using x heap_top [OF Suc.prems(3,1,2)] by (auto simp: in_set_conv_nth)
  have "v ! 0 \<in> set (take (Suc (Suc i)) v)" using Suc.prems(1) by (cases v) auto
  then have "sorted_wrt (ret_le ret) (drop (Suc i) u)" using Suc.prems(4,5) by (simp add: u(3) dw)
  moreover have "ret_le ret x y" if "x \<in> set (take (Suc i) u)" "y \<in> set (drop (Suc i) u)" for x y
    using that sub max Suc.prems(5) by (auto simp: u(3) dw)
  moreover have "i < length u" "set u \<subseteq> A" using u(2) w Suc.prems(1,2) by (auto dest: mset_eq_setD mset_eq_length)
  ultimately show ?case using Suc.IH [of u] u(1,2,4) w by auto
qed

lemma hsort_ok:
  assumes "v \<noteq> []" "set v \<subseteq> A"
  shows "\<exists>v'. hsort cmp v = Inr (True, v') \<and> mset v' = mset v \<and> sorted_wrt (ret_le ret) v'"
proof -
  have l: "length v - 1 < length v" using assms(1) by simp
  have "is_heap ret (Suc (length v div 2)) (length v - 1) v" by (auto simp: heap_but_def)
  from build_ok [OF l assms(2) this] obtain u where
    u: "hsort_build cmp (length v div 2) (length v - 1) v = Inr (True, u)" "mset u = mset v" "is_heap ret 0 (length v - 1) u" by auto
  have len: "length u = length v" and sub: "set u \<subseteq> A" using u(2) assms(2) by (auto dest: mset_eq_setD mset_eq_length)
  from extract_ok [of "length v - 1" u] u sub len l show ?thesis by (auto simp: hsort_def)
qed

lemma array_sort_ok:
  assumes "set v \<subseteq> A"
  shows "\<exists>v'. array_sort cmp v = Inr (True, v') \<and> mset v' = mset v \<and> sorted_wrt (ret_le ret) v'"
proof (cases "length v > 1")
  case True
  then have "v \<noteq> []" by auto
  from hsort_ok [OF this assms] True show ?thesis by (simp add: array_sort_def)
next
  case False
  then have "sorted_wrt (ret_le ret) v" by (cases v) auto
  with False show ?thesis by (simp add: array_sort_def)
qed

end

section \<open>Sorting by any comparison\<close>

definition keeps_array :: "compare \<Rightarrow> bool" where
  "keeps_array cmp \<longleftrightarrow> (\<forall>a b v. snd (cmp a b v) = v)"

lemma keeps_arrayD: "keeps_array cmp \<Longrightarrow> \<exists>r. cmp a b v = (r, v)"
  by (metis keeps_array_def prod.collapse)

lemma max_child_any:
  assumes "keeps_array cmp" "root2 \<le> bottom" "bottom < length v"
  obtains mc where "max_child cmp root2 bottom v = Inr (mc, v)" "\<And>c. mc = Some c \<Longrightarrow> root2 \<le> c \<and> c \<le> bottom"
proof -
  obtain r where "cmp (v ! root2) (v ! Suc root2) v = (r, v)" using keeps_arrayD [OF assms(1)] by blast
  then have "\<exists>mc. max_child cmp root2 bottom v = Inr (mc, v)"
    using assms(2,3) by (cases r) (auto simp: max_child_def elem_at_def)
  then show ?thesis using that max_child_bounds [of cmp root2 bottom v _ v] assms(2) by auto
qed

lemma sift_down_any:
  assumes "keeps_array cmp" "bottom < length v"
  shows "\<exists>ok v'. hsort_sift_down cmp root bottom v = Inr (ok, v') \<and> mset v' = mset v"
  using assms(2)
proof (induction "bottom - root" arbitrary: root v rule: less_induct)
  case less
  show ?case
  proof (cases "root * 2 \<le> bottom")
    case False
    then show ?thesis by (auto simp: hsort_sift_down.simps)
  next
    case True
    obtain mc where mc: "max_child cmp (root * 2) bottom v = Inr (mc, v)" "\<And>c. mc = Some c \<Longrightarrow> root * 2 \<le> c \<and> c \<le> bottom"
      by (rule max_child_any [OF assms(1) True less.prems]) blast
    show ?thesis
    proof (cases mc)
      case None
      then show ?thesis using True mc by (auto simp: hsort_sift_down.simps)
    next
      case (Some c)
      have l: "root < length v" "c < length v" using mc(2) [OF Some] True less.prems by auto
      obtain r where r: "cmp (v ! root) (v ! c) v = (r, v)" using keeps_arrayD [OF assms(1)] by blast
      show ?thesis
      proof (cases "\<exists>w. r = Some w \<and> sint w < 0 \<and> root \<noteq> c")
        case True2: True
        define v' where "v' = v[root := v ! c, c := v ! root]"
        have m: "swap_elems root c v = Inr v'" "mset v' = mset v" using mset_swap_elems [OF l] by (simp_all add: v'_def)
        have "bottom - c < bottom - root" "bottom < length v'" using mc(2) [OF Some] True2 less.prems by (auto simp: v'_def)
        from less.hyps [OF this] obtain ok v'' where "hsort_sift_down cmp c bottom v' = Inr (ok, v'')" "mset v'' = mset v'" by blast
        then show ?thesis using True True2 mc(1) Some l r m by (subst hsort_sift_down.simps) (auto simp: elem_at_def)
      next
        case False
        then show ?thesis using True mc(1) Some l r by (subst hsort_sift_down.simps) (cases r; auto simp: elem_at_def)
      qed
    qed
  qed
qed

lemma hsort_any:
  assumes cmp: "keeps_array cmp"
  shows "bottom < length v \<Longrightarrow> \<exists>ok v'. hsort_build cmp i bottom v = Inr (ok, v') \<and> mset v' = mset v"
    "j < length v \<Longrightarrow> \<exists>ok v'. hsort_extract cmp j v = Inr (ok, v') \<and> mset v' = mset v"
proof -
  show "bottom < length v \<Longrightarrow> \<exists>ok v'. hsort_build cmp i bottom v = Inr (ok, v') \<and> mset v' = mset v"
  proof (induction i arbitrary: v)
    case (Suc i)
    obtain ok u where u: "hsort_sift_down cmp (Suc i) bottom v = Inr (ok, u)" "mset u = mset v"
      using sift_down_any [OF cmp Suc.prems] by blast
    then have "bottom < length u" using Suc.prems by (auto dest: mset_eq_length)
    from Suc.IH [OF this] u show ?case by (cases ok) auto
  qed (use sift_down_any [OF cmp] in simp)
  show "j < length v \<Longrightarrow> \<exists>ok v'. hsort_extract cmp j v = Inr (ok, v') \<and> mset v' = mset v"
  proof (induction j arbitrary: v)
    case (Suc j)
    have z: "0 < length v" using Suc.prems by linarith
    define w where "w = v[0 := v ! Suc j, Suc j := v ! 0]"
    have w: "swap_elems 0 (Suc j) v = Inr w" "mset w = mset v" "length w = length v"
      using mset_swap_elems [OF z Suc.prems] by (simp_all add: w_def)
    obtain ok u where u: "hsort_sift_down cmp 0 j w = Inr (ok, u)" "mset u = mset w"
      using sift_down_any [OF cmp, of j w 0] w(3) Suc.prems by auto
    then have "j < length u" using Suc.prems w by (auto dest: mset_eq_length)
    from Suc.IH [OF this] u w show ?case by (cases ok) auto
  qed auto
qed

lemma array_sort_any:
  assumes cmp: "keeps_array cmp"
  shows "\<exists>ok v'. array_sort cmp v = Inr (ok, v') \<and> mset v' = mset v"
proof (cases "length v > 1")
  case True
  then obtain ok u where u: "hsort_build cmp (length v div 2) (length v - 1) v = Inr (ok, u)" "mset u = mset v"
    using hsort_any(1) [OF cmp, of "length v - 1" v] by fastforce
  then have "length v - 1 < length u" using True by (auto dest: mset_eq_length)
  from hsort_any(2) [OF cmp this] u True show ?thesis by (cases ok) (auto simp: array_sort_def hsort_def)
qed (auto simp: array_sort_def)

section \<open>The default order\<close>

text \<open>
  The comparison without a function argument is consistent on integers and on strings without
  embedded terminators.
\<close>

definition integers :: "sqobject set" where
  "integers = range OT_INTEGER"

definition c_strings :: "sqobject set" where
  "c_strings = OT_STRING ` {s. NUL \<notin> set s}"

definition obj_ret :: "float_ops \<Rightarrow> metacall \<Rightarrow> sqobject \<Rightarrow> sqobject \<Rightarrow> 32 word" where
  "obj_ret fo meta a b = the (fst (ObjCmp fo meta a b []))"

lemma ObjCmp_integers: "ObjCmp fo meta (OT_INTEGER a) (OT_INTEGER b) v = (Some (if a = b then 0 else if sint a < sint b then - 1 else 1), v)"
  by (simp add: ObjCmp_def)

lemma strcmp_loop_cases: "strcmp_loop a b \<in> {- 1, 0, 1}"
  by (induction a b rule: strcmp_loop.induct) auto

lemma strcmp_loop_eq: "strcmp_loop a b = 0 \<longleftrightarrow> a = b"
  by (induction a b rule: strcmp_loop.induct) auto

lemma strcmp_loop_sym: "strcmp_loop a b = - 1 \<longleftrightarrow> strcmp_loop b a = 1"
  by (induction a b rule: strcmp_loop.induct) (auto simp: of_char_eq_iff not_less_iff_gr_or_eq)

lemma strcmp_loop_trans: "strcmp_loop a b \<noteq> 1 \<Longrightarrow> strcmp_loop b c \<noteq> 1 \<Longrightarrow> strcmp_loop a c \<noteq> 1"
proof (induction a b arbitrary: c rule: strcmp_loop.induct)
  case (4 x xs y ys)
  then show ?case by (cases c) (auto split: if_splits)
qed (case_tac c; simp)+

lemma sint_neqD: "(a :: 32 word) \<noteq> b \<Longrightarrow> \<not> sint a < sint b \<Longrightarrow> sint b < sint a"
  by (metis linorder_neqE signed_word_eqI)

interpretation integer_order: consistent integers "sort_compare f2i (ObjCmp fo meta) None" "obj_ret fo meta"
  for f2i fo meta
proof unfold_locales
  fix a b c v
  assume "a \<in> integers" "b \<in> integers"
  then obtain x y where ab: "a = OT_INTEGER x" "b = OT_INTEGER y" by (auto simp: integers_def)
  then show "sort_compare f2i (ObjCmp fo meta) None a b v = (Some (obj_ret fo meta a b), v)"
    by (simp add: sort_compare_def obj_ret_def ObjCmp_integers)
  show "sint (obj_ret fo meta a b) < 0 \<longleftrightarrow> 0 < sint (obj_ret fo meta b a)"
    using ab sint_neqD [of x y] by (cases "x = y") (auto simp: obj_ret_def ObjCmp_integers)
  assume "c \<in> integers" "ret_le (obj_ret fo meta) a b" "ret_le (obj_ret fo meta) b c"
  with ab show "ret_le (obj_ret fo meta) a c"
    by (auto simp: ret_le_def obj_ret_def ObjCmp_integers integers_def split: if_split_asm)
qed

lemma ObjCmp_strings:
  "NUL \<notin> set a \<Longrightarrow> NUL \<notin> set b \<Longrightarrow> ObjCmp fo meta (OT_STRING a) (OT_STRING b) v = (Some (strcmp_loop a b), v)"
  using strcmp_loop_eq [of a b] by (auto simp: ObjCmp_def scstrcmp_def)

lemma sint_strcmp: "0 < sint (strcmp_loop a b) \<longleftrightarrow> strcmp_loop a b = 1" "sint (strcmp_loop a b) < 0 \<longleftrightarrow> strcmp_loop a b = - 1"
  using strcmp_loop_cases [of a b] by auto

interpretation string_order: consistent c_strings "sort_compare f2i (ObjCmp fo meta) None" "obj_ret fo meta"
  for f2i fo meta
proof unfold_locales
  fix a b c v
  assume "a \<in> c_strings" "b \<in> c_strings"
  then obtain s t where ab: "a = OT_STRING s" "b = OT_STRING t" "NUL \<notin> set s" "NUL \<notin> set t" by (auto simp: c_strings_def)
  then show "sort_compare f2i (ObjCmp fo meta) None a b v = (Some (obj_ret fo meta a b), v)"
    "sint (obj_ret fo meta a b) < 0 \<longleftrightarrow> 0 < sint (obj_ret fo meta b a)"
    by (simp_all add: sort_compare_def obj_ret_def ObjCmp_strings sint_strcmp strcmp_loop_sym)
  assume "c \<in> c_strings" "ret_le (obj_ret fo meta) a b" "ret_le (obj_ret fo meta) b c"
  with ab show "ret_le (obj_ret fo meta) a c"
    by (auto simp: ret_le_def obj_ret_def ObjCmp_strings sint_strcmp c_strings_def dest: strcmp_loop_trans)
qed

text \<open>
  C11. \<open>array.sort\<close> sorts: an array of integers, or of strings without embedded terminators, becomes a
  permutation of itself in ascending order, for every length; no element outside of the array is
  touched and no comparison is found inconsistent. And whatever a comparison function answers, as
  long as it leaves the array alone, the sort ends, with or without an error, and loses no element.
\<close>

theorem array_sort_sorts:
  assumes "set v \<subseteq> integers \<or> set v \<subseteq> c_strings" "keeps_array cmp"
  shows "(\<exists>v'. array_sort (sort_compare f2i (ObjCmp fo meta) None) v = Inr (True, v') \<and> mset v' = mset v \<and>
      sorted_wrt (\<lambda>a b. \<not> 0 < sint (the (fst (ObjCmp fo meta a b [])))) v') \<and>
    (\<exists>ok u'. array_sort cmp u = Inr (ok, u') \<and> mset u' = mset u)"
proof -
  have "(\<lambda>a b. \<not> 0 < sint (the (fst (ObjCmp fo meta a b [])))) = ret_le (obj_ret fo meta)"
    by (intro ext) (simp add: ret_le_def obj_ret_def)
  then show ?thesis
    using assms(1) integer_order.array_sort_ok [of v f2i fo meta] string_order.array_sort_ok [of v f2i fo meta]
      array_sort_any [OF assms(2), of u] by auto
qed

definition ex_floats :: float_ops where
  "ex_floats = \<lparr>f_less = (<), f_eq = (=), i2f = (\<lambda>x. x)\<rparr>"

theorem array_sort_sorts_witness:
  "(\<exists>v'. array_sort (sort_compare (\<lambda>x. x) (ObjCmp ex_floats (\<lambda>a b v. (None, v))) None) [OT_INTEGER 5, OT_INTEGER (- 3), OT_INTEGER 9, OT_INTEGER 5] =
      Inr (True, v') \<and> mset v' = mset [OT_INTEGER 5, OT_INTEGER (- 3), OT_INTEGER 9, OT_INTEGER 5]) \<and>
   (\<exists>ok u'. array_sort (\<lambda>a b v. (Some (- 1), v)) [OT_NULL, OT_BOOL True, OT_NULL] = Inr (ok, u') \<and> mset u' = mset [OT_NULL, OT_BOOL True, OT_NULL])"
proof -
  have i: "set [OT_INTEGER 5, OT_INTEGER (- 3), OT_INTEGER 9, OT_INTEGER 5] \<subseteq> integers \<or>
      set [OT_INTEGER 5, OT_INTEGER (- 3), OT_INTEGER 9, OT_INTEGER 5] \<subseteq> c_strings"
    and k: "keeps_array (\<lambda>a b v. (Some (- 1), v))"
    by (auto simp: integers_def keeps_array_def)
  show ?thesis
    using array_sort_sorts [OF i k, of "\<lambda>x. x" ex_floats "\<lambda>a b v. (None, v)" "[OT_NULL, OT_BOOL True, OT_NULL]"] by blast
qed

text \<open>
  The array is not protected while it is sorted: a comparison function that empties the array
  makes the sort read elements that are gone.
\<close>

theorem sort_reads_cleared_array:
  "array_sort (sort_compare f2i objcmp (Some (\<lambda>a b v. (Some (OT_INTEGER 0), [])))) [OT_INTEGER 1, OT_INTEGER 2] = Inl OutOfBounds"
  by (simp add: array_sort_def hsort_def hsort_sift_down.simps [of _ "Suc 0"] hsort_sift_down.simps [of _ 0] max_child_def elem_at_def sort_compare_def
      numeral_2_eq_2)

end
