(* ===== verification/Arrays.thy ===== *)
theory Arrays
  imports SqObject HeapSort
begin

text \<open>
  Growing vectors (\<open>sqvector\<close> in \<open>utility/squtils.h\<close>), arrays of the interpreter (\<open>utility/sqarray.h\<close>)
  and the array functions of scripts (\<open>utility/sqbaselib.cpp\<close>, \<open>utility/sqapi.cpp\<close>). A vector's block is a
  list of cells, a cell without a constructed value is \<open>None\<close>. \<open>mem\<close> is the largest block the allocator
  can provide, in bytes; a cell has 8 bytes. Calls of script functions take and return the array,
  which they may change.
\<close>

section \<open>Vectors\<close>

record vec =
  vec_vals :: "sqobject option list"
  vec_size :: nat
  vec_alloc :: nat

definition vec_new :: vec where
  "vec_new = \<lparr>vec_vals = [], vec_size = 0, vec_alloc = 0\<rparr>"

definition vec_put :: "nat \<Rightarrow> sqobject option \<Rightarrow> vec \<Rightarrow> vec outcome" where
  "vec_put i x v = (if i < length (vec_vals v) then Inr (v\<lparr>vec_vals := (vec_vals v)[i := x]\<rparr>) else Inl OutOfBounds)"

definition vec_get :: "nat \<Rightarrow> vec \<Rightarrow> sqobject outcome" where
  "vec_get i v = (if i < length (vec_vals v) then of_opt OutOfBounds (vec_vals v ! i) else Inl OutOfBounds)"

text \<open>
  \<open>_realloc\<close>: the number of bytes is computed in 32 bits, and a failed allocation, which leaves no
  block, is not noticed.
\<close>

definition vec_realloc :: "nat \<Rightarrow> nat \<Rightarrow> vec \<Rightarrow> vec" where
  "vec_realloc mem newsize v =
     (let n = (if newsize > 0 then newsize else 4);
          bytes = n * 8 mod 2 ^ 32;
          cells = (if bytes \<le> mem then bytes div 8 else 0) in
      v\<lparr>vec_vals := take cells (vec_vals v @ replicate cells None), vec_alloc := n\<rparr>)"

primrec vec_fill :: "nat \<Rightarrow> sqobject \<Rightarrow> vec \<Rightarrow> vec outcome" where
  "vec_fill 0 fill v = Inr v"
| "vec_fill (Suc k) fill v =
     andthen (vec_put (vec_size v) (Some fill) v) (\<lambda>v'. vec_fill k fill (v'\<lparr>vec_size := vec_size v + 1\<rparr>))"

definition vec_resize :: "nat \<Rightarrow> nat \<Rightarrow> sqobject \<Rightarrow> vec \<Rightarrow> vec outcome" where
  "vec_resize mem newsize fill v =
     (let v1 = (if newsize > vec_alloc v then vec_realloc mem newsize v else v) in
      if newsize > vec_size v1 then vec_fill (newsize - vec_size v1) fill v1
      else if newsize < vec_size v1 \<and> length (vec_vals v1) < vec_size v1 then Inl OutOfBounds
      else Inr (v1\<lparr>vec_vals := take newsize (vec_vals v1) @ replicate (vec_size v1 - newsize) None @ drop (vec_size v1) (vec_vals v1),
                   vec_size := newsize\<rparr>))"

definition vec_shrinktofit :: "nat \<Rightarrow> vec \<Rightarrow> vec" where
  "vec_shrinktofit mem v = (if vec_size v > 4 then vec_realloc mem (vec_size v) v else v)"

definition vec_push_back :: "nat \<Rightarrow> sqobject \<Rightarrow> vec \<Rightarrow> vec outcome" where
  "vec_push_back mem x v =
     (let v1 = (if vec_alloc v \<le> vec_size v then vec_realloc mem (vec_size v * 2 mod 2 ^ 32) v else v) in
      andthen (vec_put (vec_size v1) (Some x) v1) (\<lambda>v2. Inr (v2\<lparr>vec_size := vec_size v1 + 1\<rparr>)))"

definition vec_pop_back :: "vec \<Rightarrow> vec outcome" where
  "vec_pop_back v =
     (if vec_size v = 0 then Inl OutOfBounds
      else andthen (vec_put (vec_size v - 1) None v) (\<lambda>v'. Inr (v'\<lparr>vec_size := vec_size v - 1\<rparr>)))"

fun vec_shift :: "nat \<Rightarrow> nat \<Rightarrow> vec \<Rightarrow> vec outcome" where
  "vec_shift 0 idx v = Inr v"
| "vec_shift (Suc i) idx v =
     (if Suc i > idx then andthen (vec_get i v) (\<lambda>x. andthen (vec_put (Suc i) (Some x) v) (vec_shift i idx)) else Inr v)"

definition vec_insert :: "nat \<Rightarrow> nat \<Rightarrow> sqobject \<Rightarrow> vec \<Rightarrow> vec outcome" where
  "vec_insert mem idx x v =
     andthen (vec_resize mem ((vec_size v + 1) mod 2 ^ 32) OT_NULL v)
       (\<lambda>v1. andthen (vec_shift (vec_size v1 - 1) idx v1) (vec_put idx (Some x)))"

definition vec_remove :: "nat \<Rightarrow> vec \<Rightarrow> vec outcome" where
  "vec_remove idx v =
     andthen (vec_put idx None v)
       (\<lambda>v1. if length (vec_vals v) < vec_size v then Inl OutOfBounds else Inr (v1\<lparr>vec_vals := (if idx < vec_size v - 1
            then take idx (vec_vals v1) @ take (vec_size v - idx - 1) (drop (idx + 1) (vec_vals v1)) @ None # drop (vec_size v) (vec_vals v1)
            else vec_vals v1), vec_size := vec_size v - 1\<rparr>))"

definition vec_top :: "vec \<Rightarrow> sqobject outcome" where
  "vec_top v = (if vec_size v = 0 then Inl OutOfBounds else vec_get (vec_size v - 1) v)"

fun vec_copy_loop :: "sqobject option list \<Rightarrow> nat \<Rightarrow> vec \<Rightarrow> vec outcome" where
  "vec_copy_loop [] i v = Inr v"
| "vec_copy_loop (x # xs) i v =
     andthen (of_opt OutOfBounds x) (\<lambda>y. andthen (vec_put i (Some y) v) (vec_copy_loop xs (i + 1)))"

definition vec_copy :: "nat \<Rightarrow> vec \<Rightarrow> vec \<Rightarrow> vec outcome" where
  "vec_copy mem src v =
     andthen (if vec_size v \<noteq> 0 then vec_resize mem 0 OT_NULL v else Inr v)
       (\<lambda>v1. let v2 = (if vec_size src > vec_alloc v1 then vec_realloc mem (vec_size src) v1 else v1) in
             if vec_size src > length (vec_vals src) then Inl OutOfBounds
             else andthen (vec_copy_loop (take (vec_size src) (vec_vals src)) 0 v2) (\<lambda>v3. Inr (v3\<lparr>vec_size := vec_size src\<rparr>)))"

section \<open>Arrays\<close>

definition array_Create :: "nat \<Rightarrow> 32 word \<Rightarrow> vec outcome" where
  "array_Create mem nsize = vec_resize mem (unat nsize) OT_NULL vec_new"

definition array_Size :: "vec \<Rightarrow> 32 word" where
  "array_Size v = of_nat (vec_size v)"

definition array_Get :: "(32 word \<Rightarrow> sqobject) \<Rightarrow> 32 word \<Rightarrow> vec \<Rightarrow> sqobject option outcome" where
  "array_Get wr nidx v =
     (if 0 \<le> sint nidx \<and> sint nidx < sint (array_Size v)
      then andthen (vec_get (unat nidx) v) (\<lambda>x. Inr (Some (realval wr x))) else Inr None)"

definition array_Set :: "32 word \<Rightarrow> sqobject \<Rightarrow> vec \<Rightarrow> (bool \<times> vec) outcome" where
  "array_Set nidx x v =
     (if 0 \<le> sint nidx \<and> sint nidx < sint (array_Size v)
      then andthen (vec_put (unat nidx) (Some x) v) (\<lambda>v'. Inr (True, v')) else Inr (False, v))"

text \<open>The iteration step: the next index with key and value, or \<open>None\<close> for \<open>-1\<close>.\<close>

definition array_Next :: "(32 word \<Rightarrow> sqobject) \<Rightarrow> sqobject \<Rightarrow> vec \<Rightarrow> (32 word \<times> sqobject \<times> sqobject) option outcome" where
  "array_Next wr refpos v =
     andthen (TranslateIndex refpos)
       (\<lambda>idx. if unat idx < vec_size v
              then andthen (vec_get (unat idx) v) (\<lambda>x. Inr (Some (idx + 1, OT_INTEGER idx, realval wr x)))
              else Inr None)"

definition array_ShrinkIfNeeded :: "nat \<Rightarrow> vec \<Rightarrow> vec" where
  "array_ShrinkIfNeeded mem v = (if vec_size v \<le> vec_alloc v div 4 then vec_shrinktofit mem v else v)"

definition array_Resize :: "nat \<Rightarrow> 32 word \<Rightarrow> sqobject \<Rightarrow> vec \<Rightarrow> vec outcome" where
  "array_Resize mem sz fill v = andthen (vec_resize mem (unat sz) fill v) (\<lambda>v'. Inr (array_ShrinkIfNeeded mem v'))"

definition array_Append :: "nat \<Rightarrow> sqobject \<Rightarrow> vec \<Rightarrow> vec outcome" where
  "array_Append mem x v = vec_push_back mem x v"

text \<open>\<open>Extend\<close>: without an argument array the array is extended by itself; its length is read once.\<close>

primrec array_Extend_loop :: "nat \<Rightarrow> vec option \<Rightarrow> nat \<Rightarrow> nat \<Rightarrow> vec \<Rightarrow> vec outcome" where
  "array_Extend_loop mem a i 0 v = Inr v"
| "array_Extend_loop mem a i (Suc k) v =
     andthen (vec_get i (case a of None \<Rightarrow> v | Some b \<Rightarrow> b))
       (\<lambda>x. andthen (array_Append mem x v) (array_Extend_loop mem a (i + 1) k))"

definition array_Extend :: "nat \<Rightarrow> vec option \<Rightarrow> vec \<Rightarrow> vec outcome" where
  "array_Extend mem a v = array_Extend_loop mem a 0 (vec_size (case a of None \<Rightarrow> v | Some b \<Rightarrow> b)) v"

definition array_Pop :: "nat \<Rightarrow> vec \<Rightarrow> vec outcome" where
  "array_Pop mem v = andthen (vec_pop_back v) (\<lambda>v'. Inr (array_ShrinkIfNeeded mem v'))"

definition array_Insert :: "nat \<Rightarrow> 32 word \<Rightarrow> sqobject \<Rightarrow> vec \<Rightarrow> (bool \<times> vec) outcome" where
  "array_Insert mem idx x v =
     (if sint idx < 0 \<or> sint idx > sint (array_Size v) then Inr (False, v)
      else andthen (vec_insert mem (unat idx) x v) (\<lambda>v'. Inr (True, v')))"

definition array_Remove :: "nat \<Rightarrow> 32 word \<Rightarrow> vec \<Rightarrow> (bool \<times> vec) outcome" where
  "array_Remove mem idx v =
     (if sint idx < 0 \<or> sint idx \<ge> sint (array_Size v) then Inr (False, v)
      else andthen (vec_remove (unat idx) v) (\<lambda>v'. Inr (True, array_ShrinkIfNeeded mem v')))"

definition array_Clone :: "nat \<Rightarrow> vec \<Rightarrow> vec outcome" where
  "array_Clone mem v = andthen (array_Create mem 0) (vec_copy mem v)"

section \<open>Array functions of the interface\<close>

text \<open>
  A function of the interface finds \<open>stktop\<close> values on the stack and, at its index, the array \<open>arr\<close> or a
  value of another type (\<open>None\<close>). The flag \<open>False\<close> and the result \<open>None\<close> are errors.
\<close>

definition with_array :: "nat \<Rightarrow> nat \<Rightarrow> vec option \<Rightarrow> (vec \<Rightarrow> (bool \<times> vec) outcome) \<Rightarrow> (bool \<times> vec option) outcome" where
  "with_array cnt stktop arr f =
     (if stktop < cnt then Inr (False, arr)
      else case arr of
        None \<Rightarrow> Inr (False, None)
      | Some v \<Rightarrow> andthen (f v) (\<lambda>(ok, v'). Inr (ok, Some v')))"

definition sq_arrayappend :: "nat \<Rightarrow> nat \<Rightarrow> vec option \<Rightarrow> sqobject \<Rightarrow> (bool \<times> vec option) outcome" where
  "sq_arrayappend mem stktop arr x = with_array 2 stktop arr (\<lambda>v. andthen (array_Append mem x v) (\<lambda>v'. Inr (True, v')))"

text \<open>\<open>sq_arraypop\<close> gives the value it pushes, when it is asked to push one.\<close>

definition sq_arraypop :: "nat \<Rightarrow> nat \<Rightarrow> vec option \<Rightarrow> bool \<Rightarrow> (bool \<times> sqobject option \<times> vec option) outcome" where
  "sq_arraypop mem stktop arr pushval =
     (if stktop < 1 then Inr (False, None, arr)
      else case arr of
        None \<Rightarrow> Inr (False, None, None)
      | Some v \<Rightarrow>
          if 0 < sint (array_Size v) then
            andthen (if pushval then andthen (vec_top v) (\<lambda>x. Inr (Some x)) else Inr None)
              (\<lambda>r. andthen (array_Pop mem v) (\<lambda>v'. Inr (True, r, Some v')))
          else Inr (False, None, arr))"

definition sq_arrayresize :: "nat \<Rightarrow> nat \<Rightarrow> vec option \<Rightarrow> 32 word \<Rightarrow> (bool \<times> vec option) outcome" where
  "sq_arrayresize mem stktop arr newsize =
     with_array 1 stktop arr
       (\<lambda>v. if 0 \<le> sint newsize then andthen (array_Resize mem newsize OT_NULL v) (\<lambda>v'. Inr (True, v')) else Inr (False, v))"

primrec reverse_loop :: "nat \<Rightarrow> nat \<Rightarrow> nat \<Rightarrow> vec \<Rightarrow> vec outcome" where
  "reverse_loop 0 i sz v = Inr v"
| "reverse_loop (Suc k) i sz v =
     andthen (vec_get i v) (\<lambda>t. andthen (vec_get (sz - i) v) (\<lambda>x. andthen (vec_put i (Some x) v)
       (\<lambda>v1. andthen (vec_put (sz - i) (Some t) v1) (reverse_loop k (i + 1) sz))))"

definition sq_arrayreverse :: "nat \<Rightarrow> vec option \<Rightarrow> (bool \<times> vec option) outcome" where
  "sq_arrayreverse stktop arr =
     with_array 1 stktop arr
       (\<lambda>v. if 0 < sint (array_Size v)
            then andthen (reverse_loop (nat (sint (array_Size v)) div 2) 0 (nat (sint (array_Size v)) - 1) v) (\<lambda>v'. Inr (True, v'))
            else Inr (True, v))"

definition sq_arrayremove :: "nat \<Rightarrow> nat \<Rightarrow> vec option \<Rightarrow> 32 word \<Rightarrow> (bool \<times> vec option) outcome" where
  "sq_arrayremove mem stktop arr itemidx = with_array 1 stktop arr (array_Remove mem itemidx)"

definition sq_arrayinsert :: "nat \<Rightarrow> nat \<Rightarrow> vec option \<Rightarrow> 32 word \<Rightarrow> sqobject \<Rightarrow> (bool \<times> vec option) outcome" where
  "sq_arrayinsert mem stktop arr destpos x = with_array 1 stktop arr (array_Insert mem destpos x)"

section \<open>Array functions of scripts\<close>

text \<open>
  The registered parameter masks make the receiver an array and the indices numbers, and give the
  stack its size.
\<close>

definition base_array :: "(32 word \<Rightarrow> 32 word) \<Rightarrow> nat \<Rightarrow> sqobject \<Rightarrow> sqobject option \<Rightarrow> vec outcome" where
  "base_array f2i mem sz fill =
     (case fill of
        Some x \<Rightarrow> andthen (array_Create mem 0) (array_Resize mem (tointeger f2i sz) x)
      | None \<Rightarrow> array_Create mem (tointeger f2i sz))"

definition array_append :: "nat \<Rightarrow> sqobject \<Rightarrow> vec \<Rightarrow> (bool \<times> vec option) outcome" where
  "array_append mem x v = sq_arrayappend mem 2 (Some v) x"

definition array_extend :: "nat \<Rightarrow> vec option \<Rightarrow> vec \<Rightarrow> vec outcome" where
  "array_extend mem a v = array_Extend mem a v"

definition array_reverse :: "vec \<Rightarrow> (bool \<times> vec option) outcome" where
  "array_reverse v = sq_arrayreverse 1 (Some v)"

definition array_pop :: "nat \<Rightarrow> vec \<Rightarrow> (bool \<times> sqobject option \<times> vec option) outcome" where
  "array_pop mem v = sq_arraypop mem 1 (Some v) True"

definition array_top :: "vec \<Rightarrow> sqobject option outcome" where
  "array_top v = (if 0 < sint (array_Size v) then andthen (vec_top v) (\<lambda>x. Inr (Some x)) else Inr None)"

definition array_insert :: "(32 word \<Rightarrow> 32 word) \<Rightarrow> nat \<Rightarrow> sqobject \<Rightarrow> sqobject \<Rightarrow> vec \<Rightarrow> (bool \<times> vec) outcome" where
  "array_insert f2i mem idx x v = array_Insert mem (tointeger f2i idx) x v"

definition array_remove :: "(32 word \<Rightarrow> 32 word) \<Rightarrow> (32 word \<Rightarrow> sqobject) \<Rightarrow> nat \<Rightarrow> sqobject \<Rightarrow> vec \<Rightarrow> (sqobject option \<times> vec) outcome" where
  "array_remove f2i wr mem idx v =
     (if \<not> sq_isnumeric idx then Inr (None, v)
      else andthen (array_Get wr (tointeger f2i idx) v)
             (\<lambda>r. case r of
                 None \<Rightarrow> Inr (None, v)
               | Some x \<Rightarrow> andthen (array_Remove mem (tointeger f2i idx) v) (\<lambda>(_, v'). Inr (Some x, v'))))"

definition array_resize :: "(32 word \<Rightarrow> 32 word) \<Rightarrow> nat \<Rightarrow> sqobject \<Rightarrow> sqobject option \<Rightarrow> vec \<Rightarrow> (bool \<times> vec) outcome" where
  "array_resize f2i mem nsize fill v =
     (if sq_isnumeric nsize then
        let sz = tointeger f2i nsize in
        if sint sz < 0 then Inr (False, v)
        else andthen (array_Resize mem sz (case fill of None \<Rightarrow> OT_NULL | Some x \<Rightarrow> x) v) (\<lambda>v'. Inr (True, v'))
      else Inr (False, v))"

text \<open>
  A script function takes the array, which it may change, and fails with \<open>None\<close>. \<open>Get\<close> beyond the end
  of a shortened array leaves its variable \<open>temp\<close> as it was.
\<close>

type_synonym script = "sqobject list \<Rightarrow> vec \<Rightarrow> sqobject option \<times> vec"

definition get_or :: "(32 word \<Rightarrow> sqobject) \<Rightarrow> nat \<Rightarrow> sqobject \<Rightarrow> vec \<Rightarrow> sqobject outcome" where
  "get_or wr n temp v = andthen (array_Get wr (of_nat n) v) (\<lambda>r. Inr (case r of None \<Rightarrow> temp | Some x \<Rightarrow> x))"

text \<open>\<open>__map_array\<close> with the array itself as destination (\<open>None\<close>) or a new one.\<close>

primrec map_array_loop :: "(32 word \<Rightarrow> sqobject) \<Rightarrow> script \<Rightarrow> nat \<Rightarrow> nat \<Rightarrow> sqobject \<Rightarrow> vec option \<Rightarrow> vec \<Rightarrow> (bool \<times> vec option \<times> vec) outcome" where
  "map_array_loop wr call 0 n temp dest src = Inr (True, dest, src)"
| "map_array_loop wr call (Suc k) n temp dest src =
     andthen (get_or wr n temp src)
       (\<lambda>x. case call [x] src of
           (None, src') \<Rightarrow> Inr (False, dest, src')
         | (Some y, src') \<Rightarrow>
             (case dest of
                None \<Rightarrow> andthen (array_Set (of_nat n) y src') (\<lambda>(_, src''). map_array_loop wr call k (n + 1) x None src'')
              | Some d \<Rightarrow> andthen (array_Set (of_nat n) y d) (\<lambda>(_, d'). map_array_loop wr call k (n + 1) x (Some d') src')))"

definition map_array :: "(32 word \<Rightarrow> sqobject) \<Rightarrow> script \<Rightarrow> vec option \<Rightarrow> vec \<Rightarrow> (bool \<times> vec option \<times> vec) outcome" where
  "map_array wr call dest src = map_array_loop wr call (nat (sint (array_Size src))) 0 OT_NULL dest src"

definition array_map :: "(32 word \<Rightarrow> sqobject) \<Rightarrow> nat \<Rightarrow> script \<Rightarrow> vec \<Rightarrow> (vec option \<times> vec) outcome" where
  "array_map wr mem call v =
     andthen (array_Create mem (array_Size v))
       (\<lambda>ret. andthen (map_array wr call (Some ret) v) (\<lambda>(ok, d, v'). Inr (if ok then d else None, v')))"

definition array_apply :: "(32 word \<Rightarrow> sqobject) \<Rightarrow> script \<Rightarrow> vec \<Rightarrow> (bool \<times> vec) outcome" where
  "array_apply wr call v = andthen (map_array wr call None v) (\<lambda>(ok, _, v'). Inr (ok, v'))"

text \<open>\<open>array_reduce\<close> returns nothing on an empty array: \<open>Some None\<close>.\<close>

primrec reduce_loop :: "(32 word \<Rightarrow> sqobject) \<Rightarrow> script \<Rightarrow> nat \<Rightarrow> nat \<Rightarrow> sqobject \<Rightarrow> sqobject \<Rightarrow> vec \<Rightarrow> (sqobject option option \<times> vec) outcome" where
  "reduce_loop wr call 0 n other res v = Inr (Some (Some res), v)"
| "reduce_loop wr call (Suc k) n other res v =
     andthen (get_or wr n other v)
       (\<lambda>x. case call [res, x] v of
           (None, v') \<Rightarrow> Inr (None, v')
         | (Some y, v') \<Rightarrow> reduce_loop wr call k (n + 1) x y v')"

definition array_reduce :: "(32 word \<Rightarrow> sqobject) \<Rightarrow> script \<Rightarrow> vec \<Rightarrow> (sqobject option option \<times> vec) outcome" where
  "array_reduce wr call v =
     (let size = nat (sint (array_Size v)) in
      if array_Size v = 0 then Inr (Some None, v)
      else andthen (get_or wr 0 OT_NULL v) (\<lambda>res. reduce_loop wr call (size - 1) 1 OT_NULL res v))"

text \<open>\<open>IsFalse\<close> tests the payload of every type for zero, and a float for both zeros; the address of a heap object is never zero.\<close>

fun IsFalse :: "sqobject \<Rightarrow> bool" where
  "IsFalse OT_NULL = True"
| "IsFalse (OT_INTEGER i) = (i = 0)"
| "IsFalse (OT_FLOAT x) = (x = 0 \<or> x = 0x80000000)"
| "IsFalse (OT_BOOL b) = (\<not> b)"
| "IsFalse (OT_USERPOINTER p) = (p = 0)"
| "IsFalse _ = False"

definition IsEqual :: "float_ops \<Rightarrow> sqobject \<Rightarrow> sqobject \<Rightarrow> bool" where
  "IsEqual fo o1 o2 =
     (case (o1, o2) of
        (OT_INTEGER a, OT_FLOAT b) \<Rightarrow> f_eq fo (i2f fo a) b
      | (OT_FLOAT a, OT_INTEGER b) \<Rightarrow> f_eq fo a (i2f fo b)
      | _ \<Rightarrow> o1 = o2)"

primrec filter_loop :: "(32 word \<Rightarrow> sqobject) \<Rightarrow> nat \<Rightarrow> script \<Rightarrow> nat \<Rightarrow> nat \<Rightarrow> sqobject \<Rightarrow> vec \<Rightarrow> vec \<Rightarrow> (vec option \<times> vec) outcome" where
  "filter_loop wr mem call 0 n val ret v = Inr (Some ret, v)"
| "filter_loop wr mem call (Suc k) n val ret v =
     andthen (get_or wr n val v)
       (\<lambda>x. case call [OT_INTEGER (of_nat n), x] v of
           (None, v') \<Rightarrow> Inr (None, v')
         | (Some y, v') \<Rightarrow>
             andthen (if IsFalse y then Inr ret else array_Append mem x ret)
               (\<lambda>ret'. filter_loop wr mem call k (n + 1) x ret' v'))"

definition array_filter :: "(32 word \<Rightarrow> sqobject) \<Rightarrow> nat \<Rightarrow> script \<Rightarrow> vec \<Rightarrow> (vec option \<times> vec) outcome" where
  "array_filter wr mem call v =
     andthen (array_Create mem 0) (\<lambda>ret. filter_loop wr mem call (nat (sint (array_Size v))) 0 OT_NULL ret v)"

primrec find_loop :: "(32 word \<Rightarrow> sqobject) \<Rightarrow> float_ops \<Rightarrow> nat \<Rightarrow> nat \<Rightarrow> sqobject \<Rightarrow> sqobject \<Rightarrow> vec \<Rightarrow> nat option outcome" where
  "find_loop wr fo 0 n temp x v = Inr None"
| "find_loop wr fo (Suc k) n temp x v =
     andthen (get_or wr n temp v)
       (\<lambda>y. if IsEqual fo y x then Inr (Some n) else find_loop wr fo k (n + 1) y x v)"

definition array_find :: "(32 word \<Rightarrow> sqobject) \<Rightarrow> float_ops \<Rightarrow> sqobject \<Rightarrow> vec \<Rightarrow> nat option outcome" where
  "array_find wr fo x v = find_loop wr fo (nat (sint (array_Size v))) 0 OT_NULL x v"

text \<open>
  \<open>get_slice_params\<close> on the optional arguments: an argument of another type leaves the bound 0, and
  only a missing end stands for the length.
\<close>

definition get_slice_params :: "(32 word \<Rightarrow> 32 word) \<Rightarrow> 32 word \<Rightarrow> sqobject list \<Rightarrow> 32 word \<times> 32 word" where
  "get_slice_params f2i sz args =
     (case args of
        [] \<Rightarrow> (0, sz)
      | [s] \<Rightarrow> (if sq_isnumeric s then tointeger f2i s else 0, sz)
      | s # e # _ \<Rightarrow> (if sq_isnumeric s then tointeger f2i s else 0, if sq_isnumeric e then tointeger f2i e else 0))"

primrec slice_loop :: "(32 word \<Rightarrow> sqobject) \<Rightarrow> nat \<Rightarrow> nat \<Rightarrow> nat \<Rightarrow> sqobject \<Rightarrow> vec \<Rightarrow> vec \<Rightarrow> vec outcome" where
  "slice_loop wr 0 i cnt t v arr = Inr arr"
| "slice_loop wr (Suc k) i cnt t v arr =
     andthen (get_or wr i t v)
       (\<lambda>x. andthen (array_Set (of_nat cnt) x arr) (\<lambda>(_, arr'). slice_loop wr k (i + 1) (cnt + 1) x v arr'))"

definition array_slice :: "(32 word \<Rightarrow> 32 word) \<Rightarrow> (32 word \<Rightarrow> sqobject) \<Rightarrow> nat \<Rightarrow> sqobject list \<Rightarrow> vec \<Rightarrow> vec option outcome" where
  "array_slice f2i wr mem args v =
     (let (s, e) = get_slice_params f2i (array_Size v) args;
          alen = array_Size v;
          sidx = (if sint s < 0 then alen + s else s);
          eidx = (if sint e < 0 then alen + e else e) in
      if sint eidx < sint sidx then Inr None
      else if sint eidx > sint alen \<or> sint sidx < 0 then Inr None
      else andthen (array_Create mem (eidx - sidx))
             (\<lambda>arr. andthen (slice_loop wr (nat (sint eidx - sint sidx)) (nat (sint sidx)) 0 OT_NULL v arr) (\<lambda>arr'. Inr (Some arr'))))"

text \<open>\<open>sq_clear\<close> on an array.\<close>

definition array_clear :: "nat \<Rightarrow> vec \<Rightarrow> vec outcome" where
  "array_clear mem v = array_Resize mem 0 OT_NULL v"

end
