(* ===== verification/ArrayOps.thy ===== *)
theory ArrayOps
  imports Arrays
begin

text \<open>
  Vectors and arrays of \<open>Arrays\<close> implement lists, as long as the blocks they need can be allocated: each
  operation, and each sequence of operations, computes what it should on the list of elements.
\<close>

section \<open>Vectors as lists\<close>

definition vec_is :: "vec \<Rightarrow> sqobject list \<Rightarrow> bool" where
  "vec_is v xs \<longleftrightarrow> vec_size v = length xs \<and> length xs \<le> vec_alloc v \<and> length (vec_vals v) = vec_alloc v \<and>
     take (length xs) (vec_vals v) = map Some xs"

definition gives :: "vec outcome \<Rightarrow> sqobject list \<Rightarrow> bool" where
  "gives r xs \<longleftrightarrow> (\<exists>v. r = Inr v \<and> vec_is v xs)"

definition fits :: "nat \<Rightarrow> nat \<Rightarrow> bool" where
  "fits mem n \<longleftrightarrow> n * 8 \<le> mem \<and> mem < 2 ^ 32"

lemma givesE:
  assumes "gives r xs"
  obtains v where "r = Inr v" "vec_is v xs"
  using assms by (auto simp: gives_def)

lemma gives_andthen: "gives r xs \<Longrightarrow> (\<And>v. vec_is v xs \<Longrightarrow> gives (f v) ys) \<Longrightarrow> gives (andthen r f) ys"
  by (auto simp: gives_def)

lemma gives_Inr: "gives (Inr v) xs \<longleftrightarrow> vec_is v xs"
  by (simp add: gives_def)

lemma fits_le: "fits mem n \<Longrightarrow> m \<le> n \<Longrightarrow> fits mem m"
  by (auto simp: fits_def)

lemma fits_small: "fits mem n \<Longrightarrow> n < 2 ^ 29"
  by (auto simp: fits_def)

lemma vec_is_new: "vec_is vec_new []"
  by (simp add: vec_is_def vec_new_def)

lemma vec_is_size: "vec_is v xs \<Longrightarrow> vec_size v = length xs"
  by (simp add: vec_is_def)

lemma vec_is_block: "vec_is v xs \<Longrightarrow> length xs \<le> length (vec_vals v)"
  by (simp add: vec_is_def)

lemma vec_is_nth:
  assumes "vec_is v xs" "i < length xs"
  shows "vec_vals v ! i = Some (xs ! i)"
proof -
  have "take (length xs) (vec_vals v) ! i = map Some xs ! i" using assms by (simp add: vec_is_def)
  then show ?thesis using assms(2) by simp
qed

lemma vec_isI:
  assumes "vec_size v = length xs" "length xs \<le> vec_alloc v" "length (vec_vals v) = vec_alloc v"
    "\<And>i. i < length xs \<Longrightarrow> vec_vals v ! i = Some (xs ! i)"
  shows "vec_is v xs"
proof -
  have "take (length xs) (vec_vals v) = map Some xs" by (rule nth_equalityI) (use assms in auto)
  with assms show ?thesis by (simp add: vec_is_def)
qed

lemma vec_get_ok: "vec_is v xs \<Longrightarrow> i < length xs \<Longrightarrow> vec_get i v = Inr (xs ! i)"
  using vec_is_block [of v xs] by (simp add: vec_get_def vec_is_nth)

lemma vec_put_ok: "vec_is v xs \<Longrightarrow> i < length xs \<Longrightarrow> gives (vec_put i (Some x) v) (xs[i := x])"
  using vec_is_block [of v xs]
  by (auto simp: vec_put_def gives_Inr vec_is_nth nth_list_update intro!: vec_isI) (simp_all add: vec_is_def)

lemma vec_realloc_ok:
  assumes "vec_is v xs" "length xs \<le> n" "fits mem (max n 4)"
  shows "vec_is (vec_realloc mem n v) xs" "vec_alloc (vec_realloc mem n v) = (if n > 0 then n else 4)"
proof -
  define m where "m = (if n > 0 then n else 4)"
  have m: "m * 8 \<le> mem" "m * 8 mod 2 ^ 32 = m * 8" using assms(3) by (auto simp: fits_def m_def max_def split: if_splits)
  have r: "vec_realloc mem n v = v\<lparr>vec_vals := take m (vec_vals v @ replicate m None), vec_alloc := m\<rparr>"
    unfolding vec_realloc_def m_def [symmetric] Let_def m(2) using m(1) by simp
  show "vec_alloc (vec_realloc mem n v) = (if n > 0 then n else 4)" by (simp add: r m_def)
  have "length xs \<le> m" using assms(2) by (simp add: m_def)
  then show "vec_is (vec_realloc mem n v) xs"
    using vec_is_block [OF assms(1)] assms(1) unfolding r
    by (intro vec_isI) (auto simp: vec_is_size vec_is_nth nth_append)
qed

lemma vec_extend_ok:
  assumes "vec_is v xs" "length xs < vec_alloc v"
  shows "\<exists>v'. vec_put (vec_size v) (Some x) v = Inr v' \<and> vec_is (v'\<lparr>vec_size := vec_size v + 1\<rparr>) (xs @ [x]) \<and> vec_alloc v' = vec_alloc v"
proof -
  have l: "length (vec_vals v) = vec_alloc v" "vec_size v = length xs" using assms(1) by (auto simp: vec_is_def)
  have "vec_is (v\<lparr>vec_vals := (vec_vals v)[length xs := Some x], vec_size := Suc (length xs)\<rparr>) (xs @ [x])"
    using assms l by (intro vec_isI) (auto simp: nth_append nth_list_update vec_is_nth less_Suc_eq)
  then show ?thesis using assms l by (simp add: vec_put_def)
qed

lemma vec_fill_ok:
  "vec_is v xs \<Longrightarrow> length xs + k \<le> vec_alloc v \<Longrightarrow> gives (vec_fill k x v) (xs @ replicate k x)"
proof (induction k arbitrary: v xs)
  case (Suc k)
  from vec_extend_ok [OF Suc.prems(1), of x] Suc.prems(2) obtain v' where
    v': "vec_put (vec_size v) (Some x) v = Inr v'" "vec_is (v'\<lparr>vec_size := vec_size v + 1\<rparr>) (xs @ [x])" "vec_alloc v' = vec_alloc v"
    by auto
  from Suc.IH [OF v'(2)] v'(1,3) Suc.prems(2) show ?case by simp
qed (simp add: gives_Inr)

definition resized :: "nat \<Rightarrow> sqobject \<Rightarrow> sqobject list \<Rightarrow> sqobject list" where
  "resized n x xs = take n xs @ replicate (n - length xs) x"

lemma vec_resize_ok:
  assumes "vec_is v xs" "fits mem (max n 4)"
  shows "gives (vec_resize mem n x v) (resized n x xs)"
proof -
  define v1 where "v1 = (if n > vec_alloc v then vec_realloc mem n v else v)"
  have v1: "vec_is v1 xs" "n \<le> vec_alloc v1"
    using vec_realloc_ok [OF assms(1) _ assms(2)] assms(1) by (auto simp: v1_def vec_is_def)
  note sz = vec_is_size [OF v1(1)] and bl = vec_is_block [OF v1(1)]
  have len: "length (vec_vals v1) = vec_alloc v1" using v1(1) by (simp add: vec_is_def)
  show ?thesis
  proof (cases "length xs < n")
    case True
    then have "vec_resize mem n x v = vec_fill (n - length xs) x v1" unfolding vec_resize_def Let_def v1_def [symmetric] by (simp add: sz)
    then show ?thesis using vec_fill_ok [OF v1(1), of "n - length xs" x] True v1(2) by (simp add: resized_def)
  next
    case False
    have "vec_is (v1\<lparr>vec_vals := take n (vec_vals v1) @ replicate (length xs - n) None @ drop (length xs) (vec_vals v1), vec_size := n\<rparr>) (take n xs)"
      using False bl len v1 by (intro vec_isI) (auto simp: nth_append vec_is_nth)
    moreover have "\<not> length (vec_vals v1) < length xs" using bl by simp
    ultimately show ?thesis using False unfolding vec_resize_def Let_def v1_def [symmetric]
      by (simp add: sz resized_def gives_Inr)
  qed
qed

lemma vec_push_back_ok:
  assumes "vec_is v xs" "fits mem (max (2 * length xs) 4)"
  shows "gives (vec_push_back mem x v) (xs @ [x])"
proof -
  define v1 where "v1 = (if vec_alloc v \<le> vec_size v then vec_realloc mem (vec_size v * 2 mod 2 ^ 32) v else v)"
  have m: "vec_size v * 2 mod 2 ^ 32 = 2 * length xs"
    using fits_small [OF assms(2)] assms(1) by (simp add: vec_is_size)
  have v1: "vec_is v1 xs" "length xs < vec_alloc v1"
    using vec_realloc_ok [OF assms(1) _ assms(2)] assms(1) m by (auto simp: v1_def vec_is_size)
  from vec_extend_ok [OF this, of x] show ?thesis
    unfolding vec_push_back_def Let_def v1_def [symmetric] by (auto simp: gives_def)
qed

lemma vec_pop_back_ok: "vec_is v xs \<Longrightarrow> xs \<noteq> [] \<Longrightarrow> gives (vec_pop_back v) (butlast xs)"
  using vec_is_block [of v xs]
  by (auto simp: vec_pop_back_def vec_put_def gives_Inr vec_is_size nth_butlast vec_is_nth intro!: vec_isI)
     (auto simp: vec_is_def)

lemma vec_shift_ok:
  "vec_is v xs \<Longrightarrow> idx \<le> i \<Longrightarrow> i < length xs \<Longrightarrow>
   gives (vec_shift i idx v) (take (Suc idx) xs @ take (i - idx) (drop idx xs) @ drop (Suc i) xs)"
proof (induction i idx v arbitrary: xs rule: vec_shift.induct)
  case (1 idx v)
  then show ?case by (cases xs) (auto simp: gives_Inr)
next
  case (2 i idx v)
  show ?case
  proof (cases "Suc i > idx")
    case True
    have g: "vec_get i v = Inr (xs ! i)" using 2 by (simp add: vec_get_ok)
    from vec_put_ok [OF 2(2,4), of "xs ! i"] obtain v' where v': "vec_put (Suc i) (Some (xs ! i)) v = Inr v'" "vec_is v' (xs[Suc i := xs ! i])"
      by (rule givesE)
    have "drop (Suc i) (xs[Suc i := xs ! i]) = xs ! i # drop (Suc (Suc i)) xs"
      using 2(4) by (simp add: Cons_nth_drop_Suc [symmetric])
    moreover have "take (Suc i - idx) (drop idx xs) = take (i - idx) (drop idx xs) @ [xs ! i]"
      using True 2(4) by (simp add: Suc_diff_le take_Suc_conv_app_nth)
    moreover have "take (i - idx) (drop idx (xs[Suc i := xs ! i])) = take (i - idx) (drop idx xs)"
      using True by (simp add: drop_update_swap)
    ultimately have l: "take (Suc idx) (xs[Suc i := xs ! i]) @ take (i - idx) (drop idx (xs[Suc i := xs ! i])) @ drop (Suc i) (xs[Suc i := xs ! i]) =
        take (Suc idx) xs @ take (Suc i - idx) (drop idx xs) @ drop (Suc (Suc i)) xs"
      using True by simp
    show ?thesis using 2(1) [OF True g v', unfolded l] True 2(4) by (simp add: g v'(1))
  next
    case False
    then show ?thesis using 2 by (simp add: gives_Inr id_take_nth_drop [symmetric])
  qed
qed

lemma vec_insert_ok:
  assumes "vec_is v xs" "idx \<le> length xs" "fits mem (max (length xs + 1) 4)"
  shows "gives (vec_insert mem idx x v) (take idx xs @ x # drop idx xs)"
proof -
  have s: "(vec_size v + 1) mod 2 ^ 32 = length xs + 1" using fits_small [OF assms(3)] assms(1) by (simp add: vec_is_size)
  from vec_resize_ok [OF assms(1,3), of OT_NULL] obtain v1 where
    v1: "vec_resize mem (length xs + 1) OT_NULL v = Inr v1" "vec_is v1 (xs @ [OT_NULL])"
    by (auto simp: gives_def resized_def)
  from vec_shift_ok [OF v1(2), of idx "length xs"] assms(2) obtain v2 where
    v2: "vec_shift (length xs) idx v1 = Inr v2" "vec_is v2 (take (Suc idx) (xs @ [OT_NULL]) @ drop idx xs)"
    by (auto simp: gives_def)
  have "(take (Suc idx) (xs @ [OT_NULL]) @ drop idx xs)[idx := x] = take idx xs @ x # drop idx xs"
    using assms(2) by (auto simp: list_update_append take_Suc_conv_app_nth nth_append)
  then show ?thesis using vec_put_ok [OF v2(2), of idx x] assms(2) v1 v2(1)
    unfolding vec_insert_def s by (simp add: vec_is_size)
qed

lemma vec_remove_ok:
  assumes "vec_is v xs" "idx < length xs"
  shows "gives (vec_remove idx v) (take idx xs @ drop (Suc idx) xs)"
proof -
  have b: "idx < length (vec_vals v)" "\<not> length (vec_vals v) < length xs" "length (vec_vals v) = vec_alloc v" "length xs \<le> vec_alloc v"
    using assms by (auto simp: vec_is_def)
  show ?thesis
  proof (cases "idx < length xs - 1")
    case True
    have "vec_is (v\<lparr>vec_vals := take idx ((vec_vals v)[idx := None]) @ take (length xs - idx - 1) (drop (idx + 1) ((vec_vals v)[idx := None])) @
        None # drop (length xs) ((vec_vals v)[idx := None]), vec_size := length xs - 1\<rparr>) (take idx xs @ drop (Suc idx) xs)"
      using True b assms by (intro vec_isI) (auto simp: nth_append vec_is_nth)
    then show ?thesis using b assms True by (simp add: vec_remove_def vec_put_def gives_Inr vec_is_size)
  next
    case False
    have "vec_is (v\<lparr>vec_vals := (vec_vals v)[idx := None], vec_size := length xs - 1\<rparr>) (take idx xs @ drop (Suc idx) xs)"
      using False b assms by (intro vec_isI) (auto simp: nth_append vec_is_nth)
    then show ?thesis using b assms False by (simp add: vec_remove_def vec_put_def gives_Inr vec_is_size)
  qed
qed

section \<open>Arrays as lists\<close>

lemma array_ShrinkIfNeeded_ok: "vec_is v xs \<Longrightarrow> fits mem (max (length xs) 4) \<Longrightarrow> vec_is (array_ShrinkIfNeeded mem v) xs"
  using vec_realloc_ok(1) [of v xs "length xs" mem] by (simp add: array_ShrinkIfNeeded_def vec_shrinktofit_def vec_is_size)

lemma array_Size_ok: "vec_is v xs \<Longrightarrow> length xs < 2 ^ 31 \<Longrightarrow> sint (array_Size v) = int (length xs)"
  by (simp add: array_Size_def vec_is_size sint_of_nat32)

definition index_in :: "32 word \<Rightarrow> nat \<Rightarrow> bool" where
  "index_in i n \<longleftrightarrow> 0 \<le> sint i \<and> sint i < int n"

lemma index_in_unat: "index_in i n \<Longrightarrow> unat i < n"
  by (auto simp: index_in_def sint_nonneg) (metis nat_less_iff unat_eq_nat_uint uint_ge_0)

lemma array_Create_ok: "fits mem (max (unat n) 4) \<Longrightarrow> gives (array_Create mem n) (replicate (unat n) OT_NULL)"
  using vec_resize_ok [OF vec_is_new, of mem "unat n" OT_NULL] by (simp add: array_Create_def resized_def)

lemma array_Get_ok:
  "vec_is v xs \<Longrightarrow> length xs < 2 ^ 31 \<Longrightarrow>
   array_Get wr i v = Inr (if index_in i (length xs) then Some (realval wr (xs ! unat i)) else None)"
  using index_in_unat [of i "length xs"] by (auto simp: array_Get_def array_Size_ok vec_get_ok index_in_def)

lemma array_Set_ok:
  assumes "vec_is v xs" "length xs < 2 ^ 31"
  shows "\<exists>v'. array_Set i x v = Inr (index_in i (length xs), v') \<and> vec_is v' (if index_in i (length xs) then xs[unat i := x] else xs)"
proof (cases "index_in i (length xs)")
  case True
  from vec_put_ok [OF assms(1) index_in_unat [OF this], of x] True show ?thesis
    using array_Size_ok [OF assms] by (auto simp: array_Set_def gives_def index_in_def)
next
  case False
  then have "\<not> (0 \<le> sint i \<and> sint i < sint (array_Size v))" using array_Size_ok [OF assms] by (simp add: index_in_def)
  then have "array_Set i x v = Inr (False, v)" unfolding array_Set_def by (simp only: if_False)
  then show ?thesis using False assms(1) by simp
qed

lemma array_Resize_ok:
  "vec_is v xs \<Longrightarrow> fits mem (max (unat n) 4) \<Longrightarrow> gives (array_Resize mem n x v) (resized (unat n) x xs)"
  unfolding array_Resize_def
  by (rule gives_andthen [OF vec_resize_ok]) (auto simp: gives_Inr resized_def intro!: array_ShrinkIfNeeded_ok elim: fits_le)

lemma array_Append_ok: "vec_is v xs \<Longrightarrow> fits mem (max (2 * length xs) 4) \<Longrightarrow> gives (array_Append mem x v) (xs @ [x])"
  by (simp add: array_Append_def vec_push_back_ok)

lemma array_Pop_ok: "vec_is v xs \<Longrightarrow> xs \<noteq> [] \<Longrightarrow> fits mem (max (length xs) 4) \<Longrightarrow> gives (array_Pop mem v) (butlast xs)"
  unfolding array_Pop_def
  by (rule gives_andthen [OF vec_pop_back_ok]) (auto simp: gives_Inr intro!: array_ShrinkIfNeeded_ok elim: fits_le)

lemma array_Extend_self:
  "vec_is v (xs @ take i xs) \<Longrightarrow> i + k = length xs \<Longrightarrow> fits mem (max (4 * length xs) 4) \<Longrightarrow>
   gives (array_Extend_loop mem None i k v) (xs @ xs)"
proof (induction k arbitrary: i v)
  case (Suc k)
  have i: "i < length xs" using Suc.prems(2) by simp
  have g: "vec_get i v = Inr (xs ! i)" using vec_get_ok [OF Suc.prems(1), of i] i by (force simp: nth_append)
  have "fits mem (max (2 * length (xs @ take i xs)) 4)" by (rule fits_le [OF Suc.prems(3)]) (use i in auto)
  from array_Append_ok [OF Suc.prems(1) this, of "xs ! i"] obtain v' where
    v': "array_Append mem (xs ! i) v = Inr v'" "vec_is v' (xs @ take (i + 1) xs)"
    using i by (auto simp: gives_def take_Suc_conv_app_nth)
  from Suc.IH [OF v'(2)] Suc.prems(2,3) show ?case by (simp add: g v'(1))
qed (simp add: gives_Inr)

lemma array_Extend_other:
  "vec_is v ys \<Longrightarrow> vec_is a xs \<Longrightarrow> i + k = length xs \<Longrightarrow> fits mem (max (2 * (length ys + k)) 4) \<Longrightarrow>
   gives (array_Extend_loop mem (Some a) i k v) (ys @ drop i xs)"
proof (induction k arbitrary: i v ys)
  case (Suc k)
  have i: "i < length xs" using Suc.prems(3) by simp
  have g: "vec_get i a = Inr (xs ! i)" using vec_get_ok [OF Suc.prems(2) i] .
  have "fits mem (max (2 * length ys) 4)" by (rule fits_le [OF Suc.prems(4)]) auto
  from array_Append_ok [OF Suc.prems(1) this, of "xs ! i"] obtain v' where
    v': "array_Append mem (xs ! i) v = Inr v'" "vec_is v' (ys @ [xs ! i])"
    by (auto simp: gives_def)
  from Suc.IH [OF v'(2) Suc.prems(2), of "i + 1"] Suc.prems(3,4) Cons_nth_drop_Suc [OF i] show ?case
    by (simp add: g v'(1))
qed (simp add: gives_Inr)

lemma vec_top_ok: "vec_is v xs \<Longrightarrow> xs \<noteq> [] \<Longrightarrow> vec_top v = Inr (last xs)"
  by (simp add: vec_top_def vec_is_size vec_get_ok last_conv_nth)

lemma reverse_step:
  assumes "vec_is v xs" "i < length xs" "j < length xs"
  shows "\<exists>v'. andthen (vec_get i v) (\<lambda>t. andthen (vec_get j v) (\<lambda>x. andthen (vec_put i (Some x) v)
      (\<lambda>v1. andthen (vec_put j (Some t) v1) f))) = f v' \<and> vec_is v' (xs[i := xs ! j, j := xs ! i])"
proof -
  from vec_put_ok [OF assms(1,2), of "xs ! j"] obtain v1 where v1: "vec_put i (Some (xs ! j)) v = Inr v1" "vec_is v1 (xs[i := xs ! j])"
    by (rule givesE)
  from vec_put_ok [OF v1(2), of j "xs ! i"] assms(3) obtain v2 where v2: "vec_put j (Some (xs ! i)) v1 = Inr v2" "vec_is v2 (xs[i := xs ! j, j := xs ! i])"
    by (auto simp: gives_def)
  show ?thesis using assms v1 v2 by (auto simp: vec_get_ok)
qed

lemma reverse_loop_ok:
  "vec_is v xs \<Longrightarrow> length xs = Suc sz \<Longrightarrow> length ys = Suc sz \<Longrightarrow> i + k = Suc sz div 2 \<Longrightarrow>
   (\<And>j. j \<le> sz \<Longrightarrow> xs ! j = (if j < i \<or> sz - i < j then ys ! (sz - j) else ys ! j)) \<Longrightarrow>
   gives (reverse_loop k i sz v) (rev ys)"
proof (induction k arbitrary: i v xs)
  case 0
  have m: "j \<le> sz \<Longrightarrow> \<not> (j < i \<or> sz - i < j) \<Longrightarrow> sz - j = j" for j using 0(4) by auto
  have "xs ! j = ys ! (sz - j)" if "j \<le> sz" for j
  proof (cases "j < i \<or> sz - i < j")
    case True
    then show ?thesis unfolding 0(5) [OF that] by (simp only: if_True)
  next
    case False
    then show ?thesis unfolding 0(5) [OF that] m [OF that False] by (simp only: if_False)
  qed
  then have "xs = rev ys" using 0(2,3) by (intro nth_equalityI) (auto simp: rev_nth)
  then show ?case using 0(1) by (simp add: gives_Inr)
next
  case (Suc k)
  have i: "i < sz - i" "i < length xs" "sz - i < length xs" using Suc.prems(2,4) by auto
  from reverse_step [OF Suc.prems(1) i(2,3), of "reverse_loop k (i + 1) sz"] obtain v' where
    v': "reverse_loop (Suc k) i sz v = reverse_loop k (i + 1) sz v'" "vec_is v' (xs[i := xs ! (sz - i), sz - i := xs ! i])"
    by auto
  have e: "xs ! i = ys ! i" "xs ! (sz - i) = ys ! (sz - i)" using Suc.prems(5) [of i] Suc.prems(5) [of "sz - i"] i by auto
  have "gives (reverse_loop k (i + 1) sz v') (rev ys)"
    by (rule Suc.IH [OF v'(2)]) (use Suc.prems(2-4) i e in \<open>auto simp: nth_list_update Suc.prems(5)\<close>)
  then show ?case by (simp only: v'(1))
qed

section \<open>Loops over arrays\<close>

lemma index_in_of_nat: "i < n \<Longrightarrow> n < 2 ^ 31 \<Longrightarrow> index_in (of_nat i) n"
  by (simp add: index_in_def sint_of_nat32)

lemma get_or_ok:
  assumes "vec_is v xs" "length xs < 2 ^ 31" "i < length xs"
  shows "get_or wr i t v = Inr (realval wr (xs ! i))"
  using array_Get_ok [OF assms(1,2), of wr "of_nat i"] index_in_of_nat [OF assms(3,2)] assms
  by (simp add: get_or_def unat_of_nat32)

lemma Set_of_nat_ok:
  assumes "vec_is v xs" "length xs < 2 ^ 31" "i < length xs"
  shows "\<exists>v'. array_Set (of_nat i) x v = Inr (True, v') \<and> vec_is v' (xs[i := x])"
  using array_Set_ok [OF assms(1,2), of "of_nat i" x] index_in_of_nat [OF assms(3,2)] assms
  by (simp add: unat_of_nat32)

lemma update_next: "length ys = c \<Longrightarrow> (ys @ replicate (Suc k) z)[c := x] = (ys @ [x]) @ replicate k z"
  by (simp add: list_update_append)

lemma slice_loop_ok:
  "vec_is v xs \<Longrightarrow> length xs < 2 ^ 31 \<Longrightarrow> i + k \<le> length xs \<Longrightarrow> length ys + k < 2 ^ 31 \<Longrightarrow>
   vec_is arr (ys @ replicate k OT_NULL) \<Longrightarrow>
   gives (slice_loop wr k i (length ys) t v arr) (ys @ map (realval wr) (take k (drop i xs)))"
proof (induction k arbitrary: i ys t arr)
  case (Suc k)
  have i: "i < length xs" using Suc.prems(3) by simp
  let ?y = "realval wr (xs ! i)"
  from Set_of_nat_ok [OF Suc.prems(5), of "length ys" ?y] Suc.prems(4) obtain arr' where
    a: "array_Set (of_nat (length ys)) ?y arr = Inr (True, arr')" "vec_is arr' ((ys @ [?y]) @ replicate k OT_NULL)"
    by (auto simp: update_next [OF refl, of ys k OT_NULL] simp del: replicate.simps)
  have "gives (slice_loop wr k (i + 1) (length (ys @ [?y])) ?y v arr') ((ys @ [?y]) @ map (realval wr) (take k (drop (i + 1) xs)))"
    by (rule Suc.IH [OF Suc.prems(1,2) _ _ a(2)]) (use Suc.prems(3,4) in auto)
  then show ?case using get_or_ok [OF Suc.prems(1,2) i, of wr t] a(1) Cons_nth_drop_Suc [OF i, symmetric] by simp
qed (simp add: gives_Inr)

text \<open>A slice within the array is the part of the list it names, with weak references resolved.\<close>

lemma array_slice_ok:
  assumes "vec_is v xs" "s \<le> e" "e \<le> length xs" "length xs < 2 ^ 31" "fits mem (max (e - s) 4)"
  shows "\<exists>w. array_slice f2i wr mem [OT_INTEGER (of_nat s), OT_INTEGER (of_nat e)] v = Inr (Some w) \<and>
    vec_is w (map (realval wr) (take (e - s) (drop s xs)))"
proof -
  have sz: "sint (of_nat s :: 32 word) = int s" "sint (of_nat e :: 32 word) = int e" "sint (array_Size v) = int (length xs)"
    using assms array_Size_ok [OF assms(1,4)] by (simp_all add: sint_of_nat32)
  have d: "(of_nat e - of_nat s :: 32 word) = of_nat (e - s)" using assms(2) by (simp add: of_nat_diff)
  have u: "unat (of_nat (e - s) :: 32 word) = e - s" by (rule unat_of_nat32) (use assms in simp)
  from array_Create_ok [of mem "of_nat (e - s)"] obtain arr where
    arr: "array_Create mem (of_nat (e - s)) = Inr arr" "vec_is arr ([] @ replicate (e - s) OT_NULL)"
    using assms(5) by (auto simp: gives_def u simp del: of_nat_diff)
  have "e - s < 2 ^ 31" using assms(3,4) by simp
  with slice_loop_ok [OF assms(1,4) _ _ arr(2), of s wr OT_NULL] assms(2,3) obtain w where
    "slice_loop wr (e - s) s 0 OT_NULL v arr = Inr w" "vec_is w (map (realval wr) (take (e - s) (drop s xs)))"
    by (auto simp: gives_def)
  then show ?thesis using assms(2,3) arr(1) by (simp add: array_slice_def get_slice_params_def sz d nat_diff_distrib del: of_nat_diff)
qed

text \<open>With a script function that leaves the array alone, \<open>map\<close> and \<open>filter\<close> are those of lists.\<close>

lemma map_array_loop_ok:
  "vec_is v xs \<Longrightarrow> length xs < 2 ^ 31 \<Longrightarrow> length ys + k = length xs \<Longrightarrow> (\<And>x w. call [x] w = (Some (f x), w)) \<Longrightarrow>
   vec_is d (ys @ replicate k OT_NULL) \<Longrightarrow>
   \<exists>d'. map_array_loop wr call k (length ys) t (Some d) v = Inr (True, Some d', v) \<and>
     vec_is d' (ys @ map (\<lambda>x. f (realval wr x)) (drop (length ys) xs))"
proof (induction k arbitrary: ys t d)
  case (Suc k)
  have i: "length ys < length xs" using Suc.prems(3) by simp
  let ?x = "realval wr (xs ! length ys)"
  from Set_of_nat_ok [OF Suc.prems(5), of "length ys" "f ?x"] Suc.prems(2,3) obtain d1 where
    d1: "array_Set (of_nat (length ys)) (f ?x) d = Inr (True, d1)" "vec_is d1 ((ys @ [f ?x]) @ replicate k OT_NULL)"
    by (auto simp: update_next [OF refl, of ys k OT_NULL] simp del: replicate.simps)
  from Suc.IH [OF Suc.prems(1,2) _ Suc.prems(4) d1(2), of ?x] Suc.prems(3) obtain d' where
    "map_array_loop wr call k (Suc (length ys)) ?x (Some d1) v = Inr (True, Some d', v)"
    "vec_is d' (ys @ f ?x # map (\<lambda>x. f (realval wr x)) (drop (Suc (length ys)) xs))" by auto
  then show ?case using get_or_ok [OF Suc.prems(1,2) i, of wr t] d1(1) Cons_nth_drop_Suc [OF i, symmetric] Suc.prems(4) by simp
qed simp

lemma array_map_ok:
  assumes "vec_is v xs" "fits mem (max (length xs) 4)" "\<And>x w. call [x] w = (Some (f x), w)"
  shows "\<exists>d. array_map wr mem call v = Inr (Some d, v) \<and> vec_is d (map (\<lambda>x. f (realval wr x)) xs)"
proof -
  have l: "length xs < 2 ^ 31" using fits_small [OF assms(2)] by simp
  have n: "unat (array_Size v) = length xs" "nat (sint (array_Size v)) = length xs"
    using l assms(1) by (simp_all add: array_Size_def vec_is_size unat_of_nat32 sint_of_nat32)
  from array_Create_ok [of mem "array_Size v"] assms(2) obtain d where
    d: "array_Create mem (array_Size v) = Inr d" "vec_is d ([] @ replicate (length xs) OT_NULL)" by (auto simp: gives_def n)
  from map_array_loop_ok [where call = call and f = f, OF assms(1) l _ assms(3) d(2), of wr OT_NULL] show ?thesis
    by (auto simp: array_map_def map_array_def d(1) n)
qed

lemma filter_loop_ok:
  "vec_is v xs \<Longrightarrow> fits mem (max (2 * length xs) 4) \<Longrightarrow> i + k = length xs \<Longrightarrow> (\<And>n x w. call [n, x] w = (Some (f x), w)) \<Longrightarrow>
   vec_is ret ys \<Longrightarrow> length ys \<le> i \<Longrightarrow>
   \<exists>r. filter_loop wr mem call k i t ret v = Inr (Some r, v) \<and>
     vec_is r (ys @ filter (\<lambda>x. \<not> IsFalse (f x)) (map (realval wr) (drop i xs)))"
proof (induction k arbitrary: i ys t ret)
  case (Suc k)
  have i: "i < length xs" and l: "length xs < 2 ^ 31" using Suc.prems(3) fits_small [OF Suc.prems(2)] by auto
  let ?x = "realval wr (xs ! i)"
  have "fits mem (max (2 * length ys) 4)" by (rule fits_le [OF Suc.prems(2)]) (use Suc.prems(6) i in auto)
  from array_Append_ok [OF Suc.prems(5) this, of ?x] obtain r where
    r: "(if IsFalse (f ?x) then Inr ret else array_Append mem ?x ret) = Inr r" "vec_is r (ys @ (if IsFalse (f ?x) then [] else [?x]))"
    using Suc.prems(5) by (cases "IsFalse (f ?x)") (auto simp: gives_def)
  have "length (ys @ (if IsFalse (f ?x) then [] else [?x])) \<le> i + 1" using Suc.prems(6) by simp
  from Suc.IH [OF Suc.prems(1,2) _ Suc.prems(4) r(2) this, of ?x] Suc.prems(3) obtain r' where
    "filter_loop wr mem call k (Suc i) ?x r v = Inr (Some r', v)"
    "vec_is r' ((ys @ (if IsFalse (f ?x) then [] else [?x])) @ filter (\<lambda>x. \<not> IsFalse (f x)) (map (realval wr) (drop (Suc i) xs)))"
    by auto
  then show ?case using get_or_ok [OF Suc.prems(1) l i, of wr t] r(1) Cons_nth_drop_Suc [OF i, symmetric] Suc.prems(4)
    by (cases "IsFalse (f ?x)") simp_all
qed simp

section \<open>Sequences of array operations\<close>

datatype array_op =
    AAppend sqobject
  | AExtendSelf
  | APop
  | AInsert sqobject sqobject
  | ARemove sqobject
  | AResize sqobject "sqobject option"
  | ASet "32 word" sqobject
  | AReverse
  | AClear

definition of_api :: "(bool \<times> vec option) outcome \<Rightarrow> ((bool \<times> sqobject option) \<times> vec) outcome" where
  "of_api r = andthen r (\<lambda>(ok, w). andthen (of_opt NullDeref w) (\<lambda>v'. Inr ((ok, None), v')))"

fun array_run :: "(32 word \<Rightarrow> 32 word) \<Rightarrow> (32 word \<Rightarrow> sqobject) \<Rightarrow> nat \<Rightarrow> array_op \<Rightarrow> vec \<Rightarrow> ((bool \<times> sqobject option) \<times> vec) outcome" where
  "array_run f2i wr mem (AAppend x) v = of_api (array_append mem x v)"
| "array_run f2i wr mem AExtendSelf v = andthen (array_extend mem None v) (\<lambda>v'. Inr ((True, None), v'))"
| "array_run f2i wr mem APop v = andthen (array_pop mem v) (\<lambda>(ok, x, w). andthen (of_opt NullDeref w) (\<lambda>v'. Inr ((ok, x), v')))"
| "array_run f2i wr mem (AInsert i x) v = andthen (array_insert f2i mem i x v) (\<lambda>(ok, v'). Inr ((ok, None), v'))"
| "array_run f2i wr mem (ARemove i) v = andthen (array_remove f2i wr mem i v) (\<lambda>(r, v'). Inr ((r \<noteq> None, r), v'))"
| "array_run f2i wr mem (AResize n x) v = andthen (array_resize f2i mem n x v) (\<lambda>(ok, v'). Inr ((ok, None), v'))"
| "array_run f2i wr mem (ASet i x) v = andthen (array_Set i x v) (\<lambda>(ok, v'). Inr ((ok, None), v'))"
| "array_run f2i wr mem AReverse v = of_api (array_reverse v)"
| "array_run f2i wr mem AClear v = andthen (array_clear mem v) (\<lambda>v'. Inr ((True, None), v'))"

text \<open>What the operations mean on a list: an index or a size out of range, or of another type, changes nothing.\<close>

fun array_spec :: "(32 word \<Rightarrow> 32 word) \<Rightarrow> (32 word \<Rightarrow> sqobject) \<Rightarrow> array_op \<Rightarrow> sqobject list \<Rightarrow> (bool \<times> sqobject option) \<times> sqobject list" where
  "array_spec f2i wr (AAppend x) xs = ((True, None), xs @ [x])"
| "array_spec f2i wr AExtendSelf xs = ((True, None), xs @ xs)"
| "array_spec f2i wr APop xs = (if xs = [] then ((False, None), []) else ((True, Some (last xs)), butlast xs))"
| "array_spec f2i wr (AInsert i x) xs =
     (let n = sint (tointeger f2i i) in
      if 0 \<le> n \<and> n \<le> int (length xs) then ((True, None), take (nat n) xs @ x # drop (nat n) xs) else ((False, None), xs))"
| "array_spec f2i wr (ARemove i) xs =
     (let n = sint (tointeger f2i i) in
      if sq_isnumeric i \<and> 0 \<le> n \<and> n < int (length xs)
      then ((True, Some (realval wr (xs ! nat n))), take (nat n) xs @ drop (Suc (nat n)) xs) else ((False, None), xs))"
| "array_spec f2i wr (AResize m x) xs =
     (let n = sint (tointeger f2i m) in
      if sq_isnumeric m \<and> 0 \<le> n
      then ((True, None), take (nat n) xs @ replicate (nat n - length xs) (case x of None \<Rightarrow> OT_NULL | Some y \<Rightarrow> y)) else ((False, None), xs))"
| "array_spec f2i wr (ASet i x) xs =
     (if 0 \<le> sint i \<and> sint i < int (length xs) then ((True, None), xs[nat (sint i) := x]) else ((False, None), xs))"
| "array_spec f2i wr AReverse xs = ((True, None), rev xs)"
| "array_spec f2i wr AClear xs = ((True, None), [])"

lemma unat_sint: "0 \<le> sint (w :: 32 word) \<Longrightarrow> unat w = nat (sint w)"
  using sint_nonneg [of w] by simp

text \<open>The longest list a history may reach, for blocks of at most \<open>mem\<close> bytes; appending doubles a full block.\<close>

definition within_mem :: "nat \<Rightarrow> sqobject list \<Rightarrow> bool" where
  "within_mem mem xs \<longleftrightarrow> fits mem (max (2 * length xs) 4)"

lemma within_mem_fits: "within_mem mem xs \<Longrightarrow> n \<le> max (2 * length xs) 4 \<Longrightarrow> fits mem n"
  unfolding within_mem_def by (rule fits_le)

lemma within_mem_small: "within_mem mem xs \<Longrightarrow> length xs < 2 ^ 31"
  using fits_small [of mem "max (2 * length xs) 4"] by (simp add: within_mem_def)

lemma gives_map: "gives r xs \<Longrightarrow> \<exists>v. andthen r (\<lambda>v. Inr (c, v)) = Inr (c, v) \<and> vec_is v xs"
  by (auto simp: gives_def)

lemma append_simulates:
  assumes "vec_is v xs" "within_mem mem xs"
  shows "\<exists>v'. array_run f2i wr mem (AAppend x) v = Inr ((True, None), v') \<and> vec_is v' (xs @ [x])"
proof -
  have "gives (array_Append mem x v) (xs @ [x])" by (rule array_Append_ok [OF assms(1) within_mem_fits [OF assms(2)]]) simp
  then show ?thesis by (auto simp: gives_def of_api_def array_append_def sq_arrayappend_def with_array_def)
qed

lemma extend_simulates:
  assumes "vec_is v xs" "within_mem mem (xs @ xs)"
  shows "\<exists>v'. array_run f2i wr mem AExtendSelf v = Inr ((True, None), v') \<and> vec_is v' (xs @ xs)"
proof -
  have "gives (array_Extend mem None v) (xs @ xs)"
    using array_Extend_self [of v xs 0 "length xs" mem] assms within_mem_fits [OF assms(2)]
    by (simp add: array_Extend_def vec_is_size)
  then show ?thesis by (auto simp: gives_def array_extend_def)
qed

lemma pop_simulates:
  assumes "vec_is v xs" "within_mem mem xs"
  shows "\<exists>v'. array_run f2i wr mem APop v = Inr (fst (array_spec f2i wr APop xs), v') \<and> vec_is v' (snd (array_spec f2i wr APop xs))"
proof (cases "xs = []")
  case True
  then show ?thesis using assms array_Size_ok [OF assms(1)] by (simp add: array_pop_def sq_arraypop_def)
next
  case False
  have "gives (array_Pop mem v) (butlast xs)" by (rule array_Pop_ok [OF assms(1) False within_mem_fits [OF assms(2)]]) simp
  then show ?thesis using False array_Size_ok [OF assms(1) within_mem_small [OF assms(2)]] vec_top_ok [OF assms(1) False]
    by (auto simp: gives_def array_pop_def sq_arraypop_def)
qed

lemma insert_simulates:
  assumes "vec_is v xs" "within_mem mem xs"
  shows "\<exists>v'. array_run f2i wr mem (AInsert i x) v = Inr (fst (array_spec f2i wr (AInsert i x) xs), v') \<and>
    vec_is v' (snd (array_spec f2i wr (AInsert i x) xs))"
proof -
  define n where "n = tointeger f2i i"
  note sz = array_Size_ok [OF assms(1) within_mem_small [OF assms(2)]]
  show ?thesis
  proof (cases "0 \<le> sint n \<and> sint n \<le> int (length xs)")
    case True
    have u: "unat n \<le> length xs" "unat n = nat (sint n)" using True unat_sint [of n] by auto
    have "gives (vec_insert mem (unat n) x v) (take (unat n) xs @ x # drop (unat n) xs)"
      by (rule vec_insert_ok [OF assms(1) u(1) within_mem_fits [OF assms(2)]]) (cases xs, auto)
    then show ?thesis using True sz unfolding array_run.simps array_spec.simps array_insert_def array_Insert_def Let_def n_def [symmetric]
      by (auto simp: gives_def u(2))
  next
    case False
    then show ?thesis using sz assms(1) unfolding array_run.simps array_spec.simps array_insert_def array_Insert_def Let_def n_def [symmetric]
      by (auto simp: not_le)
  qed
qed

lemma remove_simulates:
  assumes "vec_is v xs" "within_mem mem xs"
  shows "\<exists>v'. array_run f2i wr mem (ARemove i) v = Inr (fst (array_spec f2i wr (ARemove i) xs), v') \<and>
    vec_is v' (snd (array_spec f2i wr (ARemove i) xs))"
proof -
  define n where "n = tointeger f2i i"
  note sm = within_mem_small [OF assms(2)]
  note sz = array_Size_ok [OF assms(1) sm] and get = array_Get_ok [OF assms(1) sm, of wr n]
  show ?thesis
  proof (cases "sq_isnumeric i \<and> index_in n (length xs)")
    case True
    have u: "unat n < length xs" "unat n = nat (sint n)" "0 \<le> sint n" "sint n < int (length xs)"
      using True index_in_unat [of n] unat_sint [of n] by (auto simp: index_in_def)
    from vec_remove_ok [OF assms(1) u(1)] obtain w where w: "vec_remove (unat n) v = Inr w" "vec_is w (take (unat n) xs @ drop (Suc (unat n)) xs)"
      by (rule givesE)
    have "vec_is (array_ShrinkIfNeeded mem w) (take (unat n) xs @ drop (Suc (unat n)) xs)"
      by (rule array_ShrinkIfNeeded_ok [OF w(2) within_mem_fits [OF assms(2)]]) (use u(1) in auto)
    then show ?thesis using True u sz get w(1)
      unfolding array_run.simps array_spec.simps array_remove_def array_Remove_def Let_def n_def [symmetric] by simp
  next
    case False
    then show ?thesis using get assms(1)
      unfolding array_run.simps array_spec.simps array_remove_def Let_def n_def [symmetric] by (auto simp: index_in_def)
  qed
qed

lemma resize_simulates:
  assumes "vec_is v xs" "within_mem mem (snd (array_spec f2i wr (AResize m x) xs))"
  shows "\<exists>v'. array_run f2i wr mem (AResize m x) v = Inr (fst (array_spec f2i wr (AResize m x) xs), v') \<and>
    vec_is v' (snd (array_spec f2i wr (AResize m x) xs))"
proof (cases "sq_isnumeric m \<and> 0 \<le> sint (tointeger f2i m)")
  case True
  define n where "n = tointeger f2i m"
  define y where "y = (case x of None \<Rightarrow> OT_NULL | Some y \<Rightarrow> y)"
  have u: "unat n = nat (sint n)" using True unat_sint [of n] by (simp add: n_def)
  have sp: "array_spec f2i wr (AResize m x) xs = ((True, None), resized (unat n) y xs)"
    using True u by (simp add: resized_def Let_def y_def n_def)
  have "max (unat n) 4 \<le> max (2 * length (resized (unat n) y xs)) 4" by (simp add: resized_def)
  from array_Resize_ok [OF assms(1) within_mem_fits [OF assms(2) [unfolded sp snd_conv] this], of y]
  show ?thesis using True unfolding sp by (auto simp: gives_def array_resize_def y_def n_def)
next
  case False
  then show ?thesis using assms(1) by (auto simp: array_resize_def Let_def)
qed

lemma set_simulates:
  assumes "vec_is v xs" "within_mem mem xs"
  shows "\<exists>v'. array_run f2i wr mem (ASet i x) v = Inr (fst (array_spec f2i wr (ASet i x) xs), v') \<and>
    vec_is v' (snd (array_spec f2i wr (ASet i x) xs))"
  using array_Set_ok [OF assms(1) within_mem_small [OF assms(2)], of i x] unat_sint [of i]
  by (cases "index_in i (length xs)") (auto simp: index_in_def)

lemma reverse_simulates:
  assumes "vec_is v xs" "within_mem mem xs"
  shows "\<exists>v'. array_run f2i wr mem AReverse v = Inr ((True, None), v') \<and> vec_is v' (rev xs)"
proof (cases "xs = []")
  case True
  then show ?thesis using assms(1) array_Size_ok [OF assms(1)]
    by (simp add: of_api_def array_reverse_def sq_arrayreverse_def with_array_def)
next
  case False
  then obtain sz where l: "length xs = Suc sz" by (cases xs) auto
  have "gives (reverse_loop (Suc sz div 2) 0 sz v) (rev xs)"
    by (rule reverse_loop_ok [OF assms(1) l l]) auto
  then obtain v' where v': "reverse_loop (Suc sz div 2) 0 sz v = Inr v'" "vec_is v' (rev xs)" by (rule givesE)
  have "nat (sint (array_Size v)) = Suc sz" "0 < sint (array_Size v)"
    using array_Size_ok [OF assms(1) within_mem_small [OF assms(2)]] l by auto
  then show ?thesis using v' by (simp add: of_api_def array_reverse_def sq_arrayreverse_def with_array_def)
qed

lemma clear_simulates:
  assumes "vec_is v xs" "within_mem mem xs"
  shows "\<exists>v'. array_run f2i wr mem AClear v = Inr ((True, None), v') \<and> vec_is v' []"
proof -
  have "fits mem (max (unat (0 :: 32 word)) 4)" by (rule within_mem_fits [OF assms(2)]) simp
  from array_Resize_ok [OF assms(1) this, of OT_NULL] show ?thesis
    by (auto simp: gives_def array_clear_def resized_def)
qed

interpretation array_lists: simulation vec_is "array_run f2i wr mem" "array_spec f2i wr" "within_mem mem"
  for f2i :: "32 word \<Rightarrow> 32 word" and wr :: "32 word \<Rightarrow> sqobject" and mem :: nat
proof
  fix v xs p
  assume h: "vec_is v xs" "within_mem mem xs" "within_mem mem (snd (array_spec f2i wr p xs))"
  show "\<exists>v'. array_run f2i wr mem p v = Inr (fst (array_spec f2i wr p xs), v') \<and> vec_is v' (snd (array_spec f2i wr p xs))"
  proof (cases p)
    case (AAppend x)
    then show ?thesis using append_simulates [OF h(1,2)] by simp
  next
    case AExtendSelf
    then show ?thesis using extend_simulates [OF h(1)] h(3) by simp
  next
    case APop
    then show ?thesis using pop_simulates [OF h(1,2)] by simp
  next
    case (AInsert i x)
    then show ?thesis using insert_simulates [OF h(1,2)] by simp
  next
    case (ARemove i)
    then show ?thesis using remove_simulates [OF h(1,2)] by simp
  next
    case (AResize m x)
    then show ?thesis using resize_simulates [OF h(1)] h(3) by simp
  next
    case (ASet i x)
    then show ?thesis using set_simulates [OF h(1,2)] by simp
  next
    case AReverse
    then show ?thesis using reverse_simulates [OF h(1,2)] by simp
  next
    case AClear
    then show ?thesis using clear_simulates [OF h(1,2)] by simp
  qed
qed

text \<open>
  C6. The array functions of scripts implement lists. Any sequence of append, extend by itself, pop,
  insert, remove, resize, element assignment, reverse and clear on a new array succeeds and fails
  exactly where the list operations do, returns the values the list operations return, and ends with
  a block that holds the final list, without ever reading or writing outside the block. The only
  condition is that twice the longest list fits the largest block the allocator provides, and an
  index out of range changes nothing.
\<close>

theorem arrays_refine_lists:
  assumes "all_within (\<lambda>xs. max (2 * length xs) 4 * 8 \<le> mem) (array_spec f2i wr) ops []" "mem < 2 ^ 32"
  shows "\<exists>v. run_all (array_run f2i wr mem) ops vec_new = Inr (fst (spec_all (array_spec f2i wr) ops []), v) \<and>
    vec_size v = length (snd (spec_all (array_spec f2i wr) ops [])) \<and>
    (\<forall>i < vec_size v. vec_get i v = Inr (snd (spec_all (array_spec f2i wr) ops []) ! i))"
proof -
  have "within_mem mem = (\<lambda>xs. max (2 * length xs) 4 * 8 \<le> mem)"
    using assms(2) by (auto simp: within_mem_def fits_def)
  then have "all_within (within_mem mem) (array_spec f2i wr) ops []" using assms(1) by (simp only:)
  from array_lists.run_all_simulates [OF vec_is_new this] show ?thesis
    by (auto simp: vec_is_size vec_get_ok)
qed

theorem arrays_refine_lists_witness:
  "\<exists>v. run_all (array_run id (\<lambda>_. OT_NULL) 4096) [AAppend (OT_INTEGER 1), AExtendSelf, AInsert (OT_INTEGER 1) (OT_BOOL True), AReverse, APop, ARemove (OT_INTEGER 7)] vec_new =
     Inr ([(True, None), (True, None), (True, None), (True, None), (True, Some (OT_INTEGER 1)), (False, None)], v) \<and>
     vec_size v = 2 \<and> vec_get 0 v = Inr (OT_INTEGER 1) \<and> vec_get 1 v = Inr (OT_BOOL True)"
proof -
  let ?ops = "[AAppend (OT_INTEGER 1), AExtendSelf, AInsert (OT_INTEGER 1) (OT_BOOL True), AReverse, APop, ARemove (OT_INTEGER 7)]"
  have sp: "spec_all (array_spec id (\<lambda>_. OT_NULL)) ?ops [] =
      ([(True, None), (True, None), (True, None), (True, None), (True, Some (OT_INTEGER 1)), (False, None)], [OT_INTEGER 1, OT_BOOL True])"
    by simp
  have "all_within (\<lambda>xs. max (2 * length xs) 4 * 8 \<le> 4096) (array_spec id (\<lambda>_. OT_NULL)) ?ops []" by simp
  from arrays_refine_lists [OF this] obtain v where
    v: "run_all (array_run id (\<lambda>_. OT_NULL) 4096) ?ops vec_new = Inr (fst (spec_all (array_spec id (\<lambda>_. OT_NULL)) ?ops []), v)"
      "vec_size v = length (snd (spec_all (array_spec id (\<lambda>_. OT_NULL)) ?ops []))"
      "\<forall>i < vec_size v. vec_get i v = Inr (snd (spec_all (array_spec id (\<lambda>_. OT_NULL)) ?ops []) ! i)"
    by auto
  have "vec_size v = 2" using v(2) unfolding sp by simp
  then show ?thesis using v(1) v(3) [rule_format, of 0] v(3) [rule_format, of 1] unfolding sp by auto
qed


end
