(* ===== verification/Blob.thy ===== *)
theory Blob
  imports SqObject
begin

text \<open>
  Blobs (\<open>utility/sqstdblobimpl.h\<close>, \<open>utility/sqstdblob.cpp\<close>): a growing block of bytes with a position, and
  the functions scripts have on it. Sizes and positions are signed 32-bit integers, kept as \<open>int\<close>
  with the wrap-around written out (\<open>swrap\<close>). \<open>mem\<close> is the largest block the allocator can provide. The
  conversions between integers and floats (\<open>f2i\<close>, \<open>i2f\<close>) are parameters.
\<close>

unbundle bit_operations_syntax

section \<open>The block of bytes\<close>

type_synonym byte = "8 word"

definition swrap :: "int \<Rightarrow> int" where
  "swrap x = sint (word_of_int x :: 32 word)"

record blob =
  b_size :: int
  b_alloc :: int
  b_ptr :: int
  b_buf :: "byte list"

text \<open>A new block is filled with zeros; filling one that could not be allocated faults.\<close>

definition zero_block :: "nat \<Rightarrow> int \<Rightarrow> byte list outcome" where
  "zero_block mem n = (if n < 0 \<or> int mem < n then Inl NullDeref else Inr (replicate (nat n) 0))"

definition SQBlob :: "nat \<Rightarrow> int \<Rightarrow> blob outcome" where
  "SQBlob mem sz = andthen (zero_block mem sz) (\<lambda>buf. Inr \<lparr>b_size = sz, b_alloc = sz, b_ptr = 0, b_buf = buf\<rparr>)"

text \<open>\<open>memcpy\<close> into and out of a block; a negative length is a huge one.\<close>

definition copy_in :: "int \<Rightarrow> byte list \<Rightarrow> byte list \<Rightarrow> byte list outcome" where
  "copy_in p data buf =
     (if data = [] then Inr buf
      else if p < 0 \<or> int (length buf) < p + int (length data) then Inl OutOfBounds
      else Inr (take (nat p) buf @ data @ drop (nat p + length data) buf))"

definition copy_out :: "int \<Rightarrow> int \<Rightarrow> byte list \<Rightarrow> byte list outcome" where
  "copy_out p n buf =
     (if n = 0 then Inr []
      else if n < 0 \<or> p < 0 \<or> int (length buf) < p + n then Inl OutOfBounds
      else Inr (take (nat n) (drop (nat p) buf)))"

definition CanAdvance :: "int \<Rightarrow> blob \<Rightarrow> bool" where
  "CanAdvance n b \<longleftrightarrow> \<not> swrap (b_ptr b + n) > b_size b"

definition blob_Resize :: "nat \<Rightarrow> int \<Rightarrow> blob \<Rightarrow> blob outcome" where
  "blob_Resize mem n b =
     (if n \<noteq> b_alloc b then
        andthen (zero_block mem n) (\<lambda>newbuf.
        andthen (copy_out 0 (if b_size b > n then n else b_size b) (b_buf b)) (\<lambda>old.
        andthen (copy_in 0 old newbuf) (\<lambda>buf.
          Inr \<lparr>b_size = (if b_size b > n then n else b_size b), b_alloc = n,
               b_ptr = (if b_ptr b > n then n else b_ptr b), b_buf = buf\<rparr>)))
      else Inr b)"

definition GrowBufOf :: "nat \<Rightarrow> int \<Rightarrow> blob \<Rightarrow> blob outcome" where
  "GrowBufOf mem n b =
     andthen (if swrap (b_size b + n) > b_alloc b then
                if swrap (b_size b + n) > swrap (b_size b * 2) then blob_Resize mem (swrap (b_size b + n)) b
                else blob_Resize mem (swrap (b_size b * 2)) b
              else Inr b)
       (\<lambda>b'. Inr (b'\<lparr>b_size := swrap (b_size b' + n)\<rparr>))"

text \<open>\<open>Write\<close> gives the number of bytes it has written, \<open>Read\<close> the bytes it has read.\<close>

definition blob_Write :: "nat \<Rightarrow> byte list \<Rightarrow> blob \<Rightarrow> (int \<times> blob) outcome" where
  "blob_Write mem data b =
     (let sz = int (length data) in
      andthen (if CanAdvance sz b then Inr b else GrowBufOf mem (swrap (b_ptr b + sz - b_size b)) b) (\<lambda>b1.
      andthen (copy_in (b_ptr b1) data (b_buf b1)) (\<lambda>buf.
        Inr (sz, b1\<lparr>b_buf := buf, b_ptr := swrap (b_ptr b1 + sz)\<rparr>))))"

definition blob_Read :: "int \<Rightarrow> blob \<Rightarrow> (int \<times> byte list \<times> blob) outcome" where
  "blob_Read sz b =
     (if \<not> CanAdvance sz b \<and> \<not> b_size b - b_ptr b > 0 then Inr (0, [], b)
      else let n = (if CanAdvance sz b then sz else b_size b - b_ptr b) in
        andthen (copy_out (b_ptr b) n (b_buf b)) (\<lambda>data. Inr (n, data, b\<lparr>b_ptr := swrap (b_ptr b + n)\<rparr>)))"

datatype seek_origin = SQ_SEEK_CUR | SQ_SEEK_END | SQ_SEEK_SET

definition blob_Seek :: "int \<Rightarrow> seek_origin \<Rightarrow> blob \<Rightarrow> int \<times> blob" where
  "blob_Seek ofs origin b =
     (case origin of
        SQ_SEEK_SET \<Rightarrow> if ofs > b_size b \<or> ofs < 0 then (- 1, b) else (0, b\<lparr>b_ptr := ofs\<rparr>)
      | SQ_SEEK_CUR \<Rightarrow>
          if swrap (b_ptr b + ofs) > b_size b \<or> swrap (b_ptr b + ofs) < 0 then (- 1, b)
          else (0, b\<lparr>b_ptr := swrap (b_ptr b + ofs)\<rparr>)
      | SQ_SEEK_END \<Rightarrow>
          if swrap (b_size b + ofs) > b_size b \<or> swrap (b_size b + ofs) < 0 then (- 1, b)
          else (0, b\<lparr>b_ptr := swrap (b_size b + ofs)\<rparr>))"

definition blob_EOS :: "blob \<Rightarrow> bool" where
  "blob_EOS b \<longleftrightarrow> b_ptr b = b_size b"

section \<open>Byte order\<close>

text \<open>Bytes of a word in memory, the lowest first.\<close>

definition le_bytes :: "nat \<Rightarrow> 'a :: len word \<Rightarrow> byte list" where
  "le_bytes n w = map (\<lambda>i. ucast (drop_bit (8 * i) w)) [0..<n]"

primrec le_word :: "byte list \<Rightarrow> 'a :: len word" where
  "le_word [] = 0"
| "le_word (b # bs) = ucast b OR push_bit 8 (le_word bs)"

definition swap_dword :: "32 word \<Rightarrow> 32 word" where
  "swap_dword n = drop_bit 24 (n AND 0xFF000000) OR drop_bit 8 (n AND 0x00FF0000) OR
     push_bit 8 (n AND 0x0000FF00) OR push_bit 24 (n AND 0x000000FF)"

definition swap_word :: "16 word \<Rightarrow> 16 word" where
  "swap_word n = drop_bit 8 n AND 0x00FF OR push_bit 8 n AND 0xFF00"

primrec swap4_loop :: "nat \<Rightarrow> nat \<Rightarrow> byte list \<Rightarrow> byte list outcome" where
  "swap4_loop 0 i buf = Inr buf"
| "swap4_loop (Suc k) i buf =
     andthen (copy_out (4 * int i) 4 buf) (\<lambda>bs.
     andthen (copy_in (4 * int i) (le_bytes 4 (swap_dword (le_word bs))) buf) (swap4_loop k (i + 1)))"

primrec swap2_loop :: "nat \<Rightarrow> nat \<Rightarrow> byte list \<Rightarrow> byte list outcome" where
  "swap2_loop 0 i buf = Inr buf"
| "swap2_loop (Suc k) i buf =
     andthen (copy_out (2 * int i) 2 buf) (\<lambda>bs.
     andthen (copy_in (2 * int i) (le_bytes 2 (swap_word (le_word bs))) buf) (swap2_loop k (i + 1)))"

section \<open>Blob functions of scripts\<close>

text \<open>What a native function leaves: an error, no value, or a value.\<close>

datatype reply = Throw | NoValue | Reply sqobject

text \<open>
  The parameter masks make the numeric arguments numbers. The receiver is a valid blob; without one
  every function throws.
\<close>

definition as_int :: "(32 word \<Rightarrow> 32 word) \<Rightarrow> sqobject \<Rightarrow> int" where
  "as_int f2i x = (case sq_getinteger f2i x of None \<Rightarrow> 0 | Some w \<Rightarrow> sint w)"

fun sq_getfloat :: "(32 word \<Rightarrow> 32 word) \<Rightarrow> sqobject \<Rightarrow> (32 word) option" where
  "sq_getfloat i2f (OT_INTEGER i) = Some (i2f i)"
| "sq_getfloat i2f (OT_FLOAT x) = Some x"
| "sq_getfloat i2f _ = None"

definition u_blob_constructor :: "(32 word \<Rightarrow> 32 word) \<Rightarrow> nat \<Rightarrow> sqobject option \<Rightarrow> blob option outcome" where
  "u_blob_constructor f2i mem arg =
     (let sz = (case arg of None \<Rightarrow> 0 | Some x \<Rightarrow> as_int f2i x) in
      if sz < 0 then Inr None else andthen (SQBlob mem sz) (\<lambda>b. Inr (Some b)))"

definition u_blob_resize :: "(32 word \<Rightarrow> 32 word) \<Rightarrow> nat \<Rightarrow> sqobject \<Rightarrow> blob \<Rightarrow> (reply \<times> blob) outcome" where
  "u_blob_resize f2i mem arg b = andthen (blob_Resize mem (as_int f2i arg) b) (\<lambda>b'. Inr (NoValue, b'))"

definition u_blob_swap4 :: "blob \<Rightarrow> (reply \<times> blob) outcome" where
  "u_blob_swap4 b = andthen (swap4_loop (nat (b_size b) div 4) 0 (b_buf b)) (\<lambda>buf. Inr (NoValue, b\<lparr>b_buf := buf\<rparr>))"

definition u_blob_swap2 :: "blob \<Rightarrow> (reply \<times> blob) outcome" where
  "u_blob_swap2 b = andthen (swap2_loop (nat (b_size b) div 2) 0 (b_buf b)) (\<lambda>buf. Inr (NoValue, b\<lparr>b_buf := buf\<rparr>))"

definition u_blob__set :: "(32 word \<Rightarrow> 32 word) \<Rightarrow> sqobject \<Rightarrow> sqobject \<Rightarrow> blob \<Rightarrow> (reply \<times> blob) outcome" where
  "u_blob__set f2i i x b =
     (let idx = as_int f2i i in
      if idx < 0 \<or> idx \<ge> b_size b then Inr (Throw, b)
      else andthen (copy_in idx [word_of_int (as_int f2i x)] (b_buf b)) (\<lambda>buf. Inr (Reply x, b\<lparr>b_buf := buf\<rparr>)))"

definition u_blob__get :: "(32 word \<Rightarrow> 32 word) \<Rightarrow> sqobject \<Rightarrow> blob \<Rightarrow> reply outcome" where
  "u_blob__get f2i i b =
     (if \<not> sq_isnumeric i then Inr Throw
      else let idx = as_int f2i i in
        if idx < 0 \<or> idx \<ge> b_size b then Inr Throw
        else andthen (copy_out idx 1 (b_buf b)) (\<lambda>bs. Inr (Reply (OT_INTEGER (le_word bs)))))"

definition u_blob__nexti :: "(32 word \<Rightarrow> 32 word) \<Rightarrow> sqobject \<Rightarrow> blob \<Rightarrow> reply" where
  "u_blob__nexti f2i i b =
     (if i = OT_NULL then Reply (OT_INTEGER 0)
      else case sq_getinteger f2i i of
        None \<Rightarrow> Throw
      | Some idx \<Rightarrow> if sint (idx + 1) < b_size b then Reply (OT_INTEGER (idx + 1)) else Reply OT_NULL)"

definition u_blob__cloned :: "nat \<Rightarrow> blob \<Rightarrow> blob outcome" where
  "u_blob__cloned mem other =
     andthen (SQBlob mem (b_size other)) (\<lambda>b.
     andthen (copy_out 0 (b_size b) (b_buf other)) (\<lambda>bs.
     andthen (copy_in 0 bs (b_buf b)) (\<lambda>buf. Inr (b\<lparr>b_buf := buf\<rparr>))))"

text \<open>\<open>sqstd_createblob\<close> runs the constructor; without the class it gives no block.\<close>

definition sqstd_createblob :: "nat \<Rightarrow> bool \<Rightarrow> int \<Rightarrow> blob option outcome" where
  "sqstd_createblob mem registered sz =
     (if registered then u_blob_constructor id mem (Some (OT_INTEGER (word_of_int sz))) else Inr None)"

section \<open>Conversions of numbers\<close>

definition g_blob_casti2f :: "(32 word \<Rightarrow> 32 word) \<Rightarrow> sqobject \<Rightarrow> reply" where
  "g_blob_casti2f f2i x = Reply (OT_FLOAT (word_of_int (as_int f2i x)))"

definition g_blob_castf2i :: "(32 word \<Rightarrow> 32 word) \<Rightarrow> sqobject \<Rightarrow> reply" where
  "g_blob_castf2i i2f x = (case sq_getfloat i2f x of None \<Rightarrow> Throw | Some f \<Rightarrow> Reply (OT_INTEGER f))"

definition g_blob_swap2 :: "(32 word \<Rightarrow> 32 word) \<Rightarrow> sqobject \<Rightarrow> reply" where
  "g_blob_swap2 f2i x =
     (let s = scast (word_of_int (as_int f2i x) :: 16 word) :: 32 word in
      Reply (OT_INTEGER (push_bit 8 s OR (signed_drop_bit 8 s AND 0x00FF))))"

definition g_blob_swap4 :: "(32 word \<Rightarrow> 32 word) \<Rightarrow> sqobject \<Rightarrow> reply" where
  "g_blob_swap4 f2i x = Reply (OT_INTEGER (swap_dword (word_of_int (as_int f2i x))))"

definition g_blob_swapfloat :: "(32 word \<Rightarrow> 32 word) \<Rightarrow> sqobject \<Rightarrow> reply" where
  "g_blob_swapfloat i2f x = (case sq_getfloat i2f x of None \<Rightarrow> Throw | Some f \<Rightarrow> Reply (OT_FLOAT (swap_dword f)))"

end
