(* ===== verification/Streams.thy ===== *)
theory Streams
  imports Blob
begin

text \<open>
  Streams (\<open>utility/sqstdstream.cpp\<close>): the functions scripts have on blobs and files, over the virtual
  functions of the two. \<open>blob_ops\<close> are those of blobs. Conversion between the two float types (\<open>f2d\<close>,
  \<open>d2f\<close>) is a parameter.
\<close>

section \<open>The virtual functions\<close>

record 's stream_ops =
  s_IsValid :: "'s \<Rightarrow> bool"
  s_Read :: "int \<Rightarrow> 's \<Rightarrow> (int \<times> byte list \<times> 's) outcome"
  s_Write :: "byte list \<Rightarrow> 's \<Rightarrow> (int \<times> 's) outcome"
  s_Seek :: "int \<Rightarrow> seek_origin \<Rightarrow> 's \<Rightarrow> (int \<times> 's) outcome"
  s_Tell :: "'s \<Rightarrow> int outcome"
  s_Len :: "'s \<Rightarrow> (int \<times> 's) outcome"
  s_EOS :: "'s \<Rightarrow> (bool \<times> 's) outcome"
  s_Flush :: "'s \<Rightarrow> int outcome"

definition blob_ops :: "nat \<Rightarrow> blob stream_ops" where
  "blob_ops mem =
     \<lparr>s_IsValid = (\<lambda>b. True), s_Read = blob_Read, s_Write = blob_Write mem,
      s_Seek = (\<lambda>ofs origin b. Inr (blob_Seek ofs origin b)), s_Tell = (\<lambda>b. Inr (b_ptr b)),
      s_Len = (\<lambda>b. Inr (b_size b, b)), s_EOS = (\<lambda>b. Inr (blob_EOS b, b)), s_Flush = (\<lambda>b. Inr 0)\<rparr>"

section \<open>Stream functions of scripts\<close>

text \<open>\<open>SETUP_STREAM\<close>: an invalid stream is an error of the script.\<close>

definition setup_stream :: "'s stream_ops \<Rightarrow> 's \<Rightarrow> 'r \<Rightarrow> ('r \<times> 's) outcome \<Rightarrow> ('r \<times> 's) outcome" where
  "setup_stream ops self err body = (if s_IsValid ops self then body else Inr (err, self))"

text \<open>The number of bytes to read is limited by the length of the whole stream, not by zero.\<close>

definition read_limited :: "'s stream_ops \<Rightarrow> int \<Rightarrow> 's \<Rightarrow> (int \<times> byte list \<times> 's) outcome" where
  "read_limited ops n self =
     andthen (s_Len ops self) (\<lambda>(len, s1). s_Read ops (if n > len then len else n) s1)"

definition stream_readblob :: "(32 word \<Rightarrow> 32 word) \<Rightarrow> nat \<Rightarrow> bool \<Rightarrow> 's stream_ops \<Rightarrow> sqobject \<Rightarrow> 's \<Rightarrow> (blob option \<times> 's) outcome" where
  "stream_readblob f2i mem registered ops arg self =
     setup_stream ops self None (andthen (read_limited ops (as_int f2i arg) self) (\<lambda>(res, data, s').
       if res \<le> 0 then Inr (None, s')
       else andthen (sqstd_createblob mem registered res) (\<lambda>r.
            andthen (of_opt NullDeref r) (\<lambda>b.
            andthen (copy_in 0 data (b_buf b)) (\<lambda>buf. Inr (Some (b\<lparr>b_buf := buf\<rparr>), s'))))))"

definition string_of_bytes :: "byte list \<Rightarrow> string" where
  "string_of_bytes bs = map (\<lambda>b. char_of (unat b)) bs"

definition bytes_of_string :: "string \<Rightarrow> byte list" where
  "bytes_of_string s = map (\<lambda>c. of_nat (of_char c)) s"

definition stream_reads :: "(32 word \<Rightarrow> 32 word) \<Rightarrow> 's stream_ops \<Rightarrow> sqobject \<Rightarrow> 's \<Rightarrow> (reply \<times> 's) outcome" where
  "stream_reads f2i ops arg self =
     setup_stream ops self Throw (andthen (read_limited ops (as_int f2i arg) self) (\<lambda>(res, data, s').
       if res \<le> 0 then Inr (Throw, s') else Inr (Reply (OT_STRING (string_of_bytes data)), s')))"

definition safe_readn :: "'s stream_ops \<Rightarrow> int \<Rightarrow> (byte list \<Rightarrow> sqobject) \<Rightarrow> 's \<Rightarrow> (reply \<times> 's) outcome" where
  "safe_readn ops n conv self =
     andthen (s_Read ops n self) (\<lambda>(res, data, s'). Inr (if res \<noteq> n then Throw else Reply (conv data), s'))"

text \<open>The format is a character code.\<close>

definition format_is :: "int \<Rightarrow> char \<Rightarrow> bool" where
  "format_is format c \<longleftrightarrow> format = of_char c"

definition stream_readn :: "(32 word \<Rightarrow> 32 word) \<Rightarrow> (64 word \<Rightarrow> 32 word) \<Rightarrow> 's stream_ops \<Rightarrow> sqobject \<Rightarrow> 's \<Rightarrow> (reply \<times> 's) outcome" where
  "stream_readn f2i d2f ops arg self =
     (let format = as_int f2i arg in setup_stream ops self Throw
       (if format_is format (CHR ''l'') then safe_readn ops 4 (\<lambda>bs. OT_INTEGER (le_word bs)) self
        else if format_is format (CHR ''i'') then safe_readn ops 4 (\<lambda>bs. OT_INTEGER (le_word bs)) self
        else if format_is format (CHR ''s'') then safe_readn ops 2 (\<lambda>bs. OT_INTEGER (scast (le_word bs :: 16 word))) self
        else if format_is format (CHR ''w'') then safe_readn ops 2 (\<lambda>bs. OT_INTEGER (ucast (le_word bs :: 16 word))) self
        else if format_is format (CHR ''c'') then safe_readn ops 1 (\<lambda>bs. OT_INTEGER (ucast (le_word bs :: 8 word))) self
        else if format_is format (CHR ''b'') then safe_readn ops 1 (\<lambda>bs. OT_INTEGER (ucast (le_word bs :: 8 word))) self
        else if format_is format (CHR ''f'') then safe_readn ops 4 (\<lambda>bs. OT_FLOAT (le_word bs)) self
        else if format_is format (CHR ''d'') then safe_readn ops 8 (\<lambda>bs. OT_FLOAT (d2f (le_word bs))) self
        else Inr (Throw, self)))"

text \<open>The argument is another blob than the stream.\<close>

definition stream_writeblob :: "'s stream_ops \<Rightarrow> blob option \<Rightarrow> 's \<Rightarrow> (reply \<times> 's) outcome" where
  "stream_writeblob ops arg self =
     setup_stream ops self Throw
       (case arg of
          None \<Rightarrow> Inr (Throw, self)
        | Some b \<Rightarrow>
            andthen (copy_out 0 (b_size b) (b_buf b)) (\<lambda>data.
            andthen (s_Write ops data self) (\<lambda>(n, s').
              Inr (if n \<noteq> b_size b then Throw else Reply (OT_INTEGER (word_of_int (b_size b))), s'))))"

text \<open>
  A blob written into itself: the bytes to copy are those of the block, which growing may replace by
  another one and free.
\<close>

definition blob_writeblob_self :: "nat \<Rightarrow> blob \<Rightarrow> (reply \<times> blob) outcome" where
  "blob_writeblob_self mem b =
     andthen (if CanAdvance (b_size b) b then Inr b else GrowBufOf mem (swrap (b_ptr b + b_size b - b_size b)) b) (\<lambda>b1.
       if b_alloc b1 \<noteq> b_alloc b then Inl UseAfterFree
       else andthen (copy_out 0 (b_size b) (b_buf b)) (\<lambda>data.
            andthen (copy_in (b_ptr b1) data (b_buf b1)) (\<lambda>buf.
              Inr (Reply (OT_INTEGER (word_of_int (b_size b))), b1\<lparr>b_buf := buf, b_ptr := swrap (b_ptr b1 + b_size b)\<rparr>))))"

definition stream_writes :: "'s stream_ops \<Rightarrow> string \<Rightarrow> 's \<Rightarrow> (reply \<times> 's) outcome" where
  "stream_writes ops str self =
     setup_stream ops self Throw
       (andthen (s_Write ops (bytes_of_string str) self) (\<lambda>(n, s').
          Inr (if n \<noteq> int (length str) then Throw else Reply (OT_INTEGER (of_nat (length str))), s')))"

text \<open>\<open>_stream_writen\<close> does not look at what \<open>Write\<close> returns.\<close>

definition write_num :: "'s stream_ops \<Rightarrow> byte list \<Rightarrow> 's \<Rightarrow> (reply \<times> 's) outcome" where
  "write_num ops data self = andthen (s_Write ops data self) (\<lambda>(_, s'). Inr (NoValue, s'))"

definition as_float :: "(32 word \<Rightarrow> 32 word) \<Rightarrow> sqobject \<Rightarrow> 32 word" where
  "as_float i2f x = (case sq_getfloat i2f x of None \<Rightarrow> 0 | Some f \<Rightarrow> f)"

definition stream_writen :: "(32 word \<Rightarrow> 32 word) \<Rightarrow> (32 word \<Rightarrow> 32 word) \<Rightarrow> (32 word \<Rightarrow> 64 word) \<Rightarrow> 's stream_ops \<Rightarrow> sqobject \<Rightarrow> sqobject \<Rightarrow> 's \<Rightarrow> (reply \<times> 's) outcome" where
  "stream_writen f2i i2f f2d ops x arg self =
     (let format = as_int f2i arg; ti = as_int f2i x; tf = as_float i2f x in setup_stream ops self Throw
       (if format_is format (CHR ''l'') then write_num ops (le_bytes 4 (word_of_int ti :: 32 word)) self
        else if format_is format (CHR ''i'') then write_num ops (le_bytes 4 (word_of_int ti :: 32 word)) self
        else if format_is format (CHR ''s'') then write_num ops (le_bytes 2 (word_of_int ti :: 16 word)) self
        else if format_is format (CHR ''w'') then write_num ops (le_bytes 2 (word_of_int ti :: 16 word)) self
        else if format_is format (CHR ''c'') then write_num ops (le_bytes 1 (word_of_int ti :: 8 word)) self
        else if format_is format (CHR ''b'') then write_num ops (le_bytes 1 (word_of_int ti :: 8 word)) self
        else if format_is format (CHR ''f'') then write_num ops (le_bytes 4 tf) self
        else if format_is format (CHR ''d'') then write_num ops (le_bytes 8 (f2d tf)) self
        else Inr (Throw, self)))"

definition stream_seek :: "(32 word \<Rightarrow> 32 word) \<Rightarrow> 's stream_ops \<Rightarrow> sqobject \<Rightarrow> sqobject option \<Rightarrow> 's \<Rightarrow> (reply \<times> 's) outcome" where
  "stream_seek f2i ops ofs origin self =
     (let r = (case origin of
                 None \<Rightarrow> Some SQ_SEEK_SET
               | Some t \<Rightarrow>
                   if format_is (as_int f2i t) (CHR ''b'') then Some SQ_SEEK_SET
                   else if format_is (as_int f2i t) (CHR ''c'') then Some SQ_SEEK_CUR
                   else if format_is (as_int f2i t) (CHR ''e'') then Some SQ_SEEK_END
                   else None) in
      setup_stream ops self Throw
       (case r of
          None \<Rightarrow> Inr (Throw, self)
        | Some g \<Rightarrow> andthen (s_Seek ops (as_int f2i ofs) g self) (\<lambda>(n, s'). Inr (Reply (OT_INTEGER (word_of_int n)), s'))))"

definition stream_tell :: "'s stream_ops \<Rightarrow> 's \<Rightarrow> (reply \<times> 's) outcome" where
  "stream_tell ops self = setup_stream ops self Throw (andthen (s_Tell ops self) (\<lambda>n. Inr (Reply (OT_INTEGER (word_of_int n)), self)))"

definition stream_len :: "'s stream_ops \<Rightarrow> 's \<Rightarrow> (reply \<times> 's) outcome" where
  "stream_len ops self = setup_stream ops self Throw (andthen (s_Len ops self) (\<lambda>(n, s'). Inr (Reply (OT_INTEGER (word_of_int n)), s')))"

definition stream_flush :: "'s stream_ops \<Rightarrow> 's \<Rightarrow> (reply \<times> 's) outcome" where
  "stream_flush ops self =
     setup_stream ops self Throw (andthen (s_Flush ops self) (\<lambda>n. Inr (Reply (if n = 0 then OT_INTEGER 1 else OT_NULL), self)))"

definition stream_eos :: "'s stream_ops \<Rightarrow> 's \<Rightarrow> (reply \<times> 's) outcome" where
  "stream_eos ops self =
     setup_stream ops self Throw (andthen (s_EOS ops self) (\<lambda>(e, s'). Inr (Reply (if e then OT_INTEGER 1 else OT_NULL), s')))"

end
