(* ===== verification/BlobLaws.thy ===== *)
theory BlobLaws
  imports Blob
begin

text \<open>
  Blobs implement a sequence of bytes with a position (\<open>blob_is\<close>): each operation, and each sequence of
  operations, computes what it should on the bytes, as long as the blocks it needs can be allocated.
\<close>

unbundle bit_operations_syntax

section \<open>Bytes of words\<close>

lemma le_bytes_Suc: "le_bytes (Suc n) w = ucast w # le_bytes n (drop_bit 8 w)"
  by (simp add: le_bytes_def upt_rec [of 0] map_Suc_upt [symmetric] o_def algebra_simps del: upt_Suc)

lemma length_le_bytes [simp]: "length (le_bytes n w) = n"
  by (simp add: le_bytes_def)

lemma le_word_le_bytes: "le_word (le_bytes n w) = take_bit (8 * n) (w :: 'a :: len word)"
proof (induction n arbitrary: w)
  case 0
  then show ?case by (simp add: le_bytes_def)
next
  case (Suc n)
  have "ucast (ucast w :: byte) OR push_bit 8 (take_bit (8 * n) (drop_bit 8 w)) = take_bit (8 * Suc n) w"
    by (rule bit_word_eqI) (auto simp: bit_simps)
  then show ?case by (simp add: le_bytes_Suc Suc)
qed

lemma le_word_whole: "LENGTH('a) \<le> 8 * n \<Longrightarrow> le_word (le_bytes n w) = (w :: 'a :: len word)"
  by (simp add: le_word_le_bytes take_bit_word_eq_self)

lemma swap_masks:
  "(0xFF000000 :: 32 word) = push_bit 24 (mask 8)" "(0x00FF0000 :: 32 word) = push_bit 16 (mask 8)"
  "(0x0000FF00 :: 32 word) = push_bit 8 (mask 8)" "(0x000000FF :: 32 word) = mask 8"
  by (simp_all add: mask_eq_exp_minus_1 push_bit_eq_mult)

lemma swap_dword_bits:
  "swap_dword w = push_bit 24 (take_bit 8 w) OR push_bit 16 (take_bit 8 (drop_bit 8 w)) OR
     push_bit 8 (take_bit 8 (drop_bit 16 w)) OR take_bit 8 (drop_bit 24 w)"
proof -
  have "drop_bit 24 (w AND push_bit 24 (mask 8)) = take_bit 8 (drop_bit 24 w)" by (rule bit_word_eqI) (auto simp: bit_simps)
  moreover have "drop_bit 8 (w AND push_bit 16 (mask 8)) = push_bit 8 (take_bit 8 (drop_bit 16 w))" by (rule bit_word_eqI) (auto simp: bit_simps)
  moreover have "push_bit 8 (w AND push_bit 8 (mask 8)) = push_bit 16 (take_bit 8 (drop_bit 8 w))" by (rule bit_word_eqI) (auto simp: bit_simps)
  ultimately show ?thesis unfolding swap_dword_def swap_masks take_bit_eq_mask [symmetric] by (simp only: ac_simps)
qed

lemma swap_dword_twice: "swap_dword (swap_dword w) = w"
proof -
  have "push_bit 24 (take_bit 8 (drop_bit 24 w)) OR push_bit 16 (take_bit 8 (drop_bit 16 w)) OR
      push_bit 8 (take_bit 8 (drop_bit 8 w)) OR take_bit 8 w = w"
  proof (rule bit_word_eqI)
    fix n
    assume n: "n < LENGTH(32)"
    consider "n < 8" | "8 \<le> n" "n < 16" | "16 \<le> n" "n < 24" | "24 \<le> n" by linarith
    then show "bit (push_bit 24 (take_bit 8 (drop_bit 24 w)) OR push_bit 16 (take_bit 8 (drop_bit 16 w)) OR
        push_bit 8 (take_bit 8 (drop_bit 8 w)) OR take_bit 8 w) n \<longleftrightarrow> bit w n"
      using n by cases (auto simp: bit_simps)
  qed
  moreover have "take_bit 8 (swap_dword w) = take_bit 8 (drop_bit 24 w)"
    unfolding swap_dword_bits by (rule bit_word_eqI) (auto simp: bit_simps)
  moreover have "take_bit 8 (drop_bit 8 (swap_dword w)) = take_bit 8 (drop_bit 16 w)"
    unfolding swap_dword_bits by (rule bit_word_eqI) (auto simp: bit_simps)
  moreover have "take_bit 8 (drop_bit 16 (swap_dword w)) = take_bit 8 (drop_bit 8 w)"
    unfolding swap_dword_bits by (rule bit_word_eqI) (auto simp: bit_simps)
  moreover have "take_bit 8 (drop_bit 24 (swap_dword w)) = take_bit 8 w"
    unfolding swap_dword_bits by (rule bit_word_eqI) (auto simp: bit_simps)
  ultimately show ?thesis unfolding swap_dword_bits [of "swap_dword w"] by (simp only:)
qed

section \<open>Blobs as bytes with a position\<close>

definition overwrite :: "nat \<Rightarrow> byte list \<Rightarrow> byte list \<Rightarrow> byte list" where
  "overwrite p data xs = take p xs @ data @ drop (p + length data) xs"

definition blob_is :: "blob \<Rightarrow> byte list \<Rightarrow> nat \<Rightarrow> bool" where
  "blob_is b xs p \<longleftrightarrow> b_size b = int (length xs) \<and> b_alloc b = int (length (b_buf b)) \<and> b_ptr b = int p \<and>
     p \<le> length xs \<and> length xs \<le> length (b_buf b) \<and> take (length xs) (b_buf b) = xs"

lemma swrap_small: "- (2 ^ 31) \<le> x \<Longrightarrow> x < 2 ^ 31 \<Longrightarrow> swrap x = x"
  unfolding swrap_def by (subst sint_sbintrunc') (simp add: signed_take_bit_int_eq_self)

lemma overwrite_length: "p \<le> length xs \<Longrightarrow> length (overwrite p data xs) = max (length xs) (p + length data)"
  by (simp add: overwrite_def)

lemma overwrite_read: "p \<le> length xs \<Longrightarrow> take (length data) (drop p (overwrite p data xs)) = data"
  by (simp add: overwrite_def)

lemma overwrite_prefix:
  "p \<le> n \<Longrightarrow> n \<le> length ys \<Longrightarrow> p + length data \<le> n \<Longrightarrow> take n (overwrite p data ys) = overwrite p data (take n ys)"
  by (cases "n = p") (simp_all add: overwrite_def drop_take)

lemma zero_block_ok: "0 \<le> n \<Longrightarrow> n \<le> int mem \<Longrightarrow> zero_block mem n = Inr (replicate (nat n) 0)"
  by (simp add: zero_block_def)

lemma copy_in_ok: "p + length data \<le> length buf \<Longrightarrow> copy_in (int p) data buf = Inr (overwrite p data buf)"
  by (auto simp: copy_in_def overwrite_def)

lemma copy_out_ok: "p + n \<le> length buf \<Longrightarrow> copy_out (int p) (int n) buf = Inr (take n (drop p buf))"
  by (auto simp: copy_out_def)

lemma SQBlob_ok: "n \<le> mem \<Longrightarrow> \<exists>b. SQBlob mem (int n) = Inr b \<and> blob_is b (replicate n 0) 0"
  by (simp add: SQBlob_def zero_block_ok blob_is_def)

lemma blob_Resize_ok:
  assumes "blob_is b xs p" "n \<le> mem"
  shows "\<exists>b'. blob_Resize mem (int n) b = Inr b' \<and> blob_is b' (take n xs) (min n p) \<and> b_alloc b' = int n"
proof (cases "int n = b_alloc b")
  case True
  then show ?thesis using assms by (auto simp: blob_Resize_def blob_is_def)
next
  case False
  define m where "m = min n (length xs)"
  have buf: "length xs \<le> length (b_buf b)" "take (length xs) (b_buf b) = xs" using assms(1) by (auto simp: blob_is_def)
  have s: "(if b_size b > int n then int n else b_size b) = int m" using assms(1) by (auto simp: blob_is_def m_def)
  have "copy_out 0 (int m) (b_buf b) = Inr (take m (b_buf b))" using copy_out_ok [of 0 m "b_buf b"] buf(1) by (simp add: m_def)
  moreover have "copy_in 0 (take m (b_buf b)) (replicate n 0) = Inr (overwrite 0 (take m (b_buf b)) (replicate n 0))"
    using copy_in_ok [of 0 "take m (b_buf b)" "replicate n 0"] by (simp add: m_def)
  moreover have "take m (b_buf b) = take m xs" using buf by (metis m_def min.cobounded2 min.absorb1 take_take)
  ultimately have "blob_Resize mem (int n) b = Inr \<lparr>b_size = int m, b_alloc = int n, b_ptr = (if b_ptr b > int n then int n else b_ptr b),
      b_buf = overwrite 0 (take m xs) (replicate n 0)\<rparr>"
    using False assms(2) unfolding blob_Resize_def s by (simp add: zero_block_ok)
  then show ?thesis using assms(1) by (auto simp: blob_is_def m_def overwrite_def min_def)
qed

lemma GrowBufOf_ok:
  assumes "blob_is b xs p" "max (2 * length xs) (length xs + n) \<le> mem" "max (2 * length xs) (length xs + n) < 2 ^ 31"
  shows "\<exists>b'. GrowBufOf mem (int n) b = Inr b' \<and> b_size b' = int (length xs + n) \<and> b_ptr b' = int p \<and>
    b_alloc b' = int (length (b_buf b')) \<and> length xs + n \<le> length (b_buf b') \<and> take (length xs) (b_buf b') = xs"
proof -
  have sz: "swrap (b_size b + int n) = int (length xs + n)" "swrap (b_size b * 2) = int (2 * length xs)"
    using assms by (simp_all add: blob_is_def swrap_small)
  define b1 where "b1 = (if int (length xs + n) > b_alloc b then
      (if int (length xs + n) > int (2 * length xs) then blob_Resize mem (int (length xs + n)) b else blob_Resize mem (int (2 * length xs)) b)
    else Inr b)"
  have "\<exists>c. b1 = Inr c \<and> blob_is c xs p \<and> length xs + n \<le> length (b_buf c)"
  proof (cases "int (length xs + n) > b_alloc b")
    case False
    then show ?thesis using assms(1) by (simp add: b1_def blob_is_def)
  next
    case True
    define k where "k = max (length xs + n) (2 * length xs)"
    have p: "p \<le> length xs" using assms(1) by (simp add: blob_is_def)
    have "b1 = blob_Resize mem (int k) b" using True by (auto simp: b1_def k_def max_def)
    moreover have "k \<le> mem" "length xs \<le> k" "length xs + n \<le> k" using assms(2) by (auto simp: k_def)
    ultimately show ?thesis using blob_Resize_ok [OF assms(1), of k mem] p by (auto simp: blob_is_def min_def)
  qed
  then obtain c where c: "b1 = Inr c" "blob_is c xs p" "length xs + n \<le> length (b_buf c)" by blast
  have "swrap (b_size c + int n) = int (length xs + n)" using c(2) assms(2,3) by (simp add: blob_is_def swrap_small)
  then have "GrowBufOf mem (int n) b = Inr (c\<lparr>b_size := int (length xs + n)\<rparr>)"
    unfolding GrowBufOf_def sz b1_def [symmetric] by (simp add: c(1))
  then show ?thesis using c(2,3) by (auto simp: blob_is_def)
qed

lemma blob_Write_ok:
  assumes "blob_is b xs p" "max (2 * length xs) (p + length data) \<le> mem" "max (2 * length xs) (p + length data) < 2 ^ 31"
  shows "\<exists>b'. blob_Write mem data b = Inr (int (length data), b') \<and> blob_is b' (overwrite p data xs) (p + length data)"
proof -
  let ?n = "p + length data"
  have p: "p \<le> length xs" "b_ptr b = int p" "b_size b = int (length xs)" using assms(1) by (auto simp: blob_is_def)
  have w: "swrap (b_ptr b + int (length data)) = int ?n" "swrap (b_ptr b + int (length data) - b_size b) = int ?n - int (length xs)"
    using p assms(2,3) by (simp_all add: swrap_small)
  define c where "c = (if CanAdvance (int (length data)) b then Inr b else GrowBufOf mem (swrap (b_ptr b + int (length data) - b_size b)) b)"
  have "\<exists>b1. c = Inr b1 \<and> b_size b1 = int (max (length xs) ?n) \<and> b_ptr b1 = int p \<and> b_alloc b1 = int (length (b_buf b1)) \<and>
    max (length xs) ?n \<le> length (b_buf b1) \<and> take (length xs) (b_buf b1) = xs"
  proof (cases "?n \<le> length xs")
    case True
    then show ?thesis using assms(1) w(1) by (auto simp: c_def CanAdvance_def blob_is_def)
  next
    case False
    have "c = GrowBufOf mem (int (?n - length xs)) b" using False w p by (simp add: c_def CanAdvance_def of_nat_diff)
    then show ?thesis using GrowBufOf_ok [OF assms(1), of "?n - length xs" mem] False assms(2,3) by (auto simp: max_def)
  qed
  then obtain b1 where b1: "c = Inr b1" "b_size b1 = int (max (length xs) ?n)" "b_ptr b1 = int p" "b_alloc b1 = int (length (b_buf b1))"
    "max (length xs) ?n \<le> length (b_buf b1)" "take (length xs) (b_buf b1) = xs" by blast
  have "blob_Write mem data b = Inr (int (length data), b1\<lparr>b_buf := overwrite p data (b_buf b1), b_ptr := int ?n\<rparr>)"
    unfolding blob_Write_def Let_def c_def [symmetric] b1(1) using b1(3,5) w(1) p(2) copy_in_ok [of p data "b_buf b1"] by simp
  moreover have "take (max (length xs) ?n) (overwrite p data (b_buf b1)) = overwrite p data xs"
  proof -
    have "take p (b_buf b1) = take p xs" using b1(6) p(1) by (metis min.absorb1 take_take)
    moreover have "drop ?n (take (max (length xs) ?n) (b_buf b1)) = drop ?n xs" using b1(6) by (cases "length xs \<le> ?n") (auto simp: max_def)
    ultimately show ?thesis using overwrite_prefix [of p "max (length xs) ?n" "b_buf b1" data] b1(5) p(1)
      by (simp add: overwrite_def)
  qed
  ultimately show ?thesis using b1 p(1) by (auto simp: blob_is_def overwrite_length)
qed

lemma blob_Read_ok:
  assumes "blob_is b xs p" "length xs < 2 ^ 31" "0 \<le> n" "n < 2 ^ 31 - int (length xs)"
  shows "\<exists>b'. blob_Read n b = Inr (int (min (nat n) (length xs - p)), take (nat n) (drop p xs), b') \<and>
    blob_is b' xs (p + min (nat n) (length xs - p))"
proof -
  have p: "p \<le> length xs" "b_ptr b = int p" "b_size b = int (length xs)" "take (length xs) (b_buf b) = xs" "length xs \<le> length (b_buf b)"
    using assms(1) by (auto simp: blob_is_def)
  define m where "m = min (nat n) (length xs - p)"
  have adv: "CanAdvance n b \<longleftrightarrow> p + nat n \<le> length xs" using p assms(3,4) by (auto simp: CanAdvance_def swrap_small)
  have "take m (drop p (b_buf b)) = take m (drop p xs)"
  proof -
    have "take m (drop p xs) = take m (drop p (take (length xs) (b_buf b)))" by (simp only: p(4))
    also have "\<dots> = take m (drop p (b_buf b))" using p(1) by (simp add: drop_take m_def min_def)
    finally show ?thesis by simp
  qed
  moreover have "take m (drop p xs) = take (nat n) (drop p xs)" by (simp add: m_def min_def)
  ultimately have out: "copy_out (int p) (int m) (b_buf b) = Inr (take (nat n) (drop p xs))"
    using copy_out_ok [of p m "b_buf b"] p by (simp add: m_def)
  have sw: "swrap (int p + int m) = int (p + m)" using p(1) assms(2) by (simp add: swrap_small m_def)
  show ?thesis
  proof (cases "\<not> CanAdvance n b \<and> p = length xs")
    case True
    then show ?thesis using assms(1) p by (simp add: blob_Read_def)
  next
    case False
    then have e: "(if CanAdvance n b then n else b_size b - b_ptr b) = int m" using adv p assms(3) by (auto simp: m_def)
    have c: "(\<not> CanAdvance n b \<and> \<not> b_size b - b_ptr b > 0) = False" using False p by auto
    have "blob_Read n b = Inr (int m, take (nat n) (drop p xs), b\<lparr>b_ptr := int (p + m)\<rparr>)"
      unfolding blob_Read_def Let_def e c using out p(2) sw by simp
    then show ?thesis using assms(1) p(1) by (auto simp: blob_is_def m_def)
  qed
qed

definition seek_target :: "int \<Rightarrow> seek_origin \<Rightarrow> nat \<Rightarrow> nat \<Rightarrow> int" where
  "seek_target ofs origin len p = ofs + (case origin of SQ_SEEK_SET \<Rightarrow> 0 | SQ_SEEK_CUR \<Rightarrow> int p | SQ_SEEK_END \<Rightarrow> int len)"

lemma blob_Seek_ok:
  assumes "blob_is b xs p" "- (2 ^ 31) \<le> ofs" "ofs < 2 ^ 31 - int (length xs)"
  shows "\<exists>b'. blob_Seek ofs origin b =
      (if 0 \<le> seek_target ofs origin (length xs) p \<and> seek_target ofs origin (length xs) p \<le> int (length xs) then 0 else - 1, b') \<and>
    blob_is b' xs (if 0 \<le> seek_target ofs origin (length xs) p \<and> seek_target ofs origin (length xs) p \<le> int (length xs)
      then nat (seek_target ofs origin (length xs) p) else p)"
proof -
  have p: "p \<le> length xs" "b_ptr b = int p" "b_size b = int (length xs)" using assms(1) by (auto simp: blob_is_def)
  then have "swrap (b_ptr b + ofs) = int p + ofs" "swrap (b_size b + ofs) = int (length xs) + ofs"
    using assms(2,3) by (simp_all add: swrap_small)
  then show ?thesis using assms(1) p by (cases origin) (auto simp: blob_Seek_def seek_target_def blob_is_def)
qed

lemma blob_set_ok:
  assumes "blob_is b xs p" "i < length xs"
  shows "copy_in (int i) [x] (b_buf b) = Inr ((b_buf b)[i := x])" "blob_is (b\<lparr>b_buf := (b_buf b)[i := x]\<rparr>) (xs[i := x]) p"
proof -
  have i: "i < length (b_buf b)" using assms by (simp add: blob_is_def)
  then show "copy_in (int i) [x] (b_buf b) = Inr ((b_buf b)[i := x])"
    using copy_in_ok [of i "[x]" "b_buf b"] by (simp add: overwrite_def upd_conv_take_nth_drop)
  show "blob_is (b\<lparr>b_buf := (b_buf b)[i := x]\<rparr>) (xs[i := x]) p"
    using assms by (auto simp: blob_is_def take_update_swap)
qed

lemma blob_get_ok:
  assumes "blob_is b xs p" "i < length xs"
  shows "copy_out (int i) 1 (b_buf b) = Inr [xs ! i]"
proof -
  have "b_buf b ! i = take (length xs) (b_buf b) ! i" using assms(2) by simp
  also have "\<dots> = xs ! i" using assms(1) by (simp add: blob_is_def)
  finally show ?thesis using assms copy_out_ok [of i 1 "b_buf b"] by (simp add: blob_is_def take_Suc_conv_app_nth take_Suc hd_drop_conv_nth)
qed

section \<open>Sequences of blob operations\<close>

datatype blob_op =
    BWrite "byte list"
  | BRead int
  | BSeek int seek_origin
  | BResize "32 word"
  | BSet "32 word" "32 word"
  | BGet "32 word"

fun reply_code :: "reply \<Rightarrow> int" where
  "reply_code (Reply (OT_INTEGER w)) = sint w"
| "reply_code NoValue = 0"
| "reply_code _ = - 1"

fun blob_run :: "nat \<Rightarrow> blob_op \<Rightarrow> blob \<Rightarrow> ((int \<times> byte list) \<times> blob) outcome" where
  "blob_run mem (BWrite data) b = andthen (blob_Write mem data b) (\<lambda>(n, b'). Inr ((n, []), b'))"
| "blob_run mem (BRead n) b = andthen (blob_Read n b) (\<lambda>(m, data, b'). Inr ((m, data), b'))"
| "blob_run mem (BSeek ofs origin) b = (let (r, b') = blob_Seek ofs origin b in Inr ((r, []), b'))"
| "blob_run mem (BResize n) b = andthen (u_blob_resize id mem (OT_INTEGER n) b) (\<lambda>(r, b'). Inr ((reply_code r, []), b'))"
| "blob_run mem (BSet i x) b = andthen (u_blob__set id (OT_INTEGER i) (OT_INTEGER x) b) (\<lambda>(r, b'). Inr ((reply_code r, []), b'))"
| "blob_run mem (BGet i) b = andthen (u_blob__get id (OT_INTEGER i) b) (\<lambda>r. Inr ((reply_code r, []), b))"

text \<open>
  What the operations mean on the bytes and the position. The flag notes a request the code does not
  survive: a negative or too large number of bytes, or an offset that overflows.
\<close>

fun blob_spec :: "nat \<Rightarrow> blob_op \<Rightarrow> byte list \<times> nat \<times> bool \<Rightarrow> (int \<times> byte list) \<times> byte list \<times> nat \<times> bool" where
  "blob_spec mem (BWrite data) (xs, p, bad) =
     ((int (length data), []), overwrite p data xs, p + length data, bad)"
| "blob_spec mem (BRead n) (xs, p, bad) =
     ((int (min (nat n) (length xs - p)), take (nat n) (drop p xs)), xs, p + min (nat n) (length xs - p),
      bad \<or> n < 0 \<or> 2 ^ 31 - int (length xs) \<le> n)"
| "blob_spec mem (BSeek ofs origin) (xs, p, bad) =
     (let q = seek_target ofs origin (length xs) p; ok = (0 \<le> q \<and> q \<le> int (length xs)) in
      ((if ok then 0 else - 1, []), xs, if ok then nat q else p, bad \<or> ofs < - (2 ^ 31) \<or> 2 ^ 31 - int (length xs) \<le> ofs))"
| "blob_spec mem (BResize n) (xs, p, bad) =
     ((0, []), take (nat (sint n)) xs, min (nat (sint n)) p, bad \<or> sint n < 0 \<or> int mem < sint n)"
| "blob_spec mem (BSet i x) (xs, p, bad) =
     (if 0 \<le> sint i \<and> sint i < int (length xs) then ((sint x, []), xs[nat (sint i) := word_of_int (sint x)], p, bad)
      else ((- 1, []), xs, p, bad))"
| "blob_spec mem (BGet i) (xs, p, bad) =
     (if 0 \<le> sint i \<and> sint i < int (length xs) then ((uint (xs ! nat (sint i)), []), xs, p, bad) else ((- 1, []), xs, p, bad))"

definition blob_rel :: "blob \<Rightarrow> byte list \<times> nat \<times> bool \<Rightarrow> bool" where
  "blob_rel b a \<longleftrightarrow> blob_is b (fst a) (fst (snd a))"

definition blob_lim :: "nat \<Rightarrow> byte list \<times> nat \<times> bool \<Rightarrow> bool" where
  "blob_lim mem a \<longleftrightarrow> \<not> snd (snd a) \<and> 2 * length (fst a) \<le> mem \<and> length (fst a) < 2 ^ 30"

lemma as_int_id [simp]: "as_int id (OT_INTEGER w) = sint w"
  by (simp add: as_int_def)

lemma set_get_simulates:
  assumes "blob_is b xs p"
  shows "\<exists>b'. blob_run mem (BSet i x) b = Inr (fst (blob_spec mem (BSet i x) (xs, p, bad)), b') \<and>
      blob_rel b' (snd (blob_spec mem (BSet i x) (xs, p, bad)))"
    "\<exists>b'. blob_run mem (BGet i) b = Inr (fst (blob_spec mem (BGet i) (xs, p, bad)), b') \<and>
      blob_rel b' (snd (blob_spec mem (BGet i) (xs, p, bad)))"
proof -
  have sz: "b_size b = int (length xs)" using assms by (simp add: blob_is_def)
  consider "0 \<le> sint i" "sint i < int (length xs)" | "\<not> (0 \<le> sint i \<and> sint i < int (length xs))" by blast
  note in_or_out = this
  show "\<exists>b'. blob_run mem (BSet i x) b = Inr (fst (blob_spec mem (BSet i x) (xs, p, bad)), b') \<and>
      blob_rel b' (snd (blob_spec mem (BSet i x) (xs, p, bad)))"
  proof (cases rule: in_or_out)
    case 1
    then have "nat (sint i) < length xs" by simp
    from blob_set_ok [OF assms this, of "word_of_int (sint x)"] 1 show ?thesis by (simp add: u_blob__set_def sz blob_rel_def)
  next
    case 2
    then have "sint i < 0 \<or> sint i \<ge> int (length xs)" by auto
    then show ?thesis using assms by (auto simp: u_blob__set_def sz blob_rel_def)
  qed
  show "\<exists>b'. blob_run mem (BGet i) b = Inr (fst (blob_spec mem (BGet i) (xs, p, bad)), b') \<and>
      blob_rel b' (snd (blob_spec mem (BGet i) (xs, p, bad)))"
  proof (cases rule: in_or_out)
    case 1
    then have i: "nat (sint i) < length xs" by simp
    have "sint (ucast (y :: byte) :: 32 word) = uint y" for y
      using uint_lt2p [of y] by (subst sint_small) (simp_all add: uint_up_ucast is_up)
    then show ?thesis using blob_get_ok [OF assms i] 1 assms by (simp add: u_blob__get_def sz blob_rel_def)
  next
    case 2
    then have "sint i < 0 \<or> sint i \<ge> int (length xs)" by auto
    then show ?thesis using assms by (auto simp: u_blob__get_def sz blob_rel_def)
  qed
qed

interpretation blob_bytes: simulation blob_rel "blob_run mem" "blob_spec mem" "blob_lim mem" for mem :: nat
proof
  fix b and a :: "byte list \<times> nat \<times> bool" and op
  obtain xs p bad where a: "a = (xs, p, bad)" by (cases a)
  assume h: "blob_rel b a" "blob_lim mem a" "blob_lim mem (snd (blob_spec mem op a))"
  then have b: "blob_is b xs p" and l: "2 * length xs \<le> mem" "length xs < 2 ^ 30" by (simp_all add: a blob_rel_def blob_lim_def)
  have p: "p \<le> length xs" using b by (simp add: blob_is_def)
  show "\<exists>b'. blob_run mem op b = Inr (fst (blob_spec mem op a), b') \<and> blob_rel b' (snd (blob_spec mem op a))"
  proof (cases op)
    case (BWrite data)
    then have "max (2 * length xs) (p + length data) \<le> mem" "max (2 * length xs) (p + length data) < 2 ^ 31"
      using h(3) l p by (auto simp: a blob_lim_def overwrite_length max_def split: if_splits)
    from blob_Write_ok [OF b this] show ?thesis by (auto simp: BWrite a blob_rel_def)
  next
    case (BRead n)
    then have "0 \<le> n" "n < 2 ^ 31 - int (length xs)" using h(3) by (auto simp: a blob_lim_def)
    from blob_Read_ok [OF b _ this] l(2) show ?thesis by (auto simp: BRead a blob_rel_def)
  next
    case (BSeek ofs origin)
    then have "- (2 ^ 31) \<le> ofs" "ofs < 2 ^ 31 - int (length xs)" using h(3) by (auto simp: a blob_lim_def Let_def)
    from blob_Seek_ok [OF b this, of origin] show ?thesis by (auto simp: BSeek a blob_rel_def Let_def)
  next
    case (BResize n)
    then have n: "0 \<le> sint n" "nat (sint n) \<le> mem" using h(3) by (auto simp: a blob_lim_def)
    from blob_Resize_ok [OF b n(2)] n(1) show ?thesis by (auto simp: BResize a blob_rel_def u_blob_resize_def)
  next
    case (BSet i x)
    then show ?thesis using set_get_simulates(1) [OF b] by (simp only: a)
  next
    case (BGet i)
    then show ?thesis using set_get_simulates(2) [OF b] by (simp only: a)
  qed
qed

text \<open>
  C8. A blob is a sequence of bytes with a position. Any sequence of writes, reads, seeks, resizes and
  element accesses on a new blob returns what it should on the bytes and the position, and ends with
  a block that holds the bytes, without reading or writing outside the block. The conditions are that
  twice the longest content fits the largest block the allocator provides and that no request asks for
  a negative or unrepresentable number of bytes.
\<close>

theorem blobs_refine_bytes:
  assumes "n \<le> mem" "all_within (blob_lim mem) (blob_spec mem) ops (replicate n 0, 0, False)"
  shows "\<exists>b b'. SQBlob mem (int n) = Inr b \<and>
    run_all (blob_run mem) ops b = Inr (fst (spec_all (blob_spec mem) ops (replicate n 0, 0, False)), b') \<and>
    take (nat (b_size b')) (b_buf b') = fst (snd (spec_all (blob_spec mem) ops (replicate n 0, 0, False))) \<and>
    b_ptr b' = int (fst (snd (snd (spec_all (blob_spec mem) ops (replicate n 0, 0, False)))))"
proof -
  from SQBlob_ok [OF assms(1)] obtain b where b: "SQBlob mem (int n) = Inr b" "blob_is b (replicate n 0) 0" by blast
  then have "blob_rel b (replicate n 0, 0, False)" by (simp add: blob_rel_def)
  from blob_bytes.run_all_simulates [OF this assms(2)] b(1) show ?thesis
    by (auto simp: blob_rel_def blob_is_def)
qed

definition ex_blob_ops :: "blob_op list" where
  "ex_blob_ops = [BWrite [1, 2, 3], BSeek (- 2) SQ_SEEK_CUR, BRead 9, BSet 0 255, BGet 0, BResize 2, BSeek 3 SQ_SEEK_SET]"

theorem blobs_refine_bytes_witness:
  "\<exists>b b'. SQBlob 64 (int 2) = Inr b \<and>
    run_all (blob_run 64) ex_blob_ops b = Inr ([(3, []), (0, []), (2, [2, 3]), (255, []), (255, []), (0, []), (- 1, [])], b') \<and>
    take (nat (b_size b')) (b_buf b') = [255, 2] \<and> b_ptr b' = int 2"
proof -
  have r: "replicate 2 (0 :: byte) = [0, 0]" by (simp add: numeral_2_eq_2)
  have sp: "spec_all (blob_spec 64) ex_blob_ops (replicate 2 0, 0, False) =
      ([(3, []), (0, []), (2, [2, 3]), (255, []), (255, []), (0, []), (- 1, [])], [255, 2], 2, False)"
    unfolding r by (simp add: ex_blob_ops_def overwrite_def seek_target_def Let_def)
  have "all_within (blob_lim 64) (blob_spec 64) ex_blob_ops (replicate 2 0, 0, False)"
    unfolding r by (simp add: ex_blob_ops_def overwrite_def seek_target_def Let_def blob_lim_def)
  from blobs_refine_bytes [OF _ this] show ?thesis unfolding sp by simp
qed

end
