(* ===== verification/StreamLaws.thy ===== *)
theory StreamLaws
  imports Streams BlobLaws
begin

text \<open>
  The contract of a stream (\<open>byte_stream\<close>) and what it gives for the functions of scripts: numbers are
  read back as they were written. Blobs satisfy the contract.
\<close>

section \<open>What a number becomes\<close>

text \<open>The bytes a format writes, and the value it reads back: the number, cut to the width of the format.\<close>

definition number_bytes :: "(32 word \<Rightarrow> 32 word) \<Rightarrow> (32 word \<Rightarrow> 32 word) \<Rightarrow> (32 word \<Rightarrow> 64 word) \<Rightarrow> char \<Rightarrow> sqobject \<Rightarrow> byte list" where
  "number_bytes f2i i2f f2d c x =
     (if c \<in> {CHR ''l'', CHR ''i''} then le_bytes 4 (word_of_int (as_int f2i x) :: 32 word)
      else if c \<in> {CHR ''s'', CHR ''w''} then le_bytes 2 (word_of_int (as_int f2i x) :: 16 word)
      else if c \<in> {CHR ''c'', CHR ''b''} then le_bytes 1 (word_of_int (as_int f2i x) :: 8 word)
      else if c = CHR ''f'' then le_bytes 4 (as_float i2f x)
      else le_bytes 8 (f2d (as_float i2f x)))"

definition number_as :: "(32 word \<Rightarrow> 32 word) \<Rightarrow> (32 word \<Rightarrow> 32 word) \<Rightarrow> (32 word \<Rightarrow> 64 word) \<Rightarrow> (64 word \<Rightarrow> 32 word) \<Rightarrow> char \<Rightarrow> sqobject \<Rightarrow> sqobject option" where
  "number_as f2i i2f f2d d2f c x =
     (if c \<in> {CHR ''l'', CHR ''i''} then Some (OT_INTEGER (word_of_int (as_int f2i x)))
      else if c = CHR ''s'' then Some (OT_INTEGER (scast (word_of_int (as_int f2i x) :: 16 word)))
      else if c = CHR ''w'' then Some (OT_INTEGER (ucast (word_of_int (as_int f2i x) :: 16 word)))
      else if c \<in> {CHR ''c'', CHR ''b''} then Some (OT_INTEGER (ucast (word_of_int (as_int f2i x) :: 8 word)))
      else if c = CHR ''f'' then Some (OT_FLOAT (as_float i2f x))
      else if c = CHR ''d'' then Some (OT_FLOAT (d2f (f2d (as_float i2f x))))
      else None)"

lemma number_format:
  "number_as f2i i2f f2d d2f c x = Some y \<Longrightarrow>
   c = CHR ''l'' \<or> c = CHR ''i'' \<or> c = CHR ''s'' \<or> c = CHR ''w'' \<or> c = CHR ''c'' \<or> c = CHR ''b'' \<or> c = CHR ''f'' \<or> c = CHR ''d''"
  by (auto simp: number_as_def split: if_splits)

section \<open>The contract\<close>

locale byte_stream =
  fixes ops :: "'s stream_ops" and holds_bytes :: "'s \<Rightarrow> byte list \<Rightarrow> nat \<Rightarrow> bool" and cap :: nat
  assumes valid: "holds_bytes s xs p \<Longrightarrow> s_IsValid ops s"
    and write_law: "holds_bytes s xs p \<Longrightarrow> length xs \<le> cap \<Longrightarrow> p + length data \<le> cap \<Longrightarrow>
      \<exists>s'. s_Write ops data s = Inr (int (length data), s') \<and> holds_bytes s' (overwrite p data xs) (p + length data)"
    and read_law: "holds_bytes s xs p \<Longrightarrow> length xs \<le> cap \<Longrightarrow> p + n \<le> length xs \<Longrightarrow>
      \<exists>s'. s_Read ops (int n) s = Inr (int n, take n (drop p xs), s') \<and> holds_bytes s' xs (p + n)"
    and seek_law: "holds_bytes s xs p \<Longrightarrow> length xs \<le> cap \<Longrightarrow> q \<le> length xs \<Longrightarrow>
      \<exists>s'. s_Seek ops (int q) SQ_SEEK_SET s = Inr (0, s') \<and> holds_bytes s' xs q"
    and pos_law: "holds_bytes s xs p \<Longrightarrow> p \<le> length xs"
    and cap_small: "cap < 2 ^ 31"
begin

lemma write_seek_read:
  assumes "holds_bytes s xs p" "length xs \<le> cap" "p + length data \<le> cap"
  obtains s1 s2 s3 where "s_Write ops data s = Inr (int (length data), s1)" "s_Seek ops (int p) SQ_SEEK_SET s1 = Inr (0, s2)"
    "s_Read ops (int (length data)) s2 = Inr (int (length data), data, s3)"
    "s_IsValid ops s" "s_IsValid ops s1" "s_IsValid ops s2" "holds_bytes s3 (overwrite p data xs) (p + length data)"
proof -
  let ?ys = "overwrite p data xs"
  have p: "p \<le> length xs" by (rule pos_law [OF assms(1)])
  then have l: "length ?ys \<le> cap" "p \<le> length ?ys" "p + length data \<le> length ?ys" using assms(2,3) by (simp_all add: overwrite_length)
  from write_law [OF assms] obtain s1 where s1: "s_Write ops data s = Inr (int (length data), s1)" "holds_bytes s1 ?ys (p + length data)" by blast
  from seek_law [OF s1(2) l(1,2)] obtain s2 where s2: "s_Seek ops (int p) SQ_SEEK_SET s1 = Inr (0, s2)" "holds_bytes s2 ?ys p" by blast
  from read_law [OF s2(2) l(1,3)] obtain s3 where
    "s_Read ops (int (length data)) s2 = Inr (int (length data), data, s3)" "holds_bytes s3 ?ys (p + length data)"
    using overwrite_read [OF p] by auto
  then show thesis using that s1 s2 valid assms(1) by blast
qed

lemma seek_to_position:
  assumes "s_IsValid ops s1" "s_Seek ops (int p) SQ_SEEK_SET s1 = Inr (0, s2)" "p \<le> cap"
  shows "stream_seek f2i ops (OT_INTEGER (of_nat p)) None s1 = Inr (Reply (OT_INTEGER 0), s2)"
  using assms cap_small by (simp add: stream_seek_def setup_stream_def as_int_def sint_of_nat32)

lemma string_round_trip:
  assumes "holds_bytes s xs p" "length xs \<le> cap" "p + length str \<le> cap" "str \<noteq> []"
    and len: "\<And>s xs p. holds_bytes s xs p \<Longrightarrow> s_Len ops s = Inr (int (length xs), s)"
  shows "\<exists>s1 s2 s3. stream_writes ops str s = Inr (Reply (OT_INTEGER (of_nat (length str))), s1) \<and>
    stream_seek f2i ops (OT_INTEGER (of_nat p)) None s1 = Inr (Reply (OT_INTEGER 0), s2) \<and>
    stream_reads f2i ops (OT_INTEGER (of_nat (length str))) s2 = Inr (Reply (OT_STRING str), s3)"
proof -
  let ?d = "bytes_of_string str"
  have l: "length ?d = length str" by (simp add: bytes_of_string_def)
  have rt: "string_of_bytes ?d = str"
    by (simp add: string_of_bytes_def bytes_of_string_def unat_of_nat map_idI)
  have p: "p \<le> length xs" by (rule pos_law [OF assms(1)])
  let ?ys = "overwrite p ?d xs"
  have ys: "length ?ys \<le> cap" "p \<le> length ?ys" "p + length str \<le> length ?ys" using p assms(2,3) l by (simp_all add: overwrite_length)
  from write_law [OF assms(1,2), of ?d] assms(3) l obtain s1 where s1: "s_Write ops ?d s = Inr (int (length str), s1)" "holds_bytes s1 ?ys (p + length str)" by auto
  from seek_law [OF s1(2) ys(1,2)] obtain s2 where s2: "s_Seek ops (int p) SQ_SEEK_SET s1 = Inr (0, s2)" "holds_bytes s2 ?ys p" by blast
  from read_law [OF s2(2) ys(1,3)] obtain s3 where s3: "s_Read ops (int (length str)) s2 = Inr (int (length str), ?d, s3)"
    using overwrite_read [OF p, of ?d] l by auto
  have n: "as_int f2i (OT_INTEGER (of_nat (length str))) = int (length str)"
    using assms(3) cap_small by (simp add: as_int_def sint_of_nat32)
  have "\<not> int (length ?ys) < int (length str)" using ys(3) by simp
  then have "stream_reads f2i ops (OT_INTEGER (of_nat (length str))) s2 = Inr (Reply (OT_STRING str), s3)"
    using valid [OF s2(2)] s3 assms(4) rt n len [OF s2(2)] by (simp add: stream_reads_def setup_stream_def read_limited_def)
  moreover have "stream_writes ops str s = Inr (Reply (OT_INTEGER (of_nat (length str))), s1)"
    using valid [OF assms(1)] s1(1) by (simp add: stream_writes_def setup_stream_def)
  moreover have "stream_seek f2i ops (OT_INTEGER (of_nat p)) None s1 = Inr (Reply (OT_INTEGER 0), s2)"
    by (rule seek_to_position [OF valid [OF s1(2)] s2(1)]) (use assms(2) p in simp)
  ultimately show ?thesis by blast
qed

lemma number_case:
  assumes "holds_bytes s xs p" "length xs \<le> cap" "p + 8 \<le> cap" "length data \<le> 8"
  obtains s1 s2 s3 where "write_num ops data s = Inr (NoValue, s1)" "stream_seek f2i ops (OT_INTEGER (of_nat p)) None s1 = Inr (Reply (OT_INTEGER 0), s2)"
    "\<And>conv. safe_readn ops (int (length data)) conv s2 = Inr (Reply (conv data), s3)" "s_IsValid ops s" "s_IsValid ops s2"
proof -
  obtain s1 s2 s3 where h: "s_Write ops data s = Inr (int (length data), s1)" "s_Seek ops (int p) SQ_SEEK_SET s1 = Inr (0, s2)"
    "s_Read ops (int (length data)) s2 = Inr (int (length data), data, s3)"
    "s_IsValid ops s" "s_IsValid ops s1" "s_IsValid ops s2"
    by (rule write_seek_read [OF assms(1,2), of data]) (use assms(3,4) in auto)
  show thesis
  proof (rule that)
    show "write_num ops data s = Inr (NoValue, s1)" using h by (simp add: write_num_def)
    show "stream_seek f2i ops (OT_INTEGER (of_nat p)) None s1 = Inr (Reply (OT_INTEGER 0), s2)"
      by (rule seek_to_position [OF h(5,2)]) (use assms(3) in simp)
    show "safe_readn ops (int (length data)) conv s2 = Inr (Reply (conv data), s3)" for conv using h by (simp add: safe_readn_def)
  qed (use h in auto)
qed

lemma number_round_trip:
  assumes "holds_bytes s xs p" "length xs \<le> cap" "p + 8 \<le> cap" "number_as f2i i2f f2d d2f c x = Some y"
  shows "\<exists>s1 s2 s3. stream_writen f2i i2f f2d ops x (OT_INTEGER (of_char c)) s = Inr (NoValue, s1) \<and>
    stream_seek f2i ops (OT_INTEGER (of_nat p)) None s1 = Inr (Reply (OT_INTEGER 0), s2) \<and>
    stream_readn f2i d2f ops (OT_INTEGER (of_char c)) s2 = Inr (Reply y, s3)"
proof -
  let ?data = "number_bytes f2i i2f f2d c x"
  from number_format [OF assms(4)] have l: "length ?data \<le> 8" by (auto simp: number_bytes_def)
  obtain s1 s2 s3 where h: "write_num ops ?data s = Inr (NoValue, s1)" "stream_seek f2i ops (OT_INTEGER (of_nat p)) None s1 = Inr (Reply (OT_INTEGER 0), s2)"
    "\<And>conv. safe_readn ops (int (length ?data)) conv s2 = Inr (Reply (conv ?data), s3)" "s_IsValid ops s" "s_IsValid ops s2"
    by (rule number_case [OF assms(1-3) l]) blast
  from number_format [OF assms(4)] have "stream_writen f2i i2f f2d ops x (OT_INTEGER (of_char c)) s = Inr (NoValue, s1)"
    using h(1,4) by (elim disjE) (simp_all add: stream_writen_def number_bytes_def setup_stream_def as_int_def format_is_def)
  moreover from number_format [OF assms(4)] have "stream_readn f2i d2f ops (OT_INTEGER (of_char c)) s2 = Inr (Reply y, s3)"
    using h(3,5) assms(4)
    by (elim disjE) (simp_all add: stream_readn_def number_bytes_def number_as_def setup_stream_def as_int_def format_is_def le_word_whole)
  ultimately show ?thesis using h(2) by blast
qed

end

section \<open>Blobs are streams\<close>

text \<open>Half of the largest block is room enough: a full block doubles.\<close>

interpretation blob_stream: byte_stream "blob_ops mem" blob_is "min (mem div 2) (2 ^ 30 - 1)" for mem :: nat
proof
  fix b xs p data n q
  assume b: "blob_is b xs p"
  show "s_IsValid (blob_ops mem) b" by (simp add: blob_ops_def)
  show "p \<le> length xs" using b by (simp add: blob_is_def)
  assume l: "length xs \<le> min (mem div 2) (2 ^ 30 - 1)"
  show "\<exists>s'. s_Write (blob_ops mem) data b = Inr (int (length data), s') \<and> blob_is s' (overwrite p data xs) (p + length data)"
    if "p + length data \<le> min (mem div 2) (2 ^ 30 - 1)"
  proof -
    have "max (2 * length xs) (p + length data) \<le> mem" "max (2 * length xs) (p + length data) < 2 ^ 31" using that l by auto
    from blob_Write_ok [OF b this] show ?thesis by (simp add: blob_ops_def)
  qed
  show "\<exists>s'. s_Read (blob_ops mem) (int n) b = Inr (int n, take n (drop p xs), s') \<and> blob_is s' xs (p + n)"
    if "p + n \<le> length xs"
    using blob_Read_ok [OF b, of "int n"] that l by (simp add: blob_ops_def)
  show "\<exists>s'. s_Seek (blob_ops mem) (int q) SQ_SEEK_SET b = Inr (0, s') \<and> blob_is s' xs q" if "q \<le> length xs"
    using blob_Seek_ok [OF b, of "int q" SQ_SEEK_SET] that l by (simp add: blob_ops_def seek_target_def)
qed simp

text \<open>
  C19. Numbers written to a blob are read back. After \<open>writen(x, format)\<close> and a seek to where the blob
  stood, \<open>readn(format)\<close> returns \<open>x\<close> cut to the width of the format, with the sign the format
  has: 32 bits for \<open>l\<close> and \<open>i\<close>, 16 for \<open>s\<close> and \<open>w\<close>, 8 for \<open>c\<close> and \<open>b\<close>, and floats. This holds at any position of
  any blob with room for the number, and the block grows as needed.
\<close>

theorem writen_then_readn:
  assumes "blob_is b xs p" "length xs \<le> mem div 2" "length xs < 2 ^ 30" "p + 8 \<le> mem div 2" "p + 8 < 2 ^ 30"
    and "number_as f2i i2f f2d d2f c x = Some y"
  shows "\<exists>b1 b2 b3. stream_writen f2i i2f f2d (blob_ops mem) x (OT_INTEGER (of_char c)) b = Inr (NoValue, b1) \<and>
    stream_seek f2i (blob_ops mem) (OT_INTEGER (of_nat p)) None b1 = Inr (Reply (OT_INTEGER 0), b2) \<and>
    stream_readn f2i d2f (blob_ops mem) (OT_INTEGER (of_char c)) b2 = Inr (Reply y, b3)"
  by (rule blob_stream.number_round_trip [OF assms(1) _ _ assms(6)]) (use assms(2-5) in auto)

definition ex_blob :: blob where
  "ex_blob = \<lparr>b_size = 2, b_alloc = 2, b_ptr = 1, b_buf = [7, 8]\<rparr>"

lemma ex_blob_is: "blob_is ex_blob [7, 8] 1"
  by (simp add: ex_blob_def blob_is_def)

theorem writen_then_readn_witness:
  "\<exists>b1 b2 b3. stream_writen id id ucast (blob_ops 64) (OT_INTEGER 0x1FFFE) (OT_INTEGER (of_char (CHR ''s''))) ex_blob = Inr (NoValue, b1) \<and>
    stream_seek id (blob_ops 64) (OT_INTEGER (of_nat 1)) None b1 = Inr (Reply (OT_INTEGER 0), b2) \<and>
    stream_readn id ucast (blob_ops 64) (OT_INTEGER (of_char (CHR ''s''))) b2 = Inr (Reply (OT_INTEGER (- 2)), b3)"
  by (rule writen_then_readn [OF ex_blob_is]) (simp_all add: number_as_def as_int_def)



text \<open>
  Sizes from scripts are not checked for their sign. \<open>readblob(-1)\<close> and \<open>reads(-1)\<close> on a blob copy
  \<open>2^32 - 1\<close> bytes out of the block, and \<open>resize(-1)\<close> clears a block that was not allocated; only the
  constructor refuses a negative size.
\<close>

theorem negative_sizes_fault:
  assumes "blob_is b xs p" "length xs < 2 ^ 31"
  shows "stream_readblob f2i mem registered (blob_ops mem) (OT_INTEGER (- 1)) b = Inl OutOfBounds \<and>
    stream_reads f2i (blob_ops mem) (OT_INTEGER (- 1)) b = Inl OutOfBounds \<and>
    u_blob_resize f2i mem (OT_INTEGER (- 1)) b = Inl NullDeref \<and>
    u_blob_constructor f2i mem (Some (OT_INTEGER (- 1))) = Inr None"
proof -
  have p: "p \<le> length xs" "b_ptr b = int p" "b_size b = int (length xs)" "b_alloc b = int (length (b_buf b))"
    using assms(1) by (auto simp: blob_is_def)
  have "swrap (int p + - 1) = int p - 1" using p(1) assms(2) by (subst swrap_small) simp_all
  then have "CanAdvance (- 1) b" using p by (simp add: CanAdvance_def)
  then have "blob_Read (- 1) b = Inl OutOfBounds" by (simp add: blob_Read_def copy_out_def)
  then have r: "read_limited (blob_ops mem) (- 1) b = Inl OutOfBounds" using p by (simp add: read_limited_def blob_ops_def)
  have n: "as_int f2i (OT_INTEGER (- 1)) = - 1" by (simp add: as_int_def)
  have v: "s_IsValid (blob_ops mem) b" by (simp add: blob_ops_def)
  show ?thesis using r n v p
    by (simp add: stream_readblob_def stream_reads_def setup_stream_def u_blob_resize_def blob_Resize_def zero_block_def u_blob_constructor_def)
qed

theorem negative_sizes_fault_witness:
  "stream_readblob id 64 True (blob_ops 64) (OT_INTEGER (- 1)) ex_blob = Inl OutOfBounds \<and>
    stream_reads id (blob_ops 64) (OT_INTEGER (- 1)) ex_blob = Inl OutOfBounds \<and>
    u_blob_resize id 64 (OT_INTEGER (- 1)) ex_blob = Inl NullDeref \<and>
    u_blob_constructor id 64 (Some (OT_INTEGER (- 1))) = Inr None"
  by (rule negative_sizes_fault [OF ex_blob_is]) simp

lemma global_swap2_is_not_16_bit: "g_blob_swap2 f2i (OT_INTEGER 0x1234) = Reply (OT_INTEGER 0x123412)"
  by (simp add: g_blob_swap2_def as_int_def)

end
