(* ===== verification/FileIO.thy ===== *)
theory FileIO
  imports StreamLaws
begin

text \<open>
  Files of scripts (\<open>utility/sqstdio.cpp\<close>): the file stream over the C library, the buffered reader that
  feeds the compiler, and the choice of the reader by the first bytes of a file. An open file is its
  bytes and a position. Compiling and reading byte code are parameters.
\<close>

section \<open>The C library\<close>

record cfile =
  f_bytes :: "byte list"
  f_pos :: nat

definition c_fread :: "int \<Rightarrow> cfile \<Rightarrow> (int \<times> byte list \<times> cfile) outcome" where
  "c_fread n f =
     (if n < 0 then Inl OutOfBounds
      else let data = take (nat n) (drop (f_pos f) (f_bytes f)) in Inr (int (length data), data, f\<lparr>f_pos := f_pos f + length data\<rparr>))"

definition c_fwrite :: "byte list \<Rightarrow> cfile \<Rightarrow> int \<times> cfile" where
  "c_fwrite data f =
     (int (length data),
      \<lparr>f_bytes = overwrite (f_pos f) data (f_bytes f @ replicate (f_pos f - length (f_bytes f)) 0), f_pos = f_pos f + length data\<rparr>)"

definition c_fseek :: "int \<Rightarrow> seek_origin \<Rightarrow> cfile \<Rightarrow> int \<times> cfile" where
  "c_fseek ofs origin f =
     (let q = seek_target ofs origin (length (f_bytes f)) (f_pos f) in
      if q < 0 then (- 1, f) else (0, f\<lparr>f_pos := nat q\<rparr>))"

section \<open>The file stream\<close>

record sqfile =
  handle :: "cfile option"
  owns :: bool

definition file_Read :: "int \<Rightarrow> sqfile \<Rightarrow> (int \<times> byte list \<times> sqfile) outcome" where
  "file_Read n s =
     andthen (of_opt NullDeref (handle s)) (\<lambda>f. andthen (c_fread n f) (\<lambda>(m, data, f'). Inr (m, data, s\<lparr>handle := Some f'\<rparr>)))"

definition file_Write :: "byte list \<Rightarrow> sqfile \<Rightarrow> (int \<times> sqfile) outcome" where
  "file_Write data s =
     andthen (of_opt NullDeref (handle s)) (\<lambda>f. let (n, f') = c_fwrite data f in Inr (n, s\<lparr>handle := Some f'\<rparr>))"

definition file_Seek :: "int \<Rightarrow> seek_origin \<Rightarrow> sqfile \<Rightarrow> (int \<times> sqfile) outcome" where
  "file_Seek ofs origin s =
     andthen (of_opt NullDeref (handle s)) (\<lambda>f. let (r, f') = c_fseek ofs origin f in Inr (r, s\<lparr>handle := Some f'\<rparr>))"

definition file_Tell :: "sqfile \<Rightarrow> int outcome" where
  "file_Tell s = andthen (of_opt NullDeref (handle s)) (\<lambda>f. Inr (int (f_pos f)))"

definition file_Len :: "sqfile \<Rightarrow> (int \<times> sqfile) outcome" where
  "file_Len s =
     andthen (file_Tell s) (\<lambda>prevpos. andthen (file_Seek 0 SQ_SEEK_END s) (\<lambda>(_, s1). andthen (file_Tell s1) (\<lambda>n.
       andthen (file_Seek prevpos SQ_SEEK_SET s1) (\<lambda>(_, s2). Inr (n, s2)))))"

definition file_EOS :: "sqfile \<Rightarrow> (bool \<times> sqfile) outcome" where
  "file_EOS s = andthen (file_Tell s) (\<lambda>p. andthen (file_Len s) (\<lambda>(n, s'). Inr (p = n, s')))"

definition file_Close :: "sqfile \<Rightarrow> sqfile" where
  "file_Close s = (if handle s \<noteq> None \<and> owns s then \<lparr>handle = None, owns = False\<rparr> else s)"

definition file_ops :: "sqfile stream_ops" where
  "file_ops =
     \<lparr>s_IsValid = (\<lambda>s. handle s \<noteq> None), s_Read = file_Read, s_Write = file_Write, s_Seek = file_Seek, s_Tell = file_Tell,
      s_Len = file_Len, s_EOS = file_EOS, s_Flush = (\<lambda>s. andthen (of_opt NullDeref (handle s)) (\<lambda>_. Inr 0))\<rparr>"

text \<open>
  The constructor: two strings open a file (\<open>fopen\<close>), a pointer is taken as an open file (\<open>ptr\<close>) that the
  object owns unless the third argument is null.
\<close>

definition u_file_constructor :: "(string \<Rightarrow> string \<Rightarrow> cfile option) \<Rightarrow> (32 word \<Rightarrow> cfile option) \<Rightarrow> sqobject \<Rightarrow> sqobject \<Rightarrow> sqfile option" where
  "u_file_constructor fopen ptr a m =
     (case (a, m) of
        (OT_STRING filename, OT_STRING mode) \<Rightarrow> map_option (\<lambda>f. \<lparr>handle = Some f, owns = True\<rparr>) (fopen filename mode)
      | (OT_USERPOINTER q, _) \<Rightarrow> Some \<lparr>handle = ptr q, owns = (m \<noteq> OT_NULL)\<rparr>
      | _ \<Rightarrow> None)"

definition u_file_close :: "sqfile \<Rightarrow> sqfile" where
  "u_file_close s = file_Close s"

section \<open>Feeding the compiler\<close>

definition IO_BUFFER_SIZE :: nat where
  "IO_BUFFER_SIZE = 2048"

record iobuffer =
  io_buffer :: "byte list"
  io_size :: int
  io_ptr :: int
  io_file :: cfile

text \<open>A read puts its bytes at the start of the buffer, where older bytes stay behind them.\<close>

definition refill :: "iobuffer \<Rightarrow> iobuffer outcome" where
  "refill io =
     andthen (c_fread (int IO_BUFFER_SIZE) (io_file io)) (\<lambda>(n, data, f).
       andthen (copy_in 0 data (io_buffer io)) (\<lambda>buf. Inr (io\<lparr>io_buffer := buf, io_size := n, io_file := f\<rparr>)))"

definition read_byte :: "iobuffer \<Rightarrow> (int \<times> iobuffer) outcome" where
  "read_byte io =
     (if io_ptr io < io_size io then
        andthen (copy_out (io_ptr io) 1 (io_buffer io)) (\<lambda>bs. Inr (uint (le_word bs :: byte), io\<lparr>io_ptr := io_ptr io + 1\<rparr>))
      else andthen (refill io) (\<lambda>io1.
        if io_size io1 > 0
        then andthen (copy_out 0 1 (io_buffer io1)) (\<lambda>bs. Inr (uint (le_word bs :: byte), io1\<lparr>io_ptr := 1\<rparr>))
        else Inr (0, io1)))"

text \<open>\<open>wchar_t\<close> has 16 bits; the second byte may be a stale one, or lie beyond the buffer.\<close>

definition read_two_bytes :: "iobuffer \<Rightarrow> (int \<times> iobuffer) outcome" where
  "read_two_bytes io =
     (if io_ptr io < io_size io then
        if io_size io < 2 then Inr (0, io)
        else andthen (copy_out (io_ptr io) 2 (io_buffer io)) (\<lambda>bs. Inr (uint (le_word bs :: 16 word), io\<lparr>io_ptr := io_ptr io + 2\<rparr>))
      else andthen (refill io) (\<lambda>io1.
        if io_size io1 > 0 then
          if io_size io1 < 2 then Inr (0, io1)
          else andthen (copy_out 0 2 (io_buffer io1)) (\<lambda>bs. Inr (uint (le_word bs :: 16 word), io1\<lparr>io_ptr := 2\<rparr>))
        else Inr (0, io1)))"

definition lexfeed_UCS2_BE :: "iobuffer \<Rightarrow> (int \<times> iobuffer) outcome" where
  "lexfeed_UCS2_BE io =
     andthen (read_two_bytes io) (\<lambda>(c, io'). Inr (if c > 0 then uint (swap_word (word_of_int c)) else 0, io'))"

datatype feed_kind = LexfeedPlain | LexfeedUCS2LE | LexfeedUCS2BE

definition lexfeed :: "feed_kind \<Rightarrow> iobuffer \<Rightarrow> (int \<times> iobuffer) outcome" where
  "lexfeed k = (case k of LexfeedPlain \<Rightarrow> read_byte | LexfeedUCS2LE \<Rightarrow> read_two_bytes | LexfeedUCS2BE \<Rightarrow> lexfeed_UCS2_BE)"

section \<open>Loading a file\<close>

definition SQ_BYTECODE_STREAM_TAG :: int where
  "SQ_BYTECODE_STREAM_TAG = 0xFAFA"

text \<open>
  The result is whether a closure was made; \<open>stack\<close> is what the stack buffer of the reader contains
  before it is used. Every branch closes the file.
\<close>

definition sqstd_loadfile :: "(feed_kind \<Rightarrow> iobuffer \<Rightarrow> bool) \<Rightarrow> (cfile \<Rightarrow> bool) \<Rightarrow> byte list \<Rightarrow> cfile option \<Rightarrow> bool outcome" where
  "sqstd_loadfile compile readclosure stack file =
     (case file of
        None \<Rightarrow> Inr False
      | Some f \<Rightarrow>
          andthen (c_fread 2 f) (\<lambda>(ret, bs, f1).
            let us = (if ret \<noteq> 2 then 0 else uint (le_word bs :: 16 word));
                run = (\<lambda>k f'. compile k \<lparr>io_buffer = stack, io_size = 0, io_ptr = 0, io_file = f'\<rparr>) in
            if us = SQ_BYTECODE_STREAM_TAG then Inr (readclosure (snd (c_fseek 0 SQ_SEEK_SET f1)))
            else if us = 0xFFFE then Inr (run LexfeedUCS2BE f1)
            else if us = 0xFEFF then Inr (run LexfeedUCS2LE f1)
            else if us = 0xBBEF then
              andthen (c_fread 1 f1) (\<lambda>(n, uc, f2).
                if n = 0 then Inr False else if uc \<noteq> [0xBF] then Inr False else Inr (run LexfeedPlain f2))
            else Inr (run LexfeedPlain (snd (c_fseek 0 SQ_SEEK_SET f1)))))"

section \<open>Files are streams\<close>

definition file_is :: "sqfile \<Rightarrow> byte list \<Rightarrow> nat \<Rightarrow> bool" where
  "file_is s xs p \<longleftrightarrow> handle s = Some \<lparr>f_bytes = xs, f_pos = p\<rparr> \<and> p \<le> length xs"

interpretation file_stream: byte_stream file_ops file_is "2 ^ 31 - 1"
proof
  fix s xs p data n q
  assume h: "file_is s xs p"
  show "s_IsValid file_ops s" using h by (simp add: file_ops_def file_is_def)
  show "p \<le> length xs" using h by (simp add: file_is_def)
  show "\<exists>s'. s_Write file_ops data s = Inr (int (length data), s') \<and> file_is s' (overwrite p data xs) (p + length data)"
    using h by (auto simp: file_ops_def file_is_def file_Write_def c_fwrite_def overwrite_length)
  show "\<exists>s'. s_Read file_ops (int n) s = Inr (int n, take n (drop p xs), s') \<and> file_is s' xs (p + n)" if "p + n \<le> length xs"
    using h that by (auto simp: file_ops_def file_is_def file_Read_def c_fread_def Let_def)
  show "\<exists>s'. s_Seek file_ops (int q) SQ_SEEK_SET s = Inr (0, s') \<and> file_is s' xs q" if "q \<le> length xs"
    using h that by (auto simp: file_ops_def file_is_def file_Seek_def c_fseek_def seek_target_def)
qed simp

text \<open>Asking a file for its length leaves its position where it was.\<close>

lemma file_Len_ok: "file_is s xs p \<Longrightarrow> file_Len s = Inr (int (length xs), s)"
  by (simp add: file_is_def file_Len_def file_Tell_def file_Seek_def c_fseek_def seek_target_def)

lemma file_string_round_trip:
  assumes "file_is s xs p" "length xs < 2 ^ 31" "p + length str < 2 ^ 31" "str \<noteq> []"
  shows "\<exists>s1 s2 s3. stream_writes file_ops str s = Inr (Reply (OT_INTEGER (of_nat (length str))), s1) \<and>
    stream_seek f2i file_ops (OT_INTEGER (of_nat p)) None s1 = Inr (Reply (OT_INTEGER 0), s2) \<and>
    stream_reads f2i file_ops (OT_INTEGER (of_nat (length str))) s2 = Inr (Reply (OT_STRING str), s3)"
  by (rule file_stream.string_round_trip [OF assms(1) _ _ assms(4)]) (use assms(2,3) in \<open>auto simp: file_Len_ok file_ops_def\<close>)

section \<open>What the compiler reads\<close>

definition feeds :: "iobuffer \<Rightarrow> byte list \<Rightarrow> bool" where
  "feeds io rest \<longleftrightarrow> length (io_buffer io) = IO_BUFFER_SIZE \<and> 0 \<le> io_ptr io \<and> io_size io \<le> int IO_BUFFER_SIZE \<and>
     rest = drop (nat (io_ptr io)) (take (nat (io_size io)) (io_buffer io)) @ drop (f_pos (io_file io)) (f_bytes (io_file io))"

fun feed_spec :: "unit \<Rightarrow> byte list \<Rightarrow> int \<times> byte list" where
  "feed_spec _ [] = (0, [])"
| "feed_spec _ (x # xs) = (uint x, xs)"

lemma le_word_byte [simp]: "le_word [b] = (b :: byte)"
  by simp

lemma refill_reads:
  assumes "length (io_buffer io) = IO_BUFFER_SIZE" "drop (f_pos (io_file io)) (f_bytes (io_file io)) = rest"
  shows "\<exists>f. refill io = Inr (io\<lparr>io_buffer := take IO_BUFFER_SIZE rest @ drop (length (take IO_BUFFER_SIZE rest)) (io_buffer io),
      io_size := int (length (take IO_BUFFER_SIZE rest)), io_file := f\<rparr>) \<and>
    drop (f_pos f) (f_bytes f) = drop IO_BUFFER_SIZE rest"
proof -
  let ?d = "take IO_BUFFER_SIZE rest"
  have c: "copy_in 0 ?d (io_buffer io) = Inr (?d @ drop (length ?d) (io_buffer io))"
    using copy_in_ok [of 0 ?d "io_buffer io"] assms(1) by (simp add: overwrite_def)
  let ?f = "(io_file io)\<lparr>f_pos := f_pos (io_file io) + length ?d\<rparr>"
  have "drop (f_pos ?f) (f_bytes ?f) = drop (length ?d) rest" using assms(2) by (simp add: drop_drop add.commute flip: assms(2))
  also have "\<dots> = drop IO_BUFFER_SIZE rest" by (simp add: min_def)
  finally show ?thesis using c assms(2) by (intro exI [of _ ?f]) (simp add: refill_def c_fread_def Let_def)
qed

lemma read_byte_ok:
  assumes "feeds io rest"
  shows "\<exists>io'. read_byte io = Inr (fst (feed_spec () rest), io') \<and> feeds io' (snd (feed_spec () rest))"
proof (cases "io_ptr io < io_size io")
  case True
  let ?p = "nat (io_ptr io)" and ?n = "nat (io_size io)"
  have b: "?p < ?n" "?n \<le> length (io_buffer io)" "io_ptr io = int ?p" using assms True by (auto simp: feeds_def)
  have "drop ?p (take ?n (io_buffer io)) = io_buffer io ! ?p # drop (Suc ?p) (take ?n (io_buffer io))"
    using b Cons_nth_drop_Suc [of ?p "take ?n (io_buffer io)"] by simp
  then have r: "rest = io_buffer io ! ?p # drop (Suc ?p) (take ?n (io_buffer io)) @ drop (f_pos (io_file io)) (f_bytes (io_file io))"
    using assms by (simp add: feeds_def)
  have "copy_out (io_ptr io) 1 (io_buffer io) = Inr [io_buffer io ! ?p]"
    using copy_out_ok [of ?p 1 "io_buffer io"] b by (simp add: take_Suc hd_drop_conv_nth)
  then have "read_byte io = Inr (uint (io_buffer io ! ?p), io\<lparr>io_ptr := io_ptr io + 1\<rparr>)"
    using True unfolding read_byte_def by (simp del: le_word.simps)
  moreover have "nat (io_ptr io + 1) = Suc ?p" "0 \<le> io_ptr io + 1" using assms by (auto simp: feeds_def)
  then have "feeds (io\<lparr>io_ptr := io_ptr io + 1\<rparr>) (snd (feed_spec () rest))"
    using assms r by (simp add: feeds_def)
  ultimately show ?thesis by (simp add: r)
next
  case False
  then have r: "drop (f_pos (io_file io)) (f_bytes (io_file io)) = rest" and l: "length (io_buffer io) = IO_BUFFER_SIZE"
    using assms by (auto simp: feeds_def)
  let ?d = "take IO_BUFFER_SIZE rest"
  let ?buf = "?d @ drop (length ?d) (io_buffer io)"
  from refill_reads [OF l r] obtain f where
    f: "refill io = Inr (io\<lparr>io_buffer := ?buf, io_size := int (length ?d), io_file := f\<rparr>)"
      "drop (f_pos f) (f_bytes f) = drop IO_BUFFER_SIZE rest" by blast
  have lb: "length ?buf = IO_BUFFER_SIZE" using l by simp
  show ?thesis
  proof (cases rest)
    case Nil
    then show ?thesis using False f assms l by (auto simp: read_byte_def feeds_def)
  next
    case (Cons x xs)
    have d: "?d = x # take (IO_BUFFER_SIZE - 1) xs" by (simp add: Cons IO_BUFFER_SIZE_def take_Cons')
    have "copy_out 0 1 ?buf = Inr [x]" using copy_out_ok [of 0 1 ?buf] by (simp add: d)
    then have "read_byte io = Inr (uint x, io\<lparr>io_buffer := ?buf, io_size := int (length ?d), io_file := f, io_ptr := 1\<rparr>)"
      using False f(1) unfolding read_byte_def by (simp add: d del: le_word.simps)
    moreover have "feeds (io\<lparr>io_buffer := ?buf, io_size := int (length ?d), io_file := f, io_ptr := 1\<rparr>) xs"
    proof -
      have "drop 1 (take (length ?d) ?buf) @ drop (f_pos f) (f_bytes f) = drop 1 (?d @ drop IO_BUFFER_SIZE rest)" by (simp add: f(2) d min_def)
      also have "\<dots> = xs" by (simp add: Cons)
      finally show ?thesis using lb by (simp add: feeds_def)
    qed
    ultimately show ?thesis by (simp add: Cons)
  qed
qed

interpretation feeding: simulation feeds "\<lambda>_. read_byte" feed_spec "\<lambda>_. True"
  by unfold_locales (simp add: read_byte_ok)

lemma feed_spec_all: "fst (spec_all feed_spec (replicate n ()) xs) = take n (map uint xs) @ replicate (n - length xs) 0"
proof (induction n arbitrary: xs)
  case (Suc n)
  then show ?case by (cases xs) (simp_all add: Let_def split_beta)
qed simp

lemma all_within_True: "all_within (\<lambda>_. True) spec ops a"
  by (induction ops arbitrary: a) auto

lemma two_bytes:
  "ucast (le_word [a, b] :: 16 word) = (a :: byte)" "ucast (drop_bit 8 (le_word [a, b] :: 16 word)) = (b :: byte)"
  by (rule bit_word_eqI, auto simp: bit_simps dest: bit_imp_le_length)+

lemma two_bytes_eq:
  assumes "uint (le_word bs :: 16 word) = n" "length bs = 2"
  shows "bs = [ucast (word_of_int n :: 16 word), ucast (drop_bit 8 (word_of_int n :: 16 word))]"
proof -
  from assms(2) obtain a b where bs: "bs = [a, b]" by (auto simp: length_Suc_conv numeral_2_eq_2)
  have "word_of_int n = (le_word bs :: 16 word)" by (simp flip: assms(1))
  then show ?thesis unfolding bs by (simp only: two_bytes)
qed

text \<open>
  C32. The compiler reads a file as it is. For a file without a mark, or with the three bytes that mark
  UTF-8, \<open>sqstd_loadfile\<close> starts the compiler on a reader that returns the bytes behind the mark one
  by one, over every refill of its buffer, and then zeros, however often it is called.
\<close>

theorem loadfile_feeds_text:
  assumes "length stack = IO_BUFFER_SIZE"
    and "mark = [0xEF, 0xBB, 0xBF] \<or> mark = [] \<and> take 2 text \<notin> {[0xFA, 0xFA], [0xFE, 0xFF], [0xFF, 0xFE], [0xEF, 0xBB]}"
  shows "\<exists>io. sqstd_loadfile compile readclosure stack (Some \<lparr>f_bytes = mark @ text, f_pos = 0\<rparr>) = Inr (compile LexfeedPlain io) \<and>
    (\<forall>n. \<exists>io'. run_all (\<lambda>_. read_byte) (replicate n ()) io = Inr (take n (map uint text) @ replicate (n - length text) 0, io'))"
proof -
  define io where "io = \<lparr>io_buffer = stack, io_size = 0, io_ptr = 0, io_file = \<lparr>f_bytes = mark @ text, f_pos = length mark\<rparr>\<rparr>"
  have io: "feeds io text" using assms(1) by (simp add: io_def feeds_def)
  have run: "\<exists>io'. run_all (\<lambda>_. read_byte) (replicate n ()) io = Inr (take n (map uint text) @ replicate (n - length text) 0, io')" for n
    using feeding.run_all_simulates [OF io all_within_True, of "replicate n ()"] by (auto simp: feed_spec_all)
  have "sqstd_loadfile compile readclosure stack (Some \<lparr>f_bytes = mark @ text, f_pos = 0\<rparr>) = Inr (compile LexfeedPlain io)"
    using assms(2)
  proof
    assume m: "mark = [0xEF, 0xBB, 0xBF]"
    have w: "uint (le_word [0xEF, 0xBB] :: 16 word) = 0xBBEF" by simp
    have "c_fread 2 \<lparr>f_bytes = mark @ text, f_pos = 0\<rparr> = Inr (2, [0xEF, 0xBB], \<lparr>f_bytes = mark @ text, f_pos = 2\<rparr>)"
      by (simp add: c_fread_def m)
    moreover have "c_fread 1 \<lparr>f_bytes = mark @ text, f_pos = 2\<rparr> = Inr (1, [0xBF], \<lparr>f_bytes = mark @ text, f_pos = length mark\<rparr>)"
      by (simp add: c_fread_def m)
    ultimately show ?thesis by (simp add: sqstd_loadfile_def SQ_BYTECODE_STREAM_TAG_def io_def w del: le_word.simps)
  next
    assume m: "mark = [] \<and> take 2 text \<notin> {[0xFA, 0xFA], [0xFE, 0xFF], [0xFF, 0xFE], [0xEF, 0xBB]}"
    define d where "d = take 2 text"
    define us where "us = (if int (length d) \<noteq> 2 then 0 else uint (le_word d :: 16 word))"
    have "us \<noteq> n" if "n \<in> {0xFAFA, 0xFFFE, 0xFEFF, 0xBBEF}" for n
    proof
      assume e: "us = n"
      then have "length d = 2" "uint (le_word d :: 16 word) = n" using that by (auto simp: us_def split: if_splits)
      from two_bytes_eq [OF this(2,1)] that m show False by (auto simp: d_def)
    qed
    then have u: "us \<noteq> 0xFAFA" "us \<noteq> 0xFFFE" "us \<noteq> 0xFEFF" "us \<noteq> 0xBBEF" by auto
    have r: "c_fread 2 \<lparr>f_bytes = mark @ text, f_pos = 0\<rparr> = Inr (int (length d), d, \<lparr>f_bytes = mark @ text, f_pos = length d\<rparr>)"
      using m by (simp add: c_fread_def d_def)
    show ?thesis using m u unfolding sqstd_loadfile_def option.case r andthen_simps prod.case Let_def us_def [symmetric]
      by (simp add: io_def SQ_BYTECODE_STREAM_TAG_def c_fseek_def seek_target_def)
  qed
  then show ?thesis using run by blast
qed

theorem loadfile_feeds_text_witness:
  "\<exists>io. sqstd_loadfile (\<lambda>_ _. True) (\<lambda>_. False) (replicate 2048 9) (Some \<lparr>f_bytes = [0xEF, 0xBB, 0xBF] @ [65, 66], f_pos = 0\<rparr>) = Inr True \<and>
    (\<forall>n. \<exists>io'. run_all (\<lambda>_. read_byte) (replicate n ()) io = Inr (take n (map uint [65, 66 :: byte]) @ replicate (n - length [65, 66 :: byte]) 0, io'))"
  by (rule loadfile_feeds_text) (simp_all add: IO_BUFFER_SIZE_def)

end
