(* ===== verification/Arith.thy ===== *)
theory Arith
  imports HeapSort IniFile
begin

text \<open>
  Arithmetic of the virtual machine (\<open>utility/sqvm.cpp\<close>): the type tags with their bit masks, the
  operations \<open>ARITH_OP\<close>, \<open>BW_OP\<close>, \<open>NEG_OP\<close> and \<open>CMP_OP\<close>, conversion to strings, and the instructions that
  use them. Arithmetic on floats, the printing of floats and addresses and the calls of
  metamethods are parameters. Integer operations wrap around, and the machine takes a shift amount
  modulo 32.
\<close>

unbundle bit_operations_syntax

section \<open>Type tags\<close>

fun sq_type :: "sqobject \<Rightarrow> 32 word" where
  "sq_type OT_NULL = 0x01000001"
| "sq_type (OT_INTEGER _) = 0x05000002"
| "sq_type (OT_FLOAT _) = 0x05000004"
| "sq_type (OT_BOOL _) = 0x01000008"
| "sq_type (OT_STRING _) = 0x08000010"
| "sq_type (OT_TABLE _) = 0x0A000020"
| "sq_type (OT_ARRAY _) = 0x08000040"
| "sq_type (OT_USERDATA _) = 0x0A000080"
| "sq_type (OT_CLOSURE _) = 0x08000100"
| "sq_type (OT_NATIVECLOSURE _) = 0x08000200"
| "sq_type (OT_GENERATOR _) = 0x08000400"
| "sq_type (OT_USERPOINTER _) = 0x00000800"
| "sq_type (OT_THREAD _) = 0x08001000"
| "sq_type (OT_FUNCPROTO _) = 0x08002000"
| "sq_type (OT_CLASS _) = 0x08004000"
| "sq_type (OT_INSTANCE _) = 0x0A008000"
| "sq_type (OT_WEAKREF _) = 0x08010000"
| "sq_type (OT_OUTER _) = 0x08020000"

definition TAG_INTEGER :: "32 word" where "TAG_INTEGER = 0x05000002"
definition TAG_FLOAT :: "32 word" where "TAG_FLOAT = 0x05000004"
definition RT_STRING :: "32 word" where "RT_STRING = 0x00000010"
definition SQOBJECT_DELEGABLE :: "32 word" where "SQOBJECT_DELEGABLE = 0x02000000"

definition is_delegable :: "sqobject \<Rightarrow> bool" where
  "is_delegable ob \<longleftrightarrow> sq_type ob AND SQOBJECT_DELEGABLE \<noteq> 0"

fun GetTypeName :: "sqobject \<Rightarrow> string" where
  "GetTypeName OT_NULL = ''null''"
| "GetTypeName (OT_INTEGER _) = ''integer''"
| "GetTypeName (OT_FLOAT _) = ''float''"
| "GetTypeName (OT_BOOL _) = ''bool''"
| "GetTypeName (OT_STRING _) = ''string''"
| "GetTypeName (OT_TABLE _) = ''table''"
| "GetTypeName (OT_ARRAY _) = ''array''"
| "GetTypeName (OT_GENERATOR _) = ''generator''"
| "GetTypeName (OT_CLOSURE _) = ''function''"
| "GetTypeName (OT_NATIVECLOSURE _) = ''function''"
| "GetTypeName (OT_USERDATA _) = ''userdata''"
| "GetTypeName (OT_USERPOINTER _) = ''userdata''"
| "GetTypeName (OT_THREAD _) = ''thread''"
| "GetTypeName (OT_FUNCPROTO _) = ''function''"
| "GetTypeName (OT_CLASS _) = ''class''"
| "GetTypeName (OT_INSTANCE _) = ''instance''"
| "GetTypeName (OT_WEAKREF _) = ''weakref''"
| "GetTypeName (OT_OUTER _) = ''outer''"

section \<open>Strings of values\<close>

text \<open>
  \<open>fop\<close> is a float operation by its character, \<open>fneg\<close> negation, \<open>fmtg\<close> the text of a float, \<open>fmtp\<close> that of an
  object by its type name. A metamethod (\<open>meta1\<close>, \<open>meta2\<close>) is absent (\<open>None\<close>), fails (\<open>Some None\<close>) or gives a value.
\<close>

record vm_env =
  fop :: "char \<Rightarrow> 32 word \<Rightarrow> 32 word \<Rightarrow> 32 word"
  fneg :: "32 word \<Rightarrow> 32 word"
  int2float :: "32 word \<Rightarrow> 32 word"
  fmtg :: "32 word \<Rightarrow> string"
  fmtp :: "string \<Rightarrow> sqobject \<Rightarrow> string"
  meta1 :: "string \<Rightarrow> sqobject \<Rightarrow> sqobject option option"
  meta2 :: "char \<Rightarrow> sqobject \<Rightarrow> sqobject \<Rightarrow> sqobject option option"

definition ToString :: "vm_env \<Rightarrow> sqobject \<Rightarrow> string option" where
  "ToString e ob =
     (case ob of
        OT_STRING s \<Rightarrow> Some s
      | OT_FLOAT x \<Rightarrow> Some (fmtg e x)
      | OT_INTEGER i \<Rightarrow> Some (long2str (sint i))
      | OT_BOOL b \<Rightarrow> Some (if b then ''true'' else ''false'')
      | _ \<Rightarrow>
          if is_delegable ob then
            (case meta1 e ''_tostring'' ob of
               None \<Rightarrow> Some (fmtp e (GetTypeName ob) ob)
             | Some None \<Rightarrow> None
             | Some (Some (OT_STRING s)) \<Rightarrow> Some s
             | Some (Some _) \<Rightarrow> Some (fmtp e (GetTypeName ob) ob))
          else Some (fmtp e (GetTypeName ob) ob))"

definition StringCat :: "vm_env \<Rightarrow> sqobject \<Rightarrow> sqobject \<Rightarrow> sqobject option" where
  "StringCat e str ob =
     (case ToString e str of
        None \<Rightarrow> None
      | Some a \<Rightarrow> (case ToString e ob of None \<Rightarrow> None | Some b \<Rightarrow> Some (OT_STRING (a @ b))))"

section \<open>Operations\<close>

fun tofloat :: "vm_env \<Rightarrow> sqobject \<Rightarrow> 32 word" where
  "tofloat e (OT_INTEGER i) = int2float e i"
| "tofloat e (OT_FLOAT x) = x"
| "tofloat e _ = 0"

fun int_of :: "sqobject \<Rightarrow> 32 word" where
  "int_of (OT_INTEGER i) = i"
| "int_of _ = 0"

text \<open>Division of C truncates towards zero.\<close>

definition c_div :: "int \<Rightarrow> int \<Rightarrow> int" where
  "c_div a b = sgn a * sgn b * (\<bar>a\<bar> div \<bar>b\<bar>)"

definition c_mod :: "int \<Rightarrow> int \<Rightarrow> int" where
  "c_mod a b = a - b * c_div a b"

text \<open>An operation without a result has raised an error.\<close>

definition int_arith :: "char \<Rightarrow> 32 word \<Rightarrow> 32 word \<Rightarrow> (32 word) option" where
  "int_arith p i1 i2 =
     (if p = CHR ''+'' then Some (i1 + i2)
      else if p = CHR ''-'' then Some (i1 - i2)
      else if p = CHR ''/'' then
        if i2 = 0 then None else if i2 = - 1 \<and> sint i1 = - (2 ^ 31) then None
        else Some (word_of_int (c_div (sint i1) (sint i2)))
      else if p = CHR ''*'' then Some (i1 * i2)
      else if p = CHR ''%'' then
        if i2 = 0 then None else if i2 = - 1 \<and> sint i1 = - (2 ^ 31) then Some 0
        else Some (word_of_int (c_mod (sint i1) (sint i2)))
      else Some 0xDEADBEEF)"

definition ArithMetaMethod :: "vm_env \<Rightarrow> char \<Rightarrow> sqobject \<Rightarrow> sqobject \<Rightarrow> sqobject option" where
  "ArithMetaMethod e p o1 o2 =
     (if is_delegable o1 then (case meta2 e p o1 o2 of None \<Rightarrow> None | Some r \<Rightarrow> r) else None)"

definition ARITH_OP :: "vm_env \<Rightarrow> char \<Rightarrow> sqobject \<Rightarrow> sqobject \<Rightarrow> sqobject option" where
  "ARITH_OP e p o1 o2 =
     (let tmask = sq_type o1 OR sq_type o2 in
      if tmask = TAG_INTEGER then map_option OT_INTEGER (int_arith p (int_of o1) (int_of o2))
      else if tmask = TAG_FLOAT OR TAG_INTEGER \<or> tmask = TAG_FLOAT
      then Some (OT_FLOAT (if p \<in> {CHR ''+'', CHR ''-'', CHR ''/'', CHR ''*'', CHR ''%''} then fop e p (tofloat e o1) (tofloat e o2)
             else int2float e 0x0F))
      else if p = CHR ''+'' \<and> tmask AND RT_STRING \<noteq> 0 then StringCat e o1 o2
      else ArithMetaMethod e p o1 o2)"

datatype bw_op = BW_AND | BW_OR | BW_XOR | BW_SHIFTL | BW_SHIFTR | BW_USHIFTR

definition BW_OP :: "bw_op \<Rightarrow> sqobject \<Rightarrow> sqobject \<Rightarrow> sqobject option" where
  "BW_OP p o1 o2 =
     (if sq_type o1 OR sq_type o2 = TAG_INTEGER then
        let i1 = int_of o1; i2 = int_of o2; n = unat i2 mod 32 in
        Some (OT_INTEGER (case p of
            BW_AND \<Rightarrow> i1 AND i2
          | BW_OR \<Rightarrow> i1 OR i2
          | BW_XOR \<Rightarrow> i1 XOR i2
          | BW_SHIFTL \<Rightarrow> push_bit n i1
          | BW_SHIFTR \<Rightarrow> signed_drop_bit n i1
          | BW_USHIFTR \<Rightarrow> drop_bit n i1))
      else None)"

definition NEG_OP :: "vm_env \<Rightarrow> sqobject \<Rightarrow> sqobject option" where
  "NEG_OP e ob =
     (case ob of
        OT_INTEGER i \<Rightarrow> Some (OT_INTEGER (- i))
      | OT_FLOAT x \<Rightarrow> Some (OT_FLOAT (fneg e x))
      | _ \<Rightarrow> if is_delegable ob then (case meta1 e ''_unm'' ob of None \<Rightarrow> None | Some r \<Rightarrow> r) else None)"

datatype cmp_op = CMP_G | CMP_GE | CMP_L | CMP_LE | CMP_3W

definition CMP_OP :: "float_ops \<Rightarrow> metacall \<Rightarrow> cmp_op \<Rightarrow> sqobject \<Rightarrow> sqobject \<Rightarrow> elems \<Rightarrow> sqobject option \<times> elems" where
  "CMP_OP fo meta p o1 o2 vals =
     (case ObjCmp fo meta o1 o2 vals of
        (r, vals') \<Rightarrow>
          (map_option (\<lambda>r. case p of
             CMP_G \<Rightarrow> OT_BOOL (sint r > 0)
           | CMP_GE \<Rightarrow> OT_BOOL (sint r \<ge> 0)
           | CMP_L \<Rightarrow> OT_BOOL (sint r < 0)
           | CMP_LE \<Rightarrow> OT_BOOL (sint r \<le> 0)
           | CMP_3W \<Rightarrow> OT_INTEGER r) r, vals'))"

definition PLOCAL_INC :: "vm_env \<Rightarrow> char \<Rightarrow> sqobject \<Rightarrow> sqobject \<Rightarrow> (sqobject \<times> sqobject) option" where
  "PLOCAL_INC e p a incr = map_option (\<lambda>trg. (a, trg)) (ARITH_OP e p a incr)"

section \<open>Instructions\<close>

text \<open>An instruction leaves a value in its target register or jumps to the exception handler.\<close>

datatype instr_result = Target sqobject | Trap

definition guard :: "sqobject option \<Rightarrow> instr_result" where
  "guard r = (case r of None \<Rightarrow> Trap | Some x \<Rightarrow> Target x)"

definition arith_macro :: "vm_env \<Rightarrow> char \<Rightarrow> (32 word \<Rightarrow> 32 word \<Rightarrow> 32 word) \<Rightarrow> sqobject \<Rightarrow> sqobject \<Rightarrow> instr_result" where
  "arith_macro e p f o1 o2 =
     (let tmask = sq_type o1 OR sq_type o2 in
      if tmask = TAG_INTEGER then Target (OT_INTEGER (f (int_of o1) (int_of o2)))
      else if tmask = TAG_FLOAT OR TAG_INTEGER \<or> tmask = TAG_FLOAT
      then Target (OT_FLOAT (fop e p (tofloat e o1) (tofloat e o2)))
      else guard (ARITH_OP e p o1 o2))"

definition arith_macro_nozero :: "vm_env \<Rightarrow> char \<Rightarrow> (32 word \<Rightarrow> 32 word \<Rightarrow> 32 word) \<Rightarrow> sqobject \<Rightarrow> sqobject \<Rightarrow> instr_result" where
  "arith_macro_nozero e p f o1 o2 =
     (if sq_type o1 OR sq_type o2 = TAG_INTEGER \<and> int_of o2 = 0 then Trap else arith_macro e p f o1 o2)"

datatype arith_instr = OP_ADD | OP_SUB | OP_MUL | OP_DIV | OP_MOD

fun instr_char :: "arith_instr \<Rightarrow> char" where
  "instr_char OP_ADD = CHR ''+''"
| "instr_char OP_SUB = CHR ''-''"
| "instr_char OP_MUL = CHR ''*''"
| "instr_char OP_DIV = CHR ''/''"
| "instr_char OP_MOD = CHR ''%''"

text \<open>\<open>trg\<close> is the old value of the target register, which a failing \<open>_OP_MOD\<close> keeps.\<close>

fun arith_step :: "vm_env \<Rightarrow> arith_instr \<Rightarrow> sqobject \<Rightarrow> sqobject \<Rightarrow> sqobject \<Rightarrow> instr_result" where
  "arith_step e OP_ADD trg o1 o2 = arith_macro e (CHR ''+'') (+) o1 o2"
| "arith_step e OP_SUB trg o1 o2 = arith_macro e (CHR ''-'') (-) o1 o2"
| "arith_step e OP_MUL trg o1 o2 = arith_macro e (CHR ''*'') (*) o1 o2"
| "arith_step e OP_DIV trg o1 o2 = arith_macro_nozero e (CHR ''/'') (\<lambda>a b. word_of_int (c_div (sint a) (sint b))) o1 o2"
| "arith_step e OP_MOD trg o1 o2 = Target (case ARITH_OP e (CHR ''%'') o1 o2 of None \<Rightarrow> trg | Some r \<Rightarrow> r)"

text \<open>Incrementing a local variable, with the fast path for integers (\<open>_OP_INCL\<close>, \<open>_OP_PINCL\<close>).\<close>

definition incl_step :: "vm_env \<Rightarrow> 8 word \<Rightarrow> sqobject \<Rightarrow> instr_result" where
  "incl_step e sarg3 a =
     (case a of
        OT_INTEGER i \<Rightarrow> Target (OT_INTEGER (i + scast sarg3))
      | _ \<Rightarrow> arith_macro e (CHR ''+'') (+) a (OT_INTEGER (scast sarg3)))"

definition pincl_step :: "vm_env \<Rightarrow> 8 word \<Rightarrow> sqobject \<Rightarrow> (sqobject \<times> sqobject) option" where
  "pincl_step e sarg3 a =
     (case a of
        OT_INTEGER i \<Rightarrow> Some (a, OT_INTEGER (i + scast sarg3))
      | _ \<Rightarrow> PLOCAL_INC e (CHR ''+'') a (OT_INTEGER (scast sarg3)))"

definition bwnot_step :: "sqobject \<Rightarrow> instr_result" where
  "bwnot_step a = (case a of OT_INTEGER i \<Rightarrow> Target (OT_INTEGER (NOT i)) | _ \<Rightarrow> Trap)"

section \<open>Laws\<close>

lemma sint_inject32: "sint (a :: 32 word) = sint b \<longleftrightarrow> a = b"
proof
  assume "sint a = sint b"
  then have "word_of_int (sint a) = (word_of_int (sint b) :: 32 word)" by (rule arg_cong)
  then show "a = b" by simp
qed simp

text \<open>Comparison of integers is that of their signed values.\<close>

lemma CMP_OP_integers:
  "CMP_OP fo meta CMP_L (OT_INTEGER a) (OT_INTEGER b) vals = (Some (OT_BOOL (sint a < sint b)), vals)"
  "CMP_OP fo meta CMP_GE (OT_INTEGER a) (OT_INTEGER b) vals = (Some (OT_BOOL (sint a \<ge> sint b)), vals)"
  "CMP_OP fo meta CMP_G (OT_INTEGER a) (OT_INTEGER b) vals = (Some (OT_BOOL (sint a > sint b)), vals)"
  "CMP_OP fo meta CMP_LE (OT_INTEGER a) (OT_INTEGER b) vals = (Some (OT_BOOL (sint a \<le> sint b)), vals)"
  using sint_inject32 [of a b] by (auto simp: CMP_OP_def ObjCmp_def)

text \<open>The masks tell the operand types apart.\<close>

lemma or_within: "a OR b = m \<Longrightarrow> a AND NOT m = 0 \<and> b AND NOT m = 0" for a b m :: "32 word"
  by (auto simp: bit_eq_iff bit_simps)

definition integer_object :: "sqobject \<Rightarrow> bool" where
  "integer_object ob \<longleftrightarrow> (case ob of OT_INTEGER _ \<Rightarrow> True | _ \<Rightarrow> False)"

lemma sq_isnumeric_iff: "sq_isnumeric ob \<longleftrightarrow> (\<exists>i. ob = OT_INTEGER i) \<or> (\<exists>x. ob = OT_FLOAT x)"
  by (cases ob) simp_all

lemma integer_object_iff: "integer_object ob \<longleftrightarrow> (\<exists>i. ob = OT_INTEGER i)"
  by (cases ob) (simp_all add: integer_object_def)

lemma tag_within_integer: "sq_type ob AND NOT TAG_INTEGER = 0 \<longleftrightarrow> integer_object ob"
  by (cases ob) (simp_all add: TAG_INTEGER_def integer_object_def)

lemma tag_within_numeric: "sq_type ob AND NOT (TAG_FLOAT OR TAG_INTEGER) = 0 \<longleftrightarrow> sq_isnumeric ob"
  by (cases ob) (simp_all add: TAG_INTEGER_def TAG_FLOAT_def)

lemma tag_within_float: "sq_type ob AND NOT TAG_FLOAT = 0 \<longleftrightarrow> sq_isnumeric ob \<and> \<not> integer_object ob"
  by (cases ob) (simp_all add: TAG_FLOAT_def integer_object_def)

lemma tags_of_integers: "sq_type o1 OR sq_type o2 = TAG_INTEGER \<longleftrightarrow> integer_object o1 \<and> integer_object o2"
proof
  assume "sq_type o1 OR sq_type o2 = TAG_INTEGER"
  from or_within [OF this] show "integer_object o1 \<and> integer_object o2" by (simp add: tag_within_integer)
next
  assume "integer_object o1 \<and> integer_object o2"
  then show "sq_type o1 OR sq_type o2 = TAG_INTEGER"
    by (auto simp: integer_object_def TAG_INTEGER_def split: sqobject.splits)
qed

lemma tags_of_floats:
  "sq_type o1 OR sq_type o2 = TAG_FLOAT OR TAG_INTEGER \<or> sq_type o1 OR sq_type o2 = TAG_FLOAT \<longleftrightarrow>
   sq_isnumeric o1 \<and> sq_isnumeric o2 \<and> \<not> (integer_object o1 \<and> integer_object o2)"
  (is "?mixed \<or> ?floats \<longleftrightarrow> _")
proof
  assume m: "?mixed \<or> ?floats"
  then have "sq_isnumeric o1 \<and> sq_isnumeric o2"
    using or_within [of "sq_type o1" "sq_type o2"] by (metis tag_within_numeric tag_within_float)
  moreover have "sq_type o1 OR sq_type o2 \<noteq> TAG_INTEGER"
    using m by (auto simp: TAG_FLOAT_def TAG_INTEGER_def)
  ultimately show "sq_isnumeric o1 \<and> sq_isnumeric o2 \<and> \<not> (integer_object o1 \<and> integer_object o2)"
    by (simp add: tags_of_integers)
next
  assume "sq_isnumeric o1 \<and> sq_isnumeric o2 \<and> \<not> (integer_object o1 \<and> integer_object o2)"
  then consider i x where "o1 = OT_INTEGER i" "o2 = OT_FLOAT x" | i x where "o1 = OT_FLOAT x" "o2 = OT_INTEGER i"
    | x y where "o1 = OT_FLOAT x" "o2 = OT_FLOAT y"
    by (auto simp: sq_isnumeric_iff integer_object_iff)
  then show "?mixed \<or> ?floats" by cases (simp_all add: TAG_FLOAT_def TAG_INTEGER_def)
qed

lemma ARITH_OP_integers [simp]: "ARITH_OP e p (OT_INTEGER a) (OT_INTEGER b) = map_option OT_INTEGER (int_arith p a b)"
  by (simp add: ARITH_OP_def TAG_INTEGER_def)

lemma ARITH_OP_mixed:
  "sq_isnumeric o1 \<Longrightarrow> sq_isnumeric o2 \<Longrightarrow> \<not> (integer_object o1 \<and> integer_object o2) \<Longrightarrow>
   p \<in> {CHR ''+'', CHR ''-'', CHR ''/'', CHR ''*'', CHR ''%''} \<Longrightarrow>
   ARITH_OP e p o1 o2 = Some (OT_FLOAT (fop e p (tofloat e o1) (tofloat e o2)))"
  unfolding ARITH_OP_def Let_def tags_of_integers tags_of_floats by simp

lemma ARITH_OP_others:
  "\<not> (sq_isnumeric o1 \<and> sq_isnumeric o2) \<Longrightarrow>
   ARITH_OP e p o1 o2 =
     (if p = CHR ''+'' \<and> (sq_type o1 OR sq_type o2) AND RT_STRING \<noteq> 0 then StringCat e o1 o2 else ArithMetaMethod e p o1 o2)"
  unfolding ARITH_OP_def Let_def tags_of_integers tags_of_floats
  by (auto simp: sq_isnumeric_iff integer_object_iff)

lemma string_tag: "sq_type ob AND RT_STRING \<noteq> 0 \<longleftrightarrow> (\<exists>s. ob = OT_STRING s)"
  by (cases ob) (simp_all add: RT_STRING_def)

lemma string_tags:
  "(sq_type o1 OR sq_type o2) AND RT_STRING \<noteq> 0 \<longleftrightarrow> (\<exists>s. o1 = OT_STRING s) \<or> (\<exists>s. o2 = OT_STRING s)"
  unfolding string_tag [symmetric] by (simp add: bit.conj_disj_distrib2 or_eq_0_iff)

lemma minimum_word: "sint (a :: 32 word) = - 2147483648 \<longleftrightarrow> a = 0x80000000"
proof
  assume "sint a = - 2147483648"
  then have "word_of_int (sint a) = (word_of_int (- 2147483648) :: 32 word)" by simp
  then show "a = 0x80000000" by simp
qed simp

lemma int_arith_fails:
  "int_arith p a b = None \<longleftrightarrow>
     (p = CHR ''/'' \<or> p = CHR ''%'') \<and> b = 0 \<or> p = CHR ''/'' \<and> a = 0x80000000 \<and> b = - 1"
  by (auto simp: int_arith_def minimum_word)


definition sample_env :: vm_env where
  "sample_env = \<lparr>fop = \<lambda>_ a b. a + b, fneg = \<lambda>x. x, int2float = \<lambda>x. x, fmtg = \<lambda>_. [], fmtp = \<lambda>_ _. [], meta1 = \<lambda>_ _. None, meta2 = \<lambda>_ _ _. None\<rparr>"


lemma arith_macro_cases:
  assumes "p \<in> {CHR ''+'', CHR ''-'', CHR ''/'', CHR ''*''}"
  shows "arith_macro e p f o1 o2 =
    (if integer_object o1 \<and> integer_object o2 then Target (OT_INTEGER (f (int_of o1) (int_of o2)))
     else guard (ARITH_OP e p o1 o2))"
proof (cases "sq_isnumeric o1 \<and> sq_isnumeric o2 \<and> \<not> (integer_object o1 \<and> integer_object o2)")
  case True
  then have "ARITH_OP e p o1 o2 = Some (OT_FLOAT (fop e p (tofloat e o1) (tofloat e o2)))"
    using assms by (intro ARITH_OP_mixed) auto
  then show ?thesis using True unfolding arith_macro_def Let_def tags_of_integers tags_of_floats
    by (simp add: guard_def)
next
  case False
  then show ?thesis unfolding arith_macro_def Let_def tags_of_integers tags_of_floats by simp
qed

text \<open>
  C25. The arithmetic instructions agree with \<open>ARITH_OP\<close>, whose fast paths they inline, on all
  operands: they leave its result or trap when it fails. There are two exceptions, stated exactly: \<open>_OP_DIV\<close> lacks the
  overflow check and leaves the least integer for its quotient by -1, and \<open>_OP_MOD\<close> ignores a failure and
  keeps the target register.
\<close>
theorem instructions_agree_with_ARITH_OP:
  "arith_step e ins trg o1 o2 =
     (if ins = OP_DIV \<and> o1 = OT_INTEGER 0x80000000 \<and> o2 = OT_INTEGER (- 1) then Target (OT_INTEGER 0x80000000)
      else if ins = OP_MOD \<and> ARITH_OP e (CHR ''%'') o1 o2 = None then Target trg
      else guard (ARITH_OP e (instr_char ins) o1 o2))"
proof (cases "integer_object o1 \<and> integer_object o2")
  case True
  then obtain a b where "o1 = OT_INTEGER a" "o2 = OT_INTEGER b" by (auto simp: integer_object_iff)
  then show ?thesis
    by (cases ins) (auto simp: arith_macro_cases guard_def arith_macro_nozero_def tags_of_integers integer_object_iff
        int_arith_def minimum_word c_div_def TAG_INTEGER_def)
next
  case False
  then show ?thesis
    by (cases ins) (auto simp: arith_macro_cases guard_def arith_macro_nozero_def tags_of_integers integer_object_iff
        split: option.splits)
qed

lemma c_div_mod:
  assumes "b \<noteq> 0"
  shows "c_div a b * b + c_mod a b = a" "\<bar>c_mod a b\<bar> < \<bar>b\<bar>" "c_mod a b \<noteq> 0 \<Longrightarrow> sgn (c_mod a b) = sgn a"
proof -
  have m: "c_mod a b = sgn a * (\<bar>a\<bar> mod \<bar>b\<bar>)"
  proof -
    have "sgn a * (\<bar>a\<bar> mod \<bar>b\<bar>) = sgn a * (\<bar>a\<bar> - \<bar>b\<bar> * (\<bar>a\<bar> div \<bar>b\<bar>))"
      by (simp only: minus_mult_div_eq_mod)
    also have "\<dots> = sgn a * \<bar>a\<bar> - (sgn b * b) * sgn a * (\<bar>a\<bar> div \<bar>b\<bar>)"
      by (simp add: algebra_simps abs_sgn)
    finally show ?thesis using mult_sgn_abs [of a] by (simp add: c_mod_def c_div_def algebra_simps)
  qed
  have r: "0 \<le> \<bar>a\<bar> mod \<bar>b\<bar>" "\<bar>a\<bar> mod \<bar>b\<bar> < \<bar>b\<bar>" using assms by simp_all
  show "c_div a b * b + c_mod a b = a" by (simp add: c_mod_def algebra_simps)
  show "\<bar>c_mod a b\<bar> < \<bar>b\<bar>" unfolding m using r assms by (simp add: abs_mult sgn_if)
  show "sgn (c_mod a b) = sgn a" if "c_mod a b \<noteq> 0"
  proof -
    from that r have "sgn (\<bar>a\<bar> mod \<bar>b\<bar>) = 1" unfolding m by (metis mult_zero_right order_le_less sgn_pos)
    then show ?thesis unfolding m by (simp add: sgn_mult)
  qed
qed

lemma c_div_range:
  assumes "b \<noteq> 0" "- 2147483648 \<le> a" "a < 2147483648" "\<not> (a = - 2147483648 \<and> b = - 1)"
  shows "- 2147483648 \<le> c_div a b \<and> c_div a b < 2147483648"
proof (cases "\<bar>b\<bar> = 1")
  case True
  then have "b = 1 \<or> b = - 1" by linarith
  then have "c_div a b = a \<or> b = - 1 \<and> c_div a b = - a" using mult_sgn_abs [of a] by (auto simp: c_div_def)
  then show ?thesis using assms by auto
next
  case False
  then have b: "2 \<le> \<bar>b\<bar>" using assms(1) by linarith
  have "0 \<le> \<bar>a\<bar> div \<bar>b\<bar>" using b by (simp add: pos_imp_zdiv_nonneg_iff)
  then have "\<bar>c_div a b\<bar> \<le> \<bar>a\<bar> div \<bar>b\<bar>" by (auto simp: c_div_def abs_mult abs_sgn_eq)
  also have "\<dots> \<le> \<bar>a\<bar> div 2" using b by (intro zdiv_mono2) simp_all
  also have "\<dots> \<le> 1073741824" using assms(2,3) by linarith
  finally show ?thesis by linarith
qed

lemma sint_range: "- 2147483648 \<le> sint (a :: 32 word)" "sint a < 2147483648"
  using sint_ge [of a] sint_lt [of a] by simp_all

lemma sint_word_of_int: "- 2147483648 \<le> k \<Longrightarrow> k < 2147483648 \<Longrightarrow> sint (word_of_int k :: 32 word) = k"
  by (simp add: sint_sbintrunc' signed_take_bit_int_eq_self)

text \<open>
  C30. Integer division is that of C, with no wrap-around: for a divisor other than 0, and apart from the one quotient that
  does not fit, \<open>/\<close> and \<open>%\<close> give the quotient and the remainder of the signed values, which determine the dividend; the remainder is smaller than the
  divisor and has the sign of the dividend.
\<close>
theorem integer_arithmetic:
  assumes "b \<noteq> 0" "\<not> (a = 0x80000000 \<and> b = - 1)"
  shows "\<exists>q r.
    ARITH_OP e (CHR ''/'') (OT_INTEGER a) (OT_INTEGER b) = Some (OT_INTEGER q) \<and>
    ARITH_OP e (CHR ''%'') (OT_INTEGER a) (OT_INTEGER b) = Some (OT_INTEGER r) \<and>
    sint q * sint b + sint r = sint a \<and> \<bar>sint r\<bar> < \<bar>sint b\<bar> \<and> (sint r \<noteq> 0 \<longrightarrow> sgn (sint r) = sgn (sint a))"
proof -
  let ?q = "word_of_int (c_div (sint a) (sint b)) :: 32 word"
  let ?r = "word_of_int (c_mod (sint a) (sint b)) :: 32 word"
  have nz: "sint b \<noteq> 0" using assms(1) sint_inject32 [of b 0] by simp
  have m1: "sint b = - 1 \<longleftrightarrow> b = - 1"
    using sint_inject32 [of b "- 1"] by simp
  have "\<not> (sint a = - 2147483648 \<and> sint b = - 1)" using assms(2) by (simp add: minimum_word m1)
  from c_div_range [OF nz sint_range(1,2) this] have q: "sint ?q = c_div (sint a) (sint b)" by (simp add: sint_word_of_int)
  have "\<bar>c_mod (sint a) (sint b)\<bar> < 2147483649" using c_div_mod(2) [OF nz, of "sint a"] sint_range [of b] by linarith
  then have r: "sint ?r = c_mod (sint a) (sint b)"
    using c_div_mod(2) [OF nz, of "sint a"] sint_range [of b] by (intro sint_word_of_int) linarith+
  have "ARITH_OP e (CHR ''/'') (OT_INTEGER a) (OT_INTEGER b) = Some (OT_INTEGER ?q)"
    "ARITH_OP e (CHR ''%'') (OT_INTEGER a) (OT_INTEGER b) = Some (OT_INTEGER ?r)"
    using assms by (auto simp: int_arith_def minimum_word)
  moreover have "sint ?q * sint b + sint ?r = sint a" "\<bar>sint ?r\<bar> < \<bar>sint b\<bar>" "sint ?r \<noteq> 0 \<longrightarrow> sgn (sint ?r) = sgn (sint a)"
    unfolding q r using c_div_mod [OF nz, of "sint a"] by simp_all
  ultimately show ?thesis by blast
qed

theorem integer_arithmetic_witness:
  "\<exists>q r. ARITH_OP sample_env (CHR ''/'') (OT_INTEGER (- 7)) (OT_INTEGER 2) = Some (OT_INTEGER q) \<and>
    ARITH_OP sample_env (CHR ''%'') (OT_INTEGER (- 7)) (OT_INTEGER 2) = Some (OT_INTEGER r) \<and> sint q * 2 + sint r = - 7"
  using integer_arithmetic [of 2 "- 7" sample_env] by auto

end
