(* ===== verification/Lexer.thy ===== *)
theory Lexer
  imports IniFile
begin

text \<open>
  The lexer of the compiler (\<open>utility/sqlexer.cpp\<close>). The read function supplies the characters of a
  string and then 0 for ever; the lexer looks one character ahead. \<open>Error\<close> leaves the compiler by
  \<open>longjmp\<close>, so an error is the result of everything above it. \<open>strtod\<close> is a parameter. The compiler
  copies \<open>_svalue\<close> out of the shared buffer before it asks for the next token, so the text is a
  field here.
\<close>

section \<open>Tokens\<close>

abbreviation TK_WHILE :: nat where "TK_WHILE \<equiv> 274"
abbreviation TK_DO :: nat where "TK_DO \<equiv> 277"
abbreviation TK_IF :: nat where "TK_IF \<equiv> 272"
abbreviation TK_ELSE :: nat where "TK_ELSE \<equiv> 273"
abbreviation TK_BREAK :: nat where "TK_BREAK \<equiv> 275"
abbreviation TK_CONTINUE :: nat where "TK_CONTINUE \<equiv> 291"
abbreviation TK_RETURN :: nat where "TK_RETURN \<equiv> 286"
abbreviation TK_NULL :: nat where "TK_NULL \<equiv> 278"
abbreviation TK_FUNCTION :: nat where "TK_FUNCTION \<equiv> 285"
abbreviation TK_LOCAL :: nat where "TK_LOCAL \<equiv> 283"
abbreviation TK_FOR :: nat where "TK_FOR \<equiv> 276"
abbreviation TK_FOREACH :: nat where "TK_FOREACH \<equiv> 279"
abbreviation TK_IN :: nat where "TK_IN \<equiv> 280"
abbreviation TK_TYPEOF :: nat where "TK_TYPEOF \<equiv> 287"
abbreviation TK_BASE :: nat where "TK_BASE \<equiv> 262"
abbreviation TK_DELETE :: nat where "TK_DELETE \<equiv> 263"
abbreviation TK_TRY :: nat where "TK_TRY \<equiv> 293"
abbreviation TK_CATCH :: nat where "TK_CATCH \<equiv> 294"
abbreviation TK_THROW :: nat where "TK_THROW \<equiv> 295"
abbreviation TK_CLONE :: nat where "TK_CLONE \<equiv> 284"
abbreviation TK_YIELD :: nat where "TK_YIELD \<equiv> 292"
abbreviation TK_RESUME :: nat where "TK_RESUME \<equiv> 298"
abbreviation TK_SWITCH :: nat where "TK_SWITCH \<equiv> 268"
abbreviation TK_CASE :: nat where "TK_CASE \<equiv> 300"
abbreviation TK_DEFAULT :: nat where "TK_DEFAULT \<equiv> 301"
abbreviation TK_THIS :: nat where "TK_THIS \<equiv> 302"
abbreviation TK_CLASS :: nat where "TK_CLASS \<equiv> 307"
abbreviation TK_EXTENDS :: nat where "TK_EXTENDS \<equiv> 308"
abbreviation TK_CONSTRUCTOR :: nat where "TK_CONSTRUCTOR \<equiv> 310"
abbreviation TK_INSTANCEOF :: nat where "TK_INSTANCEOF \<equiv> 311"
abbreviation TK_TRUE :: nat where "TK_TRUE \<equiv> 315"
abbreviation TK_FALSE :: nat where "TK_FALSE \<equiv> 316"
abbreviation TK_STATIC :: nat where "TK_STATIC \<equiv> 322"
abbreviation TK_ENUM :: nat where "TK_ENUM \<equiv> 323"
abbreviation TK_CONST :: nat where "TK_CONST \<equiv> 324"
abbreviation TK_LINE :: nat where "TK_LINE \<equiv> 313"
abbreviation TK_FILE :: nat where "TK_FILE \<equiv> 314"
abbreviation TK_RAWCALL :: nat where "TK_RAWCALL \<equiv> 325"
abbreviation TK_DIVEQ :: nat where "TK_DIVEQ \<equiv> 318"
abbreviation TK_ATTR_CLOSE :: nat where "TK_ATTR_CLOSE \<equiv> 321"
abbreviation TK_EQ :: nat where "TK_EQ \<equiv> 264"
abbreviation TK_3WAYSCMP :: nat where "TK_3WAYSCMP \<equiv> 305"
abbreviation TK_LE :: nat where "TK_LE \<equiv> 266"
abbreviation TK_NEWSLOT :: nat where "TK_NEWSLOT \<equiv> 281"
abbreviation TK_SHIFTL :: nat where "TK_SHIFTL \<equiv> 296"
abbreviation TK_ATTR_OPEN :: nat where "TK_ATTR_OPEN \<equiv> 320"
abbreviation TK_GE :: nat where "TK_GE \<equiv> 267"
abbreviation TK_USHIFTR :: nat where "TK_USHIFTR \<equiv> 306"
abbreviation TK_SHIFTR :: nat where "TK_SHIFTR \<equiv> 297"
abbreviation TK_NE :: nat where "TK_NE \<equiv> 265"
abbreviation TK_VARPARAMS :: nat where "TK_VARPARAMS \<equiv> 312"
abbreviation TK_AND :: nat where "TK_AND \<equiv> 270"
abbreviation TK_OR :: nat where "TK_OR \<equiv> 271"
abbreviation TK_DOUBLE_COLON :: nat where "TK_DOUBLE_COLON \<equiv> 299"
abbreviation TK_MULEQ :: nat where "TK_MULEQ \<equiv> 317"
abbreviation TK_MODEQ :: nat where "TK_MODEQ \<equiv> 319"
abbreviation TK_MINUSEQ :: nat where "TK_MINUSEQ \<equiv> 290"
abbreviation TK_MINUSMINUS :: nat where "TK_MINUSMINUS \<equiv> 304"
abbreviation TK_PLUSEQ :: nat where "TK_PLUSEQ \<equiv> 289"
abbreviation TK_PLUSPLUS :: nat where "TK_PLUSPLUS \<equiv> 303"
abbreviation TK_IDENTIFIER :: nat where "TK_IDENTIFIER \<equiv> 258"
abbreviation TK_INTEGER :: nat where "TK_INTEGER \<equiv> 260"
abbreviation TK_STRING_LITERAL :: nat where "TK_STRING_LITERAL \<equiv> 259"
abbreviation TK_FLOAT :: nat where "TK_FLOAT \<equiv> 261"

definition keyword_table :: "(string \<times> nat) list" where
  "keyword_table =
    [(''while'', TK_WHILE),
     (''do'', TK_DO),
     (''if'', TK_IF),
     (''else'', TK_ELSE),
     (''break'', TK_BREAK),
     (''continue'', TK_CONTINUE),
     (''return'', TK_RETURN),
     (''null'', TK_NULL),
     (''function'', TK_FUNCTION),
     (''local'', TK_LOCAL),
     (''for'', TK_FOR),
     (''foreach'', TK_FOREACH),
     (''in'', TK_IN),
     (''typeof'', TK_TYPEOF),
     (''base'', TK_BASE),
     (''delete'', TK_DELETE),
     (''try'', TK_TRY),
     (''catch'', TK_CATCH),
     (''throw'', TK_THROW),
     (''clone'', TK_CLONE),
     (''yield'', TK_YIELD),
     (''resume'', TK_RESUME),
     (''switch'', TK_SWITCH),
     (''case'', TK_CASE),
     (''default'', TK_DEFAULT),
     (''this'', TK_THIS),
     (''class'', TK_CLASS),
     (''extends'', TK_EXTENDS),
     (''constructor'', TK_CONSTRUCTOR),
     (''instanceof'', TK_INSTANCEOF),
     (''true'', TK_TRUE),
     (''false'', TK_FALSE),
     (''static'', TK_STATIC),
     (''enum'', TK_ENUM),
     (''const'', TK_CONST),
     (''__LINE__'', TK_LINE),
     (''__FILE__'', TK_FILE),
     (''rawcall'', TK_RAWCALL)]"

definition GetIDType :: "string \<Rightarrow> nat" where
  "GetIDType s = (case map_of keyword_table s of Some t \<Rightarrow> t | None \<Rightarrow> TK_IDENTIFIER)"

fun first_key :: "nat \<Rightarrow> (string \<times> nat) list \<Rightarrow> string option" where
  "first_key t [] = None"
| "first_key t ((k, v) # kvs) = (if v = t then Some k else first_key t kvs)"

text \<open>No two keywords have the same code, so the order in which the table is searched does not matter.\<close>

definition Tok2Str :: "nat \<Rightarrow> string option" where
  "Tok2Str t = first_key t keyword_table"

section \<open>Characters\<close>

definition code :: "char \<Rightarrow> nat" where
  "code c = of_char c"

definition scisdigit :: "char \<Rightarrow> bool" where
  "scisdigit c \<longleftrightarrow> 48 \<le> code c \<and> code c \<le> 57"

definition scisalpha :: "char \<Rightarrow> bool" where
  "scisalpha c \<longleftrightarrow> 65 \<le> code c \<and> code c \<le> 90 \<or> 97 \<le> code c \<and> code c \<le> 122"

definition scisalnum :: "char \<Rightarrow> bool" where
  "scisalnum c \<longleftrightarrow> scisalpha c \<or> scisdigit c"

definition scisxdigit :: "char \<Rightarrow> bool" where
  "scisxdigit c \<longleftrightarrow> scisdigit c \<or> 65 \<le> code c \<and> code c \<le> 70 \<or> 97 \<le> code c \<and> code c \<le> 102"

definition sciscntrl :: "char \<Rightarrow> bool" where
  "sciscntrl c \<longleftrightarrow> code c < 32 \<or> code c = 127"

definition scisodigit :: "char \<Rightarrow> bool" where
  "scisodigit c \<longleftrightarrow> 48 \<le> code c \<and> code c \<le> 55"

definition isexponent :: "char \<Rightarrow> bool" where
  "isexponent c \<longleftrightarrow> c = CHR ''e'' \<or> c = CHR ''E''"

text \<open>The value of a hexadecimal digit, as the two branches of \<open>LexHexadecimal\<close> compute it.\<close>

definition xdigit :: "char \<Rightarrow> nat" where
  "xdigit c = (if scisdigit c then code c - 48 else if code c \<le> 70 then code c - 65 + 10 else code c - 97 + 10)"

section \<open>State\<close>

record lexer =
  rest :: string
  currdata :: char
  reached_eof :: bool
  curtoken :: int
  prevtoken :: int
  currentline :: "32 word"
  lasttokenline :: "32 word"
  currentcolumn :: "32 word"
  svalue :: string
  nvalue :: "32 word"
  fvalue :: "32 word"

type_synonym 'a lexes = "string + 'a"

definition Next :: "lexer \<Rightarrow> lexer" where
  "Next L =
     (case rest L of
        [] \<Rightarrow> L\<lparr>currdata := NUL, reached_eof := True\<rparr>
      | c # cs \<Rightarrow>
          if c \<noteq> NUL then L\<lparr>rest := cs, currdata := c\<rparr>
          else L\<lparr>rest := cs, currdata := NUL, reached_eof := True\<rparr>)"

definition NEXT :: "lexer \<Rightarrow> lexer" where
  "NEXT L = (Next L)\<lparr>currentcolumn := currentcolumn L + 1\<rparr>"

text \<open>\<open>_curtoken\<close> is not initialised: it is an argument.\<close>

definition Init :: "string \<Rightarrow> int \<Rightarrow> lexer" where
  "Init txt junk =
     Next \<lparr>rest = txt, currdata = NUL, reached_eof = False, curtoken = junk, prevtoken = - 1, currentline = 1,
       lasttokenline = 1, currentcolumn = 0, svalue = [], nvalue = 0, fvalue = 0\<rparr>"

definition RETURN_TOKEN :: "lexer \<Rightarrow> nat \<Rightarrow> (lexer \<times> nat) lexes" where
  "RETURN_TOKEN L t = Inr (L\<lparr>prevtoken := curtoken L, curtoken := int t\<rparr>, t)"

definition RETURN_CHAR :: "lexer \<Rightarrow> char \<Rightarrow> (lexer \<times> nat) lexes" where
  "RETURN_CHAR L c = RETURN_TOKEN L (code c)"

text \<open>How much input is left, the character looked at included.\<close>

definition left :: "lexer \<Rightarrow> nat" where
  "left L = length (rest L) + (if currdata L = NUL then 0 else 1)"

lemma left_Next: "left (Next L) \<le> left L"
  by (auto simp: left_def Next_def split: list.split)

lemma left_NEXT: "left (NEXT L) \<le> left L"
  using left_Next [of L] by (simp add: NEXT_def left_def)

lemma left_NEXT_less: "currdata L \<noteq> NUL \<Longrightarrow> left (NEXT L) < left L"
  by (auto simp: left_def NEXT_def Next_def split: list.split)

lemma left_update [simp]:
  "left (L\<lparr>currentline := x\<rparr>) = left L" "left (L\<lparr>currentcolumn := x\<rparr>) = left L" "left (L\<lparr>prevtoken := y\<rparr>) = left L"
  "left (L\<lparr>curtoken := y\<rparr>) = left L" "left (L\<lparr>svalue := s\<rparr>) = left L" "left (L\<lparr>nvalue := x\<rparr>) = left L"
  "left (L\<lparr>fvalue := x\<rparr>) = left L" "left (L\<lparr>lasttokenline := x\<rparr>) = left L"
  by (simp_all add: left_def)

section \<open>Comments\<close>

function LexBlockComment :: "lexer \<Rightarrow> lexer lexes" where
  "LexBlockComment L =
     (if currdata L = CHR ''*'' then
        let L1 = NEXT L in if currdata L1 = CHR ''/'' then Inr (NEXT L1) else LexBlockComment L1
      else if currdata L = CHR 0x0A then LexBlockComment (NEXT (L\<lparr>currentline := currentline L + 1\<rparr>))
      else if currdata L = NUL then Inl ''missing \"*/\" in comment''
      else LexBlockComment (NEXT L))"
  by pat_completeness auto
termination
proof (relation "measure left", goal_cases)
  case (3 L)
  then show ?case using left_NEXT_less [of "L\<lparr>currentline := currentline L + 1\<rparr>"] by simp
qed (auto intro: left_NEXT_less)

declare LexBlockComment.simps [simp del]

function LexLineComment :: "lexer \<Rightarrow> lexer" where
  "LexLineComment L =
     (let L1 = NEXT L in if currdata L1 \<noteq> CHR 0x0A \<and> currdata L1 \<noteq> NUL then LexLineComment L1 else L1)"
  by pat_completeness auto
termination
  by (relation "measure (\<lambda>L. length (rest L))") (auto simp: NEXT_def Next_def split: list.splits)

declare LexLineComment.simps [simp del]

section \<open>Strings\<close>

definition AddUTF8 :: "32 word \<Rightarrow> string" where
  "AddUTF8 ch =
     (let part = (\<lambda>k. unat (drop_bit k ch AND 0x3F OR 0x80)) in
      if ch < 0x80 then [char_of (unat ch)]
      else if ch < 0x800 then [char_of (unat (drop_bit 6 ch OR 0xC0)), char_of (part 0)]
      else if ch < 0x10000 then [char_of (unat (drop_bit 12 ch OR 0xE0)), char_of (part 6), char_of (part 0)]
      else if ch < 0x110000 then
        [char_of (unat (drop_bit 18 ch OR 0xF0)), char_of (part 12), char_of (part 6), char_of (part 0)]
      else [])"

fun xdigits :: "nat \<Rightarrow> lexer \<Rightarrow> lexer \<times> string" where
  "xdigits 0 L = (L, [])"
| "xdigits (Suc n) L =
     (if scisxdigit (currdata L) then let (L', ds) = xdigits n (NEXT L) in (L', currdata L # ds) else (L, []))"

definition ProcessStringHexEscape :: "lexer \<Rightarrow> nat \<Rightarrow> (lexer \<times> string) lexes" where
  "ProcessStringHexEscape L maxdigits =
     (let L1 = NEXT L in
      if \<not> scisxdigit (currdata L1) then Inl ''hexadecimal number expected'' else Inr (xdigits maxdigits L1))"

text \<open>\<open>strtoul\<close> in base 16 on up to eight hexadecimal digits.\<close>

definition hex_value :: "string \<Rightarrow> nat" where
  "hex_value ds = foldl (\<lambda>a c. a * 16 + xdigit c) 0 ds"

definition simple_escape :: "char \<Rightarrow> char option" where
  "simple_escape c =
     (if c = CHR ''t'' then Some (CHR 0x09)
      else if c = CHR ''a'' then Some (CHR 0x07)
      else if c = CHR ''b'' then Some (CHR 0x08)
      else if c = CHR ''n'' then Some (CHR 0x0A)
      else if c = CHR ''r'' then Some (CHR 0x0D)
      else if c = CHR ''v'' then Some (CHR 0x0B)
      else if c = CHR ''f'' then Some (CHR 0x0C)
      else if c = CHR ''0'' then Some NUL
      else if c = CHR 0x5C then Some (CHR 0x5C)
      else if c = CHR 0x22 then Some (CHR 0x22)
      else if c = CHR 0x27 then Some (CHR 0x27)
      else None)"

lemma scisxdigit_NUL [simp]: "\<not> scisxdigit NUL" "\<not> scisdigit NUL" "\<not> scisodigit NUL" "\<not> scisalnum NUL" "\<not> scisalpha NUL"
  by (simp_all add: scisxdigit_def scisdigit_def scisodigit_def scisalnum_def scisalpha_def code_def)

lemma left_xdigits: "left (fst (xdigits n L)) \<le> left L"
  by (induction n L rule: xdigits.induct) (use left_NEXT in \<open>force simp: split_beta Let_def intro: order_trans\<close>)+

lemma left_hex_escape: "ProcessStringHexEscape L n = Inr (L', ds) \<Longrightarrow> left L' \<le> left (NEXT L)"
  using left_xdigits [of n "NEXT L"] by (auto simp: ProcessStringHexEscape_def Let_def split: if_splits)

text \<open>The two nested loops of \<open>ReadString\<close> as one: \<open>d\<close> is the delimiter, \<open>v\<close> whether the string is verbatim.\<close>

function read_chars :: "char \<Rightarrow> bool \<Rightarrow> lexer \<Rightarrow> string \<Rightarrow> (lexer \<times> string) lexes" where
  "read_chars d v L buf =
     (if currdata L = d then
        let L1 = NEXT L in
        if v \<and> currdata L1 = CHR 0x22 then read_chars d v (NEXT L1) (buf @ [CHR 0x22]) else Inr (L1, buf)
      else if currdata L = NUL then Inl ''unfinished string''
      else if currdata L = CHR 0x0A then
        if \<not> v then Inl ''newline in a constant''
        else read_chars d v ((NEXT L)\<lparr>currentline := currentline L + 1\<rparr>) (buf @ [CHR 0x0A])
      else if currdata L = CHR 0x5C then
        if v then read_chars d v (NEXT L) (buf @ [CHR 0x5C])
        else
          let L1 = NEXT L; c = currdata L1 in
          if c = CHR ''x'' then
            andthen (ProcessStringHexEscape L1 2) (\<lambda>(L2, ds). read_chars d v L2 (buf @ [char_of (hex_value ds)]))
          else if c = CHR ''U'' \<or> c = CHR ''u'' then
            andthen (ProcessStringHexEscape L1 (if c = CHR ''u'' then 4 else 8))
              (\<lambda>(L2, ds). read_chars d v L2 (buf @ AddUTF8 (of_nat (hex_value ds))))
          else
            (case simple_escape c of
               Some e \<Rightarrow> read_chars d v (NEXT L1) (buf @ [e])
             | None \<Rightarrow> Inl ''unrecognised escaper char'')
      else read_chars d v (NEXT L) (buf @ [currdata L]))"
  by pat_completeness auto
termination
proof (relation "measure (\<lambda>(d, v, L, buf). left L)", goal_cases)
  case (2 d v L buf L1)
  then have "left (NEXT L1) < left L1" by (intro left_NEXT_less) simp
  with left_NEXT [of L] 2 show ?case by simp
next
  case (5 d v L buf L1 c x L2 ds)
  with left_hex_escape [of L1 2 L2 ds] left_NEXT [of L1] left_NEXT_less [of L] show ?case by simp
next
  case (6 d v L buf L1 c x L2 ds)
  with left_hex_escape [of L1 _ L2 ds] left_NEXT [of L1] left_NEXT_less [of L] show ?case by fastforce
next
  case (7 d v L buf L1 c e)
  with left_NEXT [of L1] left_NEXT_less [of L] show ?case by simp
qed (auto intro: left_NEXT_less)

declare read_chars.simps [simp del]

text \<open>The result -1 of \<open>ReadString\<close> is \<open>None\<close>.\<close>

definition ReadString :: "char \<Rightarrow> bool \<Rightarrow> lexer \<Rightarrow> (lexer \<times> nat option) lexes" where
  "ReadString ndelim verbatim L =
     (let L1 = NEXT L in
      if currdata L1 = NUL then Inr (L1, None)
      else
        andthen (read_chars ndelim verbatim L1 []) (\<lambda>(L2, buf).
          if ndelim = CHR 0x27 then
            if buf = [] then Inl ''empty constant''
            else if length buf > 1 then Inl ''constant too long''
            else Inr (L2\<lparr>nvalue := of_nat (code (hd buf))\<rparr>, Some TK_INTEGER)
          else Inr (L2\<lparr>svalue := buf\<rparr>, Some TK_STRING_LITERAL)))"

section \<open>Numbers and identifiers\<close>

definition LexHexadecimal :: "string \<Rightarrow> 32 word" where
  "LexHexadecimal s = foldl (\<lambda>res c. res * 16 + of_nat (xdigit c)) 0 s"

definition LexInteger :: "string \<Rightarrow> 32 word" where
  "LexInteger s = foldl (\<lambda>res c. res * 10 + (of_nat (code c) - 48)) 0 s"

definition LexOctal :: "string \<Rightarrow> 32 word" where
  "LexOctal s = foldl (\<lambda>res c. res * 8 + (of_nat (code c) - 48)) 0 s"

text \<open>A loop that collects characters of a class; the classes do not contain the end of the input.\<close>

function collect :: "(char \<Rightarrow> bool) \<Rightarrow> lexer \<Rightarrow> lexer \<times> string" where
  "collect P L =
     (if currdata L \<noteq> NUL \<and> P (currdata L) then let (L', cs) = collect P (NEXT L) in (L', currdata L # cs) else (L, []))"
  by pat_completeness auto
termination
  by (relation "measure (\<lambda>(P, L). left L)") (auto intro: left_NEXT_less)

declare collect.simps [simp del]

datatype num_type = TINT | TFLOAT | THEX | TSCIENTIFIC | TOCTAL

function read_decimal :: "num_type \<Rightarrow> lexer \<Rightarrow> string \<Rightarrow> (lexer \<times> num_type \<times> string) lexes" where
  "read_decimal ty L buf =
     (let c = currdata L in
      if c = CHR ''.'' \<or> scisdigit c \<or> isexponent c then
        let ty1 = (if c = CHR ''.'' \<or> isexponent c then TFLOAT else ty) in
        if isexponent c then
          if ty1 \<noteq> TFLOAT then Inl ''invalid numeric format''
          else
            let L1 = NEXT L; c1 = currdata L1;
                L2 = (if c1 = CHR ''+'' \<or> c1 = CHR ''-'' then NEXT L1 else L1);
                buf2 = buf @ [c] @ (if c1 = CHR ''+'' \<or> c1 = CHR ''-'' then [c1] else []) in
            if \<not> scisdigit (currdata L2) then Inl ''exponent expected''
            else read_decimal TSCIENTIFIC (NEXT L2) (buf2 @ [currdata L2])
        else read_decimal ty1 (NEXT L) (buf @ [c])
      else Inr (L, ty, buf))"
  by pat_completeness auto
termination
proof (relation "measure (\<lambda>(ty, L, buf). left L)", goal_cases)
  case (2 ty L buf c ty1 L1 c1 L2 buf2)
  then have "currdata L \<noteq> NUL" by (auto simp: isexponent_def)
  with 2 have "left L1 < left L" using left_NEXT_less [of L] by simp
  moreover have "left L2 \<le> left L1" using 2 left_NEXT [of L1] by simp
  ultimately show ?case using left_NEXT [of L2] by simp
next
  case (3 ty L buf c ty1)
  then have "currdata L \<noteq> NUL" by auto
  then show ?case by (simp add: left_NEXT_less)
qed simp

declare read_decimal.simps [simp del]

definition read_number_text :: "lexer \<Rightarrow> (lexer \<times> num_type \<times> string) lexes" where
  "read_number_text L =
     (let firstchar = currdata L; L1 = NEXT L; c = currdata L1 in
      if firstchar = CHR ''0'' \<and> (c = CHR ''x'' \<or> c = CHR ''X'' \<or> scisodigit c) then
        if scisodigit c then
          let (L2, ds) = collect scisodigit L1 in
          if scisdigit (currdata L2) then Inl ''invalid octal number'' else Inr (L2, TOCTAL, ds)
        else
          let (L2, ds) = collect scisxdigit (NEXT L1) in
          if length ds > 8 then Inl ''too many digits for an Hex number'' else Inr (L2, THEX, ds)
      else read_decimal TINT L1 [firstchar])"

definition ReadNumber :: "(string \<Rightarrow> 32 word) \<Rightarrow> lexer \<Rightarrow> (lexer \<times> nat) lexes" where
  "ReadNumber strtod L =
     andthen (read_number_text L) (\<lambda>(L1, ty, s).
       Inr (case ty of
              TSCIENTIFIC \<Rightarrow> (L1\<lparr>fvalue := strtod s\<rparr>, TK_FLOAT)
            | TFLOAT \<Rightarrow> (L1\<lparr>fvalue := strtod s\<rparr>, TK_FLOAT)
            | TINT \<Rightarrow> (L1\<lparr>nvalue := LexInteger s\<rparr>, TK_INTEGER)
            | THEX \<Rightarrow> (L1\<lparr>nvalue := LexHexadecimal s\<rparr>, TK_INTEGER)
            | TOCTAL \<Rightarrow> (L1\<lparr>nvalue := LexOctal s\<rparr>, TK_INTEGER)))"

definition ReadID :: "lexer \<Rightarrow> lexer \<times> nat" where
  "ReadID L =
     (let (L1, cs) = collect (\<lambda>c. scisalnum c \<or> c = CHR ''_'') (NEXT L); s = currdata L # cs; res = GetIDType s in
      (if res = TK_IDENTIFIER \<or> res = TK_CONSTRUCTOR then L1\<lparr>svalue := s\<rparr> else L1, res))"

section \<open>The tokens\<close>

text \<open>Operators: what follows the first character decides.\<close>

definition lex_less :: "lexer \<Rightarrow> (lexer \<times> nat) lexes" where
  "lex_less L =
     (let L1 = NEXT L; c = currdata L1 in
      if c = CHR ''='' then
        let L2 = NEXT L1 in
        if currdata L2 = CHR ''>'' then RETURN_TOKEN (NEXT L2) TK_3WAYSCMP else RETURN_TOKEN L2 TK_LE
      else if c = CHR ''-'' then RETURN_TOKEN (NEXT L1) TK_NEWSLOT
      else if c = CHR ''<'' then RETURN_TOKEN (NEXT L1) TK_SHIFTL
      else if c = CHR ''/'' then RETURN_TOKEN (NEXT L1) TK_ATTR_OPEN
      else RETURN_CHAR L1 (CHR ''<''))"

definition lex_greater :: "lexer \<Rightarrow> (lexer \<times> nat) lexes" where
  "lex_greater L =
     (let L1 = NEXT L; c = currdata L1 in
      if c = CHR ''='' then RETURN_TOKEN (NEXT L1) TK_GE
      else if c = CHR ''>'' then
        let L2 = NEXT L1 in
        if currdata L2 = CHR ''>'' then RETURN_TOKEN (NEXT L2) TK_USHIFTR else RETURN_TOKEN L2 TK_SHIFTR
      else RETURN_CHAR L1 (CHR ''>''))"

definition lex_dot :: "lexer \<Rightarrow> (lexer \<times> nat) lexes" where
  "lex_dot L =
     (let L1 = NEXT L in
      if currdata L1 \<noteq> CHR ''.'' then RETURN_CHAR L1 (CHR ''.'')
      else
        let L2 = NEXT L1 in
        if currdata L2 \<noteq> CHR ''.'' then Inl (''invalid token '' @ [CHR 0x27] @ ''..'' @ [CHR 0x27])
        else RETURN_TOKEN (NEXT L2) TK_VARPARAMS)"

text \<open>An operator that a second character turns into a token of its own.\<close>

definition lex_pair :: "(char \<times> nat) list \<Rightarrow> lexer \<Rightarrow> (lexer \<times> nat) lexes" where
  "lex_pair longer L =
     (let L1 = NEXT L in
      case map_of longer (currdata L1) of
        Some t \<Rightarrow> RETURN_TOKEN (NEXT L1) t
      | None \<Rightarrow> RETURN_CHAR L1 (currdata L))"

definition pairs :: "char \<Rightarrow> (char \<times> nat) list option" where
  "pairs c =
     (if c = CHR ''='' then Some [(CHR ''='', TK_EQ)]
      else if c = CHR ''!'' then Some [(CHR ''='', TK_NE)]
      else if c = CHR ''&'' then Some [(CHR ''&'', TK_AND)]
      else if c = CHR ''|'' then Some [(CHR ''|'', TK_OR)]
      else if c = CHR '':'' then Some [(CHR '':'', TK_DOUBLE_COLON)]
      else if c = CHR ''*'' then Some [(CHR ''='', TK_MULEQ)]
      else if c = CHR ''%'' then Some [(CHR ''='', TK_MODEQ)]
      else if c = CHR ''-'' then Some [(CHR ''='', TK_MINUSEQ), (CHR ''-'', TK_MINUSMINUS)]
      else if c = CHR ''+'' then Some [(CHR ''='', TK_PLUSEQ), (CHR ''+'', TK_PLUSPLUS)]
      else None)"

definition lex_string :: "char \<Rightarrow> bool \<Rightarrow> lexer \<Rightarrow> (lexer \<times> nat) lexes" where
  "lex_string d v L =
     andthen (ReadString d v L) (\<lambda>(L1, stype).
       case stype of Some t \<Rightarrow> RETURN_TOKEN L1 t | None \<Rightarrow> Inl ''error parsing the string'')"

definition lex_token :: "(string \<Rightarrow> 32 word) \<Rightarrow> lexer \<Rightarrow> (lexer \<times> nat) lexes" where
  "lex_token strtod L =
     (let c = currdata L in
      case pairs c of
        Some longer \<Rightarrow> lex_pair longer L
      | None \<Rightarrow>
          if c = CHR ''<'' then lex_less L
          else if c = CHR ''>'' then lex_greater L
          else if c = CHR ''@'' then
            let L1 = NEXT L in
            if currdata L1 \<noteq> CHR 0x22 then RETURN_CHAR L1 (CHR ''@'') else lex_string (CHR 0x22) True L1
          else if c = CHR 0x22 \<or> c = CHR 0x27 then lex_string c False L
          else if c \<in> set ''{}()[];,?^~'' then RETURN_CHAR (NEXT L) c
          else if c = CHR ''.'' then lex_dot L
          else if scisdigit c then andthen (ReadNumber strtod L) (\<lambda>(L1, ret). RETURN_TOKEN L1 ret)
          else if scisalpha c \<or> c = CHR ''_'' then let (L1, t) = ReadID L in RETURN_TOKEN L1 t
          else if sciscntrl c then Inl ''unexpected character(control)''
          else RETURN_CHAR (NEXT L) c)"

lemma left_block_comment: "LexBlockComment L = Inr L' \<Longrightarrow> left L' \<le> left L"
proof (induction L rule: LexBlockComment.induct)
  case (1 L)
  show ?case
  proof (cases "currdata L = CHR ''*'' \<and> currdata (NEXT L) = CHR ''/''")
    case True
    with 1(4) have "L' = NEXT (NEXT L)" by (simp add: LexBlockComment.simps [of L] Let_def)
    then show ?thesis using left_NEXT [of L] left_NEXT [of "NEXT L"] by simp
  next
    case False
    let ?nl = "L\<lparr>currentline := currentline L + 1\<rparr>"
    from 1(4) False consider "left L' \<le> left (NEXT L)" | "left L' \<le> left (NEXT ?nl)"
      using 1(1-3) by (simp add: LexBlockComment.simps [of L] Let_def split: if_splits)
    then show ?thesis using left_NEXT [of L] left_NEXT [of ?nl] by cases simp_all
  qed
qed

lemma left_line_comment: "left (LexLineComment L) \<le> left (NEXT L)"
proof (induction L rule: LexLineComment.induct)
  case (1 L)
  then show ?case using left_NEXT [of "NEXT L"] by (auto simp: LexLineComment.simps [of L] Let_def)
qed

function Lex_loop :: "(string \<Rightarrow> 32 word) \<Rightarrow> lexer \<Rightarrow> (lexer \<times> nat) lexes" where
  "Lex_loop strtod L =
     (let c = currdata L in
      if c = NUL then Inr (L, 0)
      else if c = CHR 0x09 \<or> c = CHR 0x0D \<or> c = CHR '' '' then Lex_loop strtod (NEXT L)
      else if c = CHR 0x0A then
        Lex_loop strtod
          ((NEXT (L\<lparr>currentline := currentline L + 1, prevtoken := curtoken L, curtoken := 10\<rparr>))\<lparr>currentcolumn := 1\<rparr>)
      else if c = CHR ''#'' then Lex_loop strtod (LexLineComment L)
      else if c = CHR ''/'' then
        let L1 = NEXT L; c1 = currdata L1 in
        if c1 = CHR ''*'' then andthen (LexBlockComment (NEXT L1)) (\<lambda>L2. Lex_loop strtod L2)
        else if c1 = CHR ''/'' then Lex_loop strtod (LexLineComment L1)
        else if c1 = CHR ''='' then RETURN_TOKEN (NEXT L1) TK_DIVEQ
        else if c1 = CHR ''>'' then RETURN_TOKEN (NEXT L1) TK_ATTR_CLOSE
        else RETURN_CHAR L1 (CHR ''/'')
      else lex_token strtod L)"
  by pat_completeness auto
termination
proof (relation "measure (\<lambda>(f, L). left L)", goal_cases)
  case (3 f L c)
  then show ?case
    using left_NEXT_less [of "L\<lparr>currentline := currentline L + 1, prevtoken := curtoken L, curtoken := 10\<rparr>"] by simp
next
  case (4 f L c)
  then show ?case using left_line_comment [of L] left_NEXT_less [of L] by simp
next
  case (5 f L c L1 c1 L2)
  then show ?case using left_block_comment [of "NEXT L1" L2] left_NEXT [of L1] left_NEXT_less [of L] by simp
next
  case (6 f L c L1 c1)
  then show ?case using left_line_comment [of L1] left_NEXT [of L1] left_NEXT_less [of L] by simp
qed (auto intro: left_NEXT_less)

declare Lex_loop.simps [simp del]

definition Lex :: "(string \<Rightarrow> 32 word) \<Rightarrow> lexer \<Rightarrow> (lexer \<times> nat) lexes" where
  "Lex strtod L = Lex_loop strtod (L\<lparr>lasttokenline := currentline L\<rparr>)"

end
