(* ===== verification/LexLaws.thy ===== *)
theory LexLaws
  imports Lexer IniStore
begin

text \<open>
  What the lexer guarantees: every token uses up input, so that reading a text ends, and the decimal
  numbers the machine prints are read back. The relation \<open>at_text\<close> says which text the lexer has in front of it.
\<close>

section \<open>Every token uses up input\<close>

lemma code_0 [simp]: "code c = 0 \<longleftrightarrow> c = NUL"
  using of_char_eq_iff [of c NUL, where ?'a = nat] by (simp add: code_def)

lemma RETURN_TOKEN_left: "RETURN_TOKEN L t = Inr (L', u) \<Longrightarrow> left L' = left L \<and> u = t"
  by (auto simp: RETURN_TOKEN_def)

lemma left_collect: "left (fst (collect P L)) \<le> left L"
proof (induction P L rule: collect.induct)
  case (1 P L)
  then show ?case using left_NEXT [of L] by (force simp: collect.simps [of P L] split_beta Let_def)
qed

lemma left_read_decimal: "read_decimal ty L buf = Inr (L', r) \<Longrightarrow> left L' \<le> left L"
proof (induction ty L buf rule: read_decimal.induct)
  case (1 ty L buf)
  let ?L2 = "if currdata (NEXT L) = CHR ''+'' \<or> currdata (NEXT L) = CHR ''-'' then NEXT (NEXT L) else NEXT L"
  have "left L' \<le> left L \<or> left L' \<le> left (NEXT L) \<or> left L' \<le> left (NEXT ?L2)"
    using 1(3) 1(1) [OF refl _ refl _ _ refl refl refl refl] 1(2) [OF refl _ refl]
    by (auto simp: read_decimal.simps [of ty L buf] Let_def split: if_splits)
  moreover have "left (NEXT ?L2) \<le> left (NEXT L)"
    using left_NEXT [of "NEXT L"] left_NEXT [of "NEXT (NEXT L)"] by auto
  ultimately show ?case using left_NEXT [of L] by auto
qed

lemma left_read_chars: "read_chars d v L buf = Inr (L', s) \<Longrightarrow> left L' \<le> left L"
proof (induction "left L" arbitrary: L buf rule: less_induct)
  case less
  let ?n = "NEXT L" and ?nn = "NEXT (NEXT L)"
  have n: "left ?n \<le> left L" and nn: "left ?nn \<le> left ?n" by (simp_all add: left_NEXT)
  have smaller: "left L' \<le> left L" if "read_chars d v L2 b = Inr (L', s)" "left L2 < left L" for L2 b
    using less(1) [OF that(2,1)] that(2) by simp
  note r = less(2) [unfolded read_chars.simps [of d v L buf]]
  consider "currdata L = d" | "currdata L \<noteq> d" "currdata L = NUL" | "currdata L \<noteq> d" "currdata L \<noteq> NUL" "currdata L \<noteq> CHR 0x5C \<or> v"
    | "currdata L \<noteq> d" "currdata L = CHR 0x5C" "\<not> v"
    by blast
  then show ?case
  proof cases
    case 1
    show ?thesis
    proof (cases "v \<and> currdata ?n = CHR 0x22")
      case True
      then have "left ?nn < left ?n" by (intro left_NEXT_less) simp
      with r 1 True n smaller [of ?nn] show ?thesis by simp
    next
      case False
      with r 1 n show ?thesis by (auto simp: Let_def)
    qed
  next
    case 2
    with r show ?thesis by simp
  next
    case 3
    then have "left ?n < left L" by (intro left_NEXT_less)
    with r 3 smaller [of ?n] smaller [of "?n\<lparr>currentline := currentline L + 1\<rparr>"] show ?thesis by (auto split: if_splits)
  next
    case 4
    then have n1: "left ?n < left L" by (intro left_NEXT_less) simp
    have "\<exists>L2 b. read_chars d v L2 b = Inr (L', s) \<and> left L2 \<le> left ?nn"
      using r 4 by (auto simp: Let_def andthen_Inr_iff dest: left_hex_escape split: if_splits option.splits)
    with n1 nn show ?thesis using smaller by (meson le_less_trans)
  qed
qed

lemma left_ReadString: "ReadString d v L = Inr (L', t) \<Longrightarrow> left L' \<le> left (NEXT L)"
  by (auto simp: ReadString_def Let_def andthen_Inr_iff dest: left_read_chars split: if_splits)

lemma ReadString_token: "ReadString d v L = Inr (L', Some t) \<Longrightarrow> t \<noteq> 0"
  by (auto simp: ReadString_def Let_def andthen_Inr_iff split: if_splits)

lemma left_number_text: "read_number_text L = Inr (L', r) \<Longrightarrow> left L' \<le> left (NEXT L)"
  using left_collect [of scisodigit "NEXT L"] left_collect [of scisxdigit "NEXT (NEXT L)"] left_NEXT [of "NEXT L"]
    left_read_decimal [of TINT "NEXT L" "[currdata L]" L' r]
  by (simp add: read_number_text_def Let_def split_beta split: if_splits)

lemma left_ReadNumber: "ReadNumber f L = Inr (L', t) \<Longrightarrow> left L' \<le> left (NEXT L) \<and> t \<noteq> 0"
proof -
  assume a: "ReadNumber f L = Inr (L', t)"
  then obtain L1 ty s where r: "read_number_text L = Inr (L1, ty, s)" by (cases "read_number_text L") (auto simp: ReadNumber_def)
  from a r have "left L' = left L1 \<and> t \<noteq> 0" by (cases ty) (auto simp: ReadNumber_def)
  with left_number_text [OF r] show ?thesis by simp
qed

lemma left_ReadID: "left (fst (ReadID L)) \<le> left (NEXT L)"
  using left_collect [of _ "NEXT L"] by (auto simp: ReadID_def Let_def split_beta)

lemma GetIDType_token: "GetIDType s \<noteq> 0"
proof -
  have "0 \<notin> snd ` set keyword_table" by (simp add: keyword_table_def)
  then show ?thesis by (force simp: GetIDType_def split: option.split dest!: map_of_SomeD)
qed

lemma left_lex_string: "lex_string d v L = Inr (L', t) \<Longrightarrow> left L' \<le> left (NEXT L) \<and> t \<noteq> 0"
proof -
  assume a: "lex_string d v L = Inr (L', t)"
  then obtain L1 u where r: "ReadString d v L = Inr (L1, Some u)" and e: "RETURN_TOKEN L1 u = Inr (L', t)"
    by (cases "ReadString d v L") (auto simp: lex_string_def split: option.splits)
  show ?thesis using left_ReadString [OF r] ReadString_token [OF r] RETURN_TOKEN_left [OF e] by simp
qed

lemma left_lex_pair:
  assumes "lex_pair longer L = Inr (L', t)" "0 \<notin> snd ` set longer" "currdata L \<noteq> NUL"
  shows "left L' < left L \<and> t \<noteq> 0"
  using assms left_NEXT_less [of L] left_NEXT [of "NEXT L"]
  by (force simp: lex_pair_def Let_def RETURN_CHAR_def dest!: RETURN_TOKEN_left map_of_SomeD split: option.splits)

lemma pairs_tokens: "pairs c = Some longer \<Longrightarrow> 0 \<notin> snd ` set longer"
  by (auto simp: pairs_def split: if_splits)

lemma left_operators:
  assumes "currdata L \<noteq> NUL"
  shows "lex_less L = Inr (L', t) \<Longrightarrow> left L' < left L \<and> t \<noteq> 0"
    "lex_greater L = Inr (L', t) \<Longrightarrow> left L' < left L \<and> t \<noteq> 0"
    "lex_dot L = Inr (L', t) \<Longrightarrow> left L' < left L \<and> t \<noteq> 0"
  using left_NEXT_less [OF assms] left_NEXT [of "NEXT L"] left_NEXT [of "NEXT (NEXT L)"]
  by (auto simp: lex_less_def lex_greater_def lex_dot_def Let_def RETURN_CHAR_def code_def
      dest!: RETURN_TOKEN_left split: if_splits)

lemma left_lex_token:
  assumes t: "lex_token f L = Inr (L', t)" and c: "currdata L \<noteq> NUL"
  shows "left L' < left L \<and> t \<noteq> 0"
proof (cases "pairs (currdata L)")
  case (Some longer)
  with t left_lex_pair [OF _ pairs_tokens [OF Some] c] show ?thesis by (simp add: lex_token_def)
next
  case None
  note n = left_NEXT_less [OF c]
  have ch: "left L' < left L \<and> t \<noteq> 0" if "RETURN_CHAR (NEXT L) b = Inr (L', t)" "b \<noteq> NUL" for b
    using RETURN_TOKEN_left [OF that(1) [unfolded RETURN_CHAR_def]] that(2) n by simp
  have st: "left L' < left L \<and> t \<noteq> 0" if "lex_string d v L1 = Inr (L', t)" "left L1 \<le> left L" "left (NEXT L1) < left L" for d v L1
    using left_lex_string [OF that(1)] that by simp
  have nn: "left (NEXT (NEXT L)) < left L" using n left_NEXT [of "NEXT L"] by simp
  have num: "left L' < left L \<and> t \<noteq> 0" if a: "andthen (ReadNumber f L) (\<lambda>(L1, ret). RETURN_TOKEN L1 ret) = Inr (L', t)"
  proof -
    from a obtain L1 r where r: "ReadNumber f L = Inr (L1, r)" "RETURN_TOKEN L1 r = Inr (L', t)"
      by (cases "ReadNumber f L") auto
    show ?thesis using left_ReadNumber [OF r(1)] RETURN_TOKEN_left [OF r(2)] n by simp
  qed
  have ident: "left L' < left L \<and> t \<noteq> 0" if a: "(let (L1, t) = ReadID L in RETURN_TOKEN L1 t) = Inr (L', t)"
  proof -
    have "RETURN_TOKEN (fst (ReadID L)) (snd (ReadID L)) = Inr (L', t)" using a by (simp add: split_beta)
    moreover have "snd (ReadID L) \<noteq> 0" using GetIDType_token by (simp add: ReadID_def Let_def split_beta)
    ultimately show ?thesis using left_ReadID [of L] n by (auto dest!: RETURN_TOKEN_left)
  qed
  show ?thesis
    using t None c left_operators [OF c, of L' t] ch [of "CHR ''@''"] ch [of "currdata L"] num ident
      st [of _ _ L] st [of _ _ "NEXT L"] n nn
    by (simp add: lex_token_def Let_def split: if_splits)
qed

lemma Lex_loop_progress:
  "Lex_loop f L = Inr (L', t) \<Longrightarrow> if t = 0 then currdata L' = NUL else left L' < left L"
proof (induction "left L" arbitrary: L rule: less_induct)
  case less
  let ?n = "NEXT L" and ?nn = "NEXT (NEXT L)" and ?c = "currdata L"
  define Q where "Q \<longleftrightarrow> (if t = 0 then currdata L' = NUL else left L' < left L)"
  have smaller: "Q"
    if "Lex_loop f L2 = Inr (L', t)" "left L2 < left L" for L2
    unfolding Q_def using less(1) [OF that(2,1)] that(2) by (simp split: if_splits)
  note r = less(2) [unfolded Lex_loop.simps [of f L]]
  have "Q"
  proof (cases "?c = NUL")
    case True
    with r show ?thesis by (simp add: Let_def Q_def)
  next
    case c: False
    then have n: "left ?n < left L" by (rule left_NEXT_less)
    then have nn: "left ?nn < left L" using left_NEXT [of ?n] by simp
    let ?nl = "L\<lparr>currentline := currentline L + 1, prevtoken := curtoken L, curtoken := 10\<rparr>"
    have nl: "left ((NEXT ?nl)\<lparr>currentcolumn := 1\<rparr>) < left L" using c left_NEXT_less [of ?nl] by simp
    have lc: "left (LexLineComment L) < left L" using left_line_comment [of L] n by simp
    have lc2: "left (LexLineComment ?n) < left L" using left_line_comment [of ?n] nn by simp
    have tok: "Q"
      if "RETURN_TOKEN L2 u = Inr (L', t)" "left L2 < left L" "u \<noteq> 0" for L2 u
      unfolding Q_def using RETURN_TOKEN_left [OF that(1)] that(2,3) by simp
    show ?thesis
    proof (cases "?c = CHR ''/''")
      case True
      have bc: "Q" if bc: "andthen (LexBlockComment ?nn) (\<lambda>L2. Lex_loop f L2) = Inr (L', t)"
      proof -
        from bc obtain L2 where "LexBlockComment ?nn = Inr L2" "Lex_loop f L2 = Inr (L', t)" by (auto simp: andthen_Inr_iff)
        then show ?thesis using left_block_comment [of ?nn L2] smaller [of L2] nn by simp
      qed
      from True r bc smaller [OF _ lc2] tok [OF _ nn] tok [OF _ n] show ?thesis
        by (simp add: Let_def RETURN_CHAR_def code_def split: if_splits)
    next
      case False
      have "Q" if "lex_token f L = Inr (L', t)" using left_lex_token [OF that c] by (simp add: Q_def)
      with False c r smaller [OF _ n] smaller [OF _ nl] smaller [OF _ lc] show ?thesis
        by (simp add: Let_def split: if_splits)
    qed
  qed
  then show ?case by (simp add: Q_def)
qed

lemma Lex_progress: "Lex f L = Inr (L', t) \<Longrightarrow> if t = 0 then currdata L' = NUL else left L' < left L"
  using Lex_loop_progress [of f "L\<lparr>lasttokenline := currentline L\<rparr>" L' t] by (simp add: Lex_def split: if_splits)

text \<open>All tokens of a text, as a client that asks for one after the other gets them.\<close>

function lex_all :: "(string \<Rightarrow> 32 word) \<Rightarrow> lexer \<Rightarrow> nat list lexes" where
  "lex_all f L =
     andthen (Lex f L) (\<lambda>(L', t). if t = 0 then Inr [] else andthen (lex_all f L') (\<lambda>ts. Inr (t # ts)))"
  by pat_completeness auto
termination
  by (relation "measure (\<lambda>(f, L). left L)") (use Lex_progress in fastforce)+

declare lex_all.simps [simp del]

lemma lex_all_bound: "lex_all f L = Inr ts \<Longrightarrow> length ts \<le> left L"
proof (induction f L arbitrary: ts rule: lex_all.induct)
  case (1 f L)
  from 1(2) obtain L' t where l: "Lex f L = Inr (L', t)" by (cases "Lex f L") (auto simp: lex_all.simps [of f L])
  show ?case
  proof (cases "t = 0")
    case True
    with 1(2) l show ?thesis by (simp add: lex_all.simps [of f L])
  next
    case False
    with 1(2) l obtain us where us: "lex_all f L' = Inr us" "ts = t # us"
      by (auto simp: lex_all.simps [of f L] andthen_Inr_iff)
    with 1(1) [OF l refl False] Lex_progress [OF l] False show ?thesis by simp
  qed
qed

text \<open>
  C18. Reading a text ends. A call of \<open>Lex\<close> that does not report an error returns a token other than 0 only
  after it has used up input, and returns 0 only at the end of the input; so a client that asks
  for tokens until it gets 0 stops, having got at most one token per character of the text.
\<close>
theorem lexing_ends:
  "(case Lex f L of Inr (L', t) \<Rightarrow> if t = 0 then currdata L' = NUL else left L' < left L | Inl e \<Rightarrow> True) \<and>
   (case lex_all f (Init txt junk) of Inr ts \<Rightarrow> length ts \<le> length txt | Inl e \<Rightarrow> True)"
proof (rule conjI)
  show "case Lex f L of Inr (L', t) \<Rightarrow> if t = 0 then currdata L' = NUL else left L' < left L | Inl e \<Rightarrow> True"
    using Lex_progress [of f L] by (auto split: sum.split)
  have "left (Init txt junk) \<le> length txt" by (auto simp: Init_def Next_def left_def split: list.split)
  then show "case lex_all f (Init txt junk) of Inr ts \<Rightarrow> length ts \<le> length txt | Inl e \<Rightarrow> True"
    using lex_all_bound [of f "Init txt junk"] by (auto split: sum.split intro: order_trans)
qed

section \<open>The text in front of the lexer\<close>

definition at_text :: "lexer \<Rightarrow> string \<Rightarrow> bool" where
  "at_text L s \<longleftrightarrow> (case s of [] \<Rightarrow> currdata L = NUL \<and> rest L = [] | c # cs \<Rightarrow> currdata L = c \<and> rest L = cs)"

lemma at_NEXT: "at_text L (c # cs) \<Longrightarrow> at_text (NEXT L) cs"
  by (auto simp: at_text_def NEXT_def Next_def split: list.splits)

lemma at_currdata: "at_text L (c # cs) \<Longrightarrow> currdata L = c"
  by (simp add: at_text_def)

lemma at_update [simp]:
  "at_text (L\<lparr>currentline := x\<rparr>) = at_text L" "at_text (L\<lparr>currentcolumn := x\<rparr>) = at_text L"
  "at_text (L\<lparr>prevtoken := y\<rparr>) = at_text L" "at_text (L\<lparr>curtoken := y\<rparr>) = at_text L"
  "at_text (L\<lparr>svalue := t\<rparr>) = at_text L" "at_text (L\<lparr>nvalue := x\<rparr>) = at_text L"
  "at_text (L\<lparr>fvalue := x\<rparr>) = at_text L" "at_text (L\<lparr>lasttokenline := x\<rparr>) = at_text L"
  by (simp_all add: at_text_def fun_eq_iff split: list.split)

lemma at_Init: "at_text (Init s junk) s"
  by (auto simp: at_text_def Init_def Next_def split: list.split)

section \<open>Decimal numbers\<close>

text \<open>What follows the number must not continue it.\<close>

definition ends_number :: "string \<Rightarrow> bool" where
  "ends_number r \<longleftrightarrow> (case r of [] \<Rightarrow> True | c # _ \<Rightarrow> \<not> scisalnum c \<and> c \<noteq> CHR ''.'')"

lemma ends_number_char:
  assumes "at_text L r" "ends_number r"
  shows "\<not> scisalnum (currdata L) \<and> currdata L \<noteq> CHR ''.''"
  using assms by (cases r) (auto simp: at_text_def ends_number_def)

lemma isexponent_alnum: "isexponent c \<Longrightarrow> scisalnum c"
  by (auto simp: isexponent_def scisalnum_def scisalpha_def code_def)

lemma read_decimal_digits:
  assumes "at_text L (ds @ r)" "\<forall>c\<in>set ds. scisdigit c" "ends_number r"
  shows "\<exists>L'. read_decimal TINT L buf = Inr (L', TINT, buf @ ds) \<and> at_text L' r"
  using assms
proof (induction ds arbitrary: L buf)
  case Nil
  then have "\<not> (currdata L = CHR ''.'' \<or> scisdigit (currdata L) \<or> isexponent (currdata L))"
    using ends_number_char [of L r] isexponent_alnum by (auto simp: scisalnum_def)
  with Nil show ?case by (simp add: read_decimal.simps [of TINT L])
next
  case (Cons d ds)
  then have c: "currdata L = d" "scisdigit d" using at_currdata [of L d "ds @ r"] by simp_all
  have d: "d \<noteq> CHR ''.''" "\<not> isexponent d" using c(2) by (auto simp: scisdigit_def isexponent_def code_def)
  have "at_text (NEXT L) (ds @ r)" using Cons(2) at_NEXT [of L d "ds @ r"] by simp
  from Cons(1) [OF this _ Cons(4), of "buf @ [d]"] Cons(3) obtain L' where
    "read_decimal TINT (NEXT L) (buf @ [d]) = Inr (L', TINT, (buf @ [d]) @ ds) \<and> at_text L' r" by auto
  then show ?case using c d by (auto simp: read_decimal.simps [of TINT L] Let_def)
qed

lemma digits_nat: "digits (int n) = char_of (48 + n mod 10) # (if n < 10 then [] else digits (int (n div 10)))"
proof -
  have "nat (int n mod 10) = n mod 10" by (simp add: nat_mod_distrib)
  moreover have "int n div 10 * sgn (int n) = int (n div 10)" by (simp add: sgn_if zdiv_int)
  ultimately show ?thesis unfolding digits.simps [of "int n"] Let_def by (auto simp: div_eq_0_iff)
qed

lemma code_digit: "d < 10 \<Longrightarrow> code (char_of (48 + d)) = 48 + d"
  by (simp add: code_def)

lemma digits_scisdigit: "\<forall>c\<in>set (digits (int n)). scisdigit c"
proof (induction n rule: less_induct)
  case (less n)
  have "scisdigit (char_of (48 + n mod 10))" by (simp add: scisdigit_def code_digit)
  with less [of "n div 10"] show ?case unfolding digits_nat [of n] by simp
qed

lemma LexInteger_digits: "LexInteger (rev (digits (int n))) = of_nat n"
proof (induction n rule: less_induct)
  case (less n)
  have step: "LexInteger (xs @ [char_of (48 + n mod 10)]) = LexInteger xs * 10 + of_nat (n mod 10)" for xs
    by (simp add: LexInteger_def code_digit)
  show ?case
  proof (cases "n < 10")
    case True
    then show ?thesis using step [of "[]"] unfolding digits_nat [of n] by (simp add: LexInteger_def)
  next
    case False
    then have "LexInteger (rev (digits (int n))) = of_nat (n div 10) * 10 + of_nat (n mod 10)"
      using less [of "n div 10"] step unfolding digits_nat [of n] by simp
    also have "\<dots> = of_nat (n div 10 * 10 + n mod 10)" by (simp only: of_nat_add of_nat_mult of_nat_numeral)
    finally show ?thesis by simp
  qed
qed

lemma leading_digit: "last (digits (int n)) = CHR ''0'' \<longrightarrow> n = 0"
proof (induction n rule: less_induct)
  case (less n)
  have "digits (int (n div 10)) \<noteq> []" by (subst digits_nat) simp
  moreover have "char_of (48 + n) = CHR ''0'' \<longrightarrow> n = 0" if "n < 10"
  proof
    assume "char_of (48 + n) = CHR ''0''"
    with code_digit [OF that] have "code (CHR ''0'') = 48 + n" by metis
    then show "n = 0" by (simp add: code_def)
  qed
  ultimately show ?case using less [of "n div 10"] unfolding digits_nat [of n] by (auto simp: div_eq_0_iff)
qed

lemma Lex_loop_digit:
  assumes "scisdigit (currdata L)"
  shows "Lex_loop f L = andthen (ReadNumber f L) (\<lambda>(L1, ret). RETURN_TOKEN L1 ret)"
proof -
  have "currdata L \<notin> {NUL, CHR 0x09, CHR 0x0D, CHR 0x0A, CHR '' '', CHR ''#'', CHR ''/'', CHR ''<'', CHR ''>'', CHR ''@'', CHR 0x22, CHR 0x27, CHR ''.''}"
    "pairs (currdata L) = None" "currdata L \<notin> set ''{}()[];,?^~''"
    using assms by (auto simp: scisdigit_def code_def pairs_def)
  with assms show ?thesis by (simp add: Lex_loop.simps [of f L] lex_token_def)
qed

lemma Lex_loop_decimal:
  assumes "at_text L (long2str (int n) @ r)" "ends_number r"
  shows "\<exists>L'. Lex_loop f L = Inr (L', TK_INTEGER) \<and> nvalue L' = of_nat n \<and> at_text L' r"
proof -
  obtain c cs where ds: "rev (digits (int n)) = c # cs" 
    using digits_decimal [of "int n"] by (cases "rev (digits (int n))") simp_all
  have at: "at_text L (c # cs @ r)" using assms(1) ds by (simp add: long2str_def)
  have dig: "scisdigit c" "\<forall>d\<in>set cs. scisdigit d"
    using digits_scisdigit [of n] arg_cong [OF ds, of set] by simp_all
  obtain L1 where L1: "read_decimal TINT (NEXT L) [c] = Inr (L1, TINT, c # cs)" "at_text L1 r"
    using read_decimal_digits [OF at_NEXT [OF at] dig(2) assms(2), of "[c]"] by auto
  have no: "\<not> (c = CHR ''0'' \<and> (currdata (NEXT L) = CHR ''x'' \<or> currdata (NEXT L) = CHR ''X'' \<or> scisodigit (currdata (NEXT L))))"
  proof (cases "c = CHR ''0''")
    case True
    then have "last (digits (int n)) = CHR ''0''" using ds by (metis hd_rev list.sel(1))
    then have "n = 0" using leading_digit by blast
    then have "cs = []" using ds unfolding digits_nat [of n] by simp
    then have "\<not> scisalnum (currdata (NEXT L))" using at_NEXT [OF at] ends_number_char assms(2) by simp
    then show ?thesis by (auto simp: scisalnum_def scisalpha_def scisodigit_def scisdigit_def code_def)
  qed simp
  have "read_number_text L = Inr (L1, TINT, c # cs)"
    unfolding read_number_text_def Let_def at_currdata [OF at] if_not_P [OF no] by (rule L1)
  then have num: "ReadNumber f L = Inr (L1\<lparr>nvalue := of_nat n\<rparr>, TK_INTEGER)"
    using LexInteger_digits [of n] ds by (simp add: ReadNumber_def)
  have "scisdigit (currdata L)" using at_currdata [OF at] dig(1) by simp
  then show ?thesis using num L1(2) by (simp add: Lex_loop_digit RETURN_TOKEN_def)
qed


text \<open>
  Decimal literals. The lexer reads the decimal text of any natural number, followed by something
  that does not continue it, as one integer token whose value is the number modulo 2^32, and stops right
  behind it. So what the machine prints for a non-negative integer is read back as that integer,
  and a literal that is too large wraps around silently.
\<close>
theorem decimal_literal:
  assumes "at_text L (long2str (int n) @ r)" "ends_number r"
  shows "\<exists>L'. Lex f L = Inr (L', TK_INTEGER) \<and> nvalue L' = of_nat n \<and> at_text L' r"
  using Lex_loop_decimal [of "L\<lparr>lasttokenline := currentline L\<rparr>" n r f] assms by (simp add: Lex_def)

theorem decimal_literal_witness:
  "\<exists>L'. Lex (\<lambda>_. 0) (Init ''4294967301;'' 0) = Inr (L', TK_INTEGER) \<and> nvalue L' = 5 \<and> at_text L' '';''"
proof -
  have "long2str 4294967301 = ''4294967301''" by code_simp
  then have t: "long2str (int 4294967301) = ''4294967301''" by simp
  have "at_text (Init ''4294967301;'' 0) (long2str (int 4294967301) @ '';'')" unfolding t using at_Init by simp
  from decimal_literal [OF this, of "\<lambda>_. 0"]
  have "\<exists>L'. Lex (\<lambda>_. 0) (Init ''4294967301;'' 0) = Inr (L', TK_INTEGER) \<and> nvalue L' = of_nat 4294967301 \<and> at_text L' '';''"
    by (simp add: ends_number_def scisalnum_def scisalpha_def scisdigit_def code_def)
  moreover have "(of_nat 4294967301 :: 32 word) = 5" by simp
  ultimately show ?thesis by metis
qed

end
