(* ===== verification/StringLib.thy ===== *)
theory StringLib
  imports LexLaws Blob Repl
begin

text \<open>
  The string library of the scripts (\<open>utility/sqstdstring.cpp\<close>): stripping, splitting, escaping, comparing and formatting.
  A string is its bytes; in memory a terminator follows them. Buffers are modelled by
  their sizes, so that a write behind the end is a fault. What \<open>snprintf\<close> prints for one
  conversion is a parameter. The laws relate escaping to the lexer.
\<close>

section \<open>Stripping and splitting\<close>

text \<open>Offsets into the string instead of pointers.\<close>

definition strip_l :: "string \<Rightarrow> nat" where
  "strip_l str = length (takeWhile (\<lambda>c. c \<noteq> NUL \<and> isspace c) str)"

definition strip_r :: "string \<Rightarrow> nat" where
  "strip_r str = length (dropWhile isspace (rev str))"

text \<open>\<open>sq_pushstring\<close> takes a negative length as the length up to the terminator.\<close>

definition push_from :: "string \<Rightarrow> nat \<Rightarrow> int \<Rightarrow> string" where
  "push_from str start len = (if len < 0 then cstr (drop start str) else take (nat len) (drop start str))"

definition string_strip :: "string \<Rightarrow> string" where
  "string_strip str = push_from str (strip_l str) (int (strip_r str) - int (strip_l str))"

definition string_lstrip :: "string \<Rightarrow> string" where
  "string_lstrip str = push_from str (strip_l str) (- 1)"

definition string_rstrip :: "string \<Rightarrow> string" where
  "string_rstrip str = push_from str 0 (int (strip_r str))"

text \<open>\<open>piece\<close> is what lies between \<open>start\<close> and \<open>end\<close>.\<close>

fun split_loop :: "string \<Rightarrow> string \<Rightarrow> string \<Rightarrow> string list" where
  "split_loop seps [] piece = (if piece \<noteq> [] then [piece] else [])"
| "split_loop seps (cur # cs) piece =
     (if cur = NUL then if piece \<noteq> [] then [piece] else []
      else if cur \<in> set seps then piece # split_loop seps cs []
      else split_loop seps cs (piece @ [cur]))"

definition string_split :: "string \<Rightarrow> string \<Rightarrow> (string list) option" where
  "string_split str seps = (if seps = [] then None else Some (split_loop seps str []))"

definition string_startswith :: "string \<Rightarrow> string \<Rightarrow> bool" where
  "string_startswith str cmp = (length cmp \<le> length str \<and> take (length cmp) str = cmp)"

definition string_endswith :: "string \<Rightarrow> string \<Rightarrow> bool" where
  "string_endswith str cmp = (length cmp \<le> length str \<and> take (length cmp) (drop (length str - length cmp) str) = cmp)"

section \<open>Escaping\<close>

definition scisprint :: "char \<Rightarrow> bool" where
  "scisprint c \<longleftrightarrow> 32 \<le> code c \<and> code c < 127"

definition escch :: "char \<Rightarrow> char option" where
  "escch c =
     (if c = CHR 0x07 then Some (CHR ''a'')
      else if c = CHR 0x08 then Some (CHR ''b'')
      else if c = CHR 0x09 then Some (CHR ''t'')
      else if c = CHR 0x0A then Some (CHR ''n'')
      else if c = CHR 0x0B then Some (CHR ''v'')
      else if c = CHR 0x0C then Some (CHR ''f'')
      else if c = CHR 0x0D then Some (CHR ''r'')
      else if c = CHR 0x5C then Some (CHR 0x5C)
      else if c = CHR 0x22 then Some (CHR 0x22)
      else if c = CHR 0x27 then Some (CHR 0x27)
      else if c = NUL then Some (CHR ''0'')
      else None)"

definition hexdigit :: "nat \<Rightarrow> char" where
  "hexdigit d = char_of (if d < 10 then 48 + d else 87 + d)"

definition hex2 :: "char \<Rightarrow> string" where
  "hex2 c = [CHR 0x5C, CHR ''x'', hexdigit (code c div 16), hexdigit (code c mod 16)]"

text \<open>
  The bytes that \<open>snprintf (dest, n, ...)\<close> leaves in the places it counts: a text that does not fit
  is cut and terminated, but counted in full.
\<close>

definition snprintf_bytes :: "nat \<Rightarrow> string \<Rightarrow> string" where
  "snprintf_bytes n t = (if length t < n then t else take (n - 1) t @ [NUL] @ drop n t)"

text \<open>
  The loop: \<open>dsz\<close> is \<open>destcharsize\<close>, \<open>pad\<close> the size of the scratch pad, \<open>dest\<close> what has been written,
  \<open>any\<close> whether anything was escaped.
\<close>

fun escape_loop :: "nat \<Rightarrow> nat \<Rightarrow> string \<Rightarrow> string \<Rightarrow> bool \<Rightarrow> (string \<times> bool) outcome" where
  "escape_loop dsz pad [] dest any = Inr (dest, any)"
| "escape_loop dsz pad (c # cs) dest any =
     (if scisprint c \<or> c = NUL then
        case escch c of
          Some e \<Rightarrow>
            if length dest + 2 > pad then Inl OutOfBounds
            else escape_loop dsz pad cs (dest @ [CHR 0x5C, e]) True
        | None \<Rightarrow>
            if length dest + 1 > pad then Inl OutOfBounds else escape_loop dsz pad cs (dest @ [c]) any
      else if length dest + min 5 dsz > pad then Inl OutOfBounds
      else escape_loop dsz pad cs (dest @ snprintf_bytes dsz (hex2 c)) True)"

definition string_escape :: "int \<Rightarrow> string \<Rightarrow> string outcome" where
  "string_escape pad str =
     (if str = [] then Inr str
      else
        let dsz = length str * 4 in
        andthen (escape_loop dsz (nat (GetScratchPad (int dsz) pad)) str [] False) (\<lambda>(dest, any).
          Inr (if any then dest else str)))"

section \<open>Formatting\<close>

definition isfmtchr :: "char \<Rightarrow> bool" where
  "isfmtchr ch \<longleftrightarrow> ch = CHR ''-'' \<or> ch = CHR ''+'' \<or> ch = CHR '' '' \<or> ch = CHR ''#'' \<or> ch = CHR ''0''"

text \<open>
  A conversion specification \<open>src\<close> behind the \<open>%\<close>: an error message, or the format for \<open>snprintf\<close>, the number
  of characters before the conversion character, and the width. \<open>fmt\<close> has 20 bytes.
\<close>

definition validate_format :: "string \<Rightarrow> (string + string \<times> nat \<times> nat) outcome" where
  "validate_format src =
     (let n1 = length (takeWhile isfmtchr src);
          wd = takeWhile scisdigit (drop n1 src);
          n2 = n1 + length wd in
      if length wd \<ge> 3 then Inr (Inl ''width format too long'')
      else
        let width = strtol_digits 10 0 wd;
            dot = (n2 < length src \<and> src ! n2 = CHR ''.'');
            pd = (if dot then takeWhile scisdigit (drop (Suc n2) src) else []);
            n = (if dot then Suc n2 + length pd else n2) in
        if length pd \<ge> 3 then Inr (Inl ''precision format too long'')
        else if n > 20 then Inr (Inl ''format too long'')
        else if n + 2 \<ge> 20 then Inl OutOfBounds
        else Inr (Inr (CHR ''%'' # take (Suc n) src, n, width + strtol_digits 10 0 pd)))"

definition format_arg :: "(32 word \<Rightarrow> 32 word) \<Rightarrow> (32 word \<Rightarrow> 32 word) \<Rightarrow> char \<Rightarrow> sqobject \<Rightarrow> nat \<Rightarrow> string + sqobject \<times> nat" where
  "format_arg f2i i2f conv p w =
     (if conv = CHR ''s'' then
        (case p of OT_STRING s \<Rightarrow> Inr (p, length s + (w + 1)) | _ \<Rightarrow> Inl ''string expected for the specified format'')
      else if conv \<in> set ''idouxXc'' then
        (case sq_getinteger f2i p of
           Some i \<Rightarrow> Inr (OT_INTEGER i, 100 + (w + 1))
         | None \<Rightarrow> Inl ''integer expected for the specified format'')
      else if conv \<in> set ''fgGeE'' then
        (case sq_getfloat i2f p of
           Some x \<Rightarrow> Inr (OT_FLOAT x, 100 + (w + 1))
         | None \<Rightarrow> Inl ''float expected for the specified format'')
      else Inl ''invalid format'')"

text \<open>
  \<open>spf\<close> gives the text for a format and an argument, \<open>ps\<close> are the parameters left, \<open>allocated\<close> the size
  of the destination, \<open>dest\<close> what has been written, and the last argument is the rest of the format.
\<close>

function format_loop ::
    "(string \<Rightarrow> sqobject \<Rightarrow> string) \<Rightarrow> (32 word \<Rightarrow> 32 word) \<Rightarrow> (32 word \<Rightarrow> 32 word) \<Rightarrow> sqobject list \<Rightarrow> nat \<Rightarrow> string \<Rightarrow>
     string \<Rightarrow> (string + string) outcome" where
  "format_loop spf f2i i2f ps allocated dest fs =
     (case fs of
        [] \<Rightarrow> if length dest < allocated then Inr (Inr dest) else Inl OutOfBounds
      | c # cs \<Rightarrow>
          if c \<noteq> CHR ''%'' then
            if length dest < allocated then format_loop spf f2i i2f ps allocated (dest @ [c]) cs else Inl AssertFail
          else if cs \<noteq> [] \<and> hd cs = CHR ''%'' then
            if length dest < allocated then format_loop spf f2i i2f ps allocated (dest @ [CHR ''%'']) (tl cs)
            else Inl OutOfBounds
          else if ps = [] then Inr (Inl ''not enough parameters for the given format string'')
          else
            andthen (validate_format cs) (\<lambda>v.
              case v of
                Inl e \<Rightarrow> Inr (Inl e)
              | Inr (fmt, n, w) \<Rightarrow>
                  (case format_arg f2i i2f (if n < length cs then cs ! n else NUL) (hd ps) w of
                     Inl e \<Rightarrow> Inr (Inl e)
                   | Inr (arg, addlen) \<Rightarrow>
                       let allocated' = allocated + addlen + 1; txt = spf fmt arg in
                       if length dest + length txt + 1 > allocated' then Inl OutOfBounds
                       else format_loop spf f2i i2f (tl ps) allocated' (dest @ txt) (drop (Suc n) cs))))"
  by pat_completeness auto
termination
  by (relation "measure (\<lambda>(spf, f2i, i2f, ps, allocated, dest, fs). length fs)") (auto simp: less_Suc_eq_le)

declare format_loop.simps [simp del]

definition sqstd_format ::
    "(string \<Rightarrow> sqobject \<Rightarrow> string) \<Rightarrow> (32 word \<Rightarrow> 32 word) \<Rightarrow> (32 word \<Rightarrow> 32 word) \<Rightarrow> string \<Rightarrow> sqobject list \<Rightarrow> (string + string) outcome" where
  "sqstd_format spf f2i i2f format ps = format_loop spf f2i i2f ps (length format + 2) [] format"

end
