(* ===== verification/StringLaws.thy ===== *)
theory StringLaws
  imports StringLib
begin

text \<open>
  Laws of the string library: stripping and splitting, what the lexer reads back from an escaped string, and the
  bounds of the buffers that escaping and formatting write to.
\<close>

section \<open>Stripping and splitting\<close>

lemma dropWhile_rev_prefix: "take (length (dropWhile P (rev m))) m = rev (dropWhile P (rev m))"
proof -
  have "m = rev (dropWhile P (rev m)) @ rev (takeWhile P (rev m))"
    by (metis rev_append rev_rev_ident takeWhile_dropWhile_id)
  then show ?thesis by (metis append_eq_conv_conj length_rev)
qed

text \<open>
  \<open>strip\<close> removes the blanks at both ends, also of a string of blanks only, where the computed length is negative.
\<close>
theorem string_strip_ok: "string_strip s = rev (dropWhile isspace (rev (dropWhile isspace s)))"
proof -
  have "(\<lambda>c. c \<noteq> NUL \<and> isspace c) = isspace" by (auto simp: isspace_def fun_eq_iff)
  then have l: "strip_l s = length (takeWhile isspace s)" by (simp add: strip_l_def)
  have m: "drop (strip_l s) s = dropWhile isspace s" unfolding l by (rule dropWhile_eq_drop [symmetric])
  let ?m = "dropWhile isspace s"
  show ?thesis
  proof (cases "?m = []")
    case True
    then have "\<forall>c\<in>set s. isspace c" by (simp add: dropWhile_eq_Nil_conv)
    then have "strip_r s = 0" by (simp add: strip_r_def dropWhile_eq_Nil_conv)
    moreover have "drop (strip_l s) s = []" using True m by simp
    ultimately show ?thesis unfolding string_strip_def push_from_def True by (simp add: cstr_def)
  next
    case False
    then have "\<not> isspace (hd ?m)" by (rule hd_dropWhile)
    moreover have "rev s = rev ?m @ rev (takeWhile isspace s)" by (metis rev_append takeWhile_dropWhile_id)
    ultimately have "dropWhile isspace (rev s) = dropWhile isspace (rev ?m) @ rev (takeWhile isspace s)"
      using False by (simp add: dropWhile_append1 [of "hd ?m"])
    then have "strip_r s = length (dropWhile isspace (rev ?m)) + strip_l s" by (simp add: strip_r_def l)
    then show ?thesis using m dropWhile_rev_prefix [of isspace ?m] by (simp add: string_strip_def push_from_def)
  qed
qed

fun join_with :: "char \<Rightarrow> string list \<Rightarrow> string" where
  "join_with sep [] = []"
| "join_with sep [p] = p"
| "join_with sep (p # ps) = p @ sep # join_with sep ps"

definition plain_piece :: "string \<Rightarrow> string \<Rightarrow> bool" where
  "plain_piece seps p \<longleftrightarrow> (\<forall>c\<in>set p. c \<noteq> NUL \<and> c \<notin> set seps)"

lemma split_loop_piece: "plain_piece seps p \<Longrightarrow> split_loop seps (p @ r) piece = split_loop seps r (piece @ p)"
  by (induction p arbitrary: piece) (auto simp: plain_piece_def)

lemma split_loop_join:
  "ps \<noteq> [] \<Longrightarrow> last ps \<noteq> [] \<Longrightarrow> \<forall>p\<in>set ps. plain_piece seps p \<Longrightarrow> sep \<in> set seps \<Longrightarrow> sep \<noteq> NUL \<Longrightarrow>
   split_loop seps (join_with sep ps) [] = ps"
proof (induction sep ps rule: join_with.induct)
  case (2 sep p)
  then show ?case using split_loop_piece [of seps p "[]" "[]"] by simp
next
  case (3 sep p q ps)
  then show ?case using split_loop_piece [of seps p "sep # join_with sep (q # ps)" "[]"] by simp
qed simp



section \<open>Escaping\<close>

definition escape_text :: "char \<Rightarrow> string" where
  "escape_text c =
     (if scisprint c \<or> c = NUL then case escch c of Some e \<Rightarrow> [CHR 0x5C, e] | None \<Rightarrow> [c] else hex2 c)"

lemma escape_text_length: "1 \<le> length (escape_text c) \<and> length (escape_text c) \<le> 4"
  by (auto simp: escape_text_def hex2_def split: option.split)

lemma escape_loop_ok:
  assumes "8 \<le> dsz \<or> (\<forall>c\<in>set str. scisprint c \<or> c = NUL)" "length dest + 4 * length str < pad"
  shows "\<exists>b. escape_loop dsz pad str dest any = Inr (dest @ concat (map escape_text str), b) \<and>
           (b \<or> \<not> any \<and> concat (map escape_text str) = str)"
  using assms
proof (induction str arbitrary: dest any)
  case (Cons c cs)
  let ?t = "escape_text c"
  have "8 \<le> dsz \<or> (\<forall>c\<in>set cs. scisprint c \<or> c = NUL)" "length (dest @ ?t) + 4 * length cs < pad" 
    using Cons(2,3) escape_text_length [of c] by auto
  note IH = Cons(1) [OF this]
  consider "scisprint c \<or> c = NUL" "escch c = None" | e where "scisprint c \<or> c = NUL" "escch c = Some e"
    | "\<not> (scisprint c \<or> c = NUL)"
    by (cases "escch c") auto
  then show ?case
  proof cases
    case 1
    then have "?t = [c]" by (simp add: escape_text_def)
    with 1 IH [of any] Cons(3) show ?thesis by auto
  next
    case (2 e)
    then have "?t = [CHR 0x5C, e]" by (simp add: escape_text_def)
    with 2 IH [of True] Cons(3) show ?thesis by auto
  next
    case 3
    then have "?t = hex2 c" by (simp add: escape_text_def)
    moreover have "8 \<le> dsz" using 3 Cons(2) by simp
    ultimately show ?thesis using 3 IH [of True] Cons(3) by (auto simp: snprintf_bytes_def hex2_def)
  qed
qed simp


lemma GetScratchPad_ge: "0 < sz \<Longrightarrow> sz \<le> GetScratchPad sz pad"
  by (auto simp: GetScratchPad_def)

definition escape_fits :: "int \<Rightarrow> string \<Rightarrow> bool" where
  "escape_fits pad s \<longleftrightarrow>
     int (length s * 4) < GetScratchPad (int (length s * 4)) pad \<and> (length s = 1 \<longrightarrow> scisprint (hd s) \<or> hd s = NUL)"

lemma string_escape_text:
  assumes "escape_fits pad s"
  shows "string_escape pad s = Inr (concat (map escape_text s))"
proof (cases "s = []")
  case False
  let ?pad = "nat (GetScratchPad (int (length s * 4)) pad)"
  have "8 \<le> length s * 4 \<or> (\<forall>c\<in>set s. scisprint c \<or> c = NUL)"
    using assms False by (cases s rule: list.exhaust [case_names Nil Cons]) (auto simp: escape_fits_def Suc_le_eq)
  moreover have "length s * 4 < ?pad" using assms unfolding escape_fits_def zless_nat_eq_int_zless by blast
  ultimately obtain b where "escape_loop (length s * 4) ?pad s [] False = Inr (concat (map escape_text s), b)"
      "b \<or> concat (map escape_text s) = s"
    using escape_loop_ok [of "length s * 4" s "[]" ?pad False] by (auto simp: mult.commute)
  then show ?thesis using False by (auto simp: string_escape_def Let_def simp del: of_nat_mult)
qed (simp add: string_escape_def)

lemma hexdigit_ok: "d < 16 \<Longrightarrow> scisxdigit (hexdigit d) \<and> xdigit (hexdigit d) = d"
  by (simp add: hexdigit_def scisxdigit_def scisdigit_def xdigit_def code_def)

lemma code_less [simp]: "code c < 256"
  by (simp add: code_def)

lemma char_of_code [simp]: "char_of (code c) = c"
  by (simp add: code_def)

lemma read_hex_escape:
  assumes "at_text L (hex2 c @ r)" 
  shows "\<exists>L'. read_chars (CHR 0x22) False L buf = read_chars (CHR 0x22) False L' (buf @ [c]) \<and> at_text L' r"
proof -
  let ?h = "hexdigit (code c div 16)" and ?l = "hexdigit (code c mod 16)"
  have d: "scisxdigit ?h \<and> xdigit ?h = code c div 16" "scisxdigit ?l \<and> xdigit ?l = code c mod 16"
    using hexdigit_ok [of "code c div 16"] hexdigit_ok [of "code c mod 16"] code_less [of c] by linarith+
  let ?L1 = "NEXT L" let ?L2 = "NEXT ?L1" let ?L3 = "NEXT ?L2" let ?L4 = "NEXT ?L3"
  have at: "at_text L (CHR 0x5C # CHR ''x'' # ?h # ?l # r)" using assms by (simp add: hex2_def)
  note at1 = at_NEXT [OF at] note at2 = at_NEXT [OF at1] note at3 = at_NEXT [OF at2] note at4 = at_NEXT [OF at3]
  note cur = at_currdata [OF at] at_currdata [OF at1] at_currdata [OF at2] at_currdata [OF at3]
  have "xdigits 2 ?L2 = (?L4, [?h, ?l])" using d cur by (simp add: numeral_2_eq_2)
  then have "ProcessStringHexEscape ?L1 2 = Inr (?L4, [?h, ?l])" using d cur by (simp add: ProcessStringHexEscape_def Let_def)
  moreover have "hex_value [?h, ?l] = code c" using d by (simp add: hex_value_def)
  ultimately have "read_chars (CHR 0x22) False L buf = read_chars (CHR 0x22) False ?L4 (buf @ [c])"
    using cur by (simp add: read_chars.simps [of _ _ L] Let_def)
  with at4 show ?thesis by blast
qed

lemma escch_printable:
  assumes "scisprint c \<or> c = NUL" "escch c = Some e"
  shows "simple_escape e = Some c \<and> e \<notin> {CHR ''x'', CHR ''u'', CHR ''U''}"
  using assms by (auto simp: escch_def simple_escape_def scisprint_def code_def split: if_splits)

lemma read_escape:
  assumes "at_text L (escape_text c @ r)"
  shows "\<exists>L'. read_chars (CHR 0x22) False L buf = read_chars (CHR 0x22) False L' (buf @ [c]) \<and> at_text L' r"
proof -
  consider "scisprint c \<or> c = NUL" "escch c = None" | e where "scisprint c \<or> c = NUL" "escch c = Some e"
    | "\<not> (scisprint c \<or> c = NUL)"
    by (cases "escch c") auto
  then show ?thesis
  proof cases
    case 1
    then have at: "at_text L (c # r)" using assms by (simp add: escape_text_def)
    have "c \<notin> {CHR 0x22, NUL, CHR 0x0A, CHR 0x5C}" using 1(2) by (auto simp: escch_def)
    then have "read_chars (CHR 0x22) False L buf = read_chars (CHR 0x22) False (NEXT L) (buf @ [c])"
      using at_currdata [OF at] by (simp add: read_chars.simps [of _ _ L])
    with at_NEXT [OF at] show ?thesis by blast
  next
    case (2 e)
    then have at: "at_text L (CHR 0x5C # e # r)" using assms by (simp add: escape_text_def)
    note cur = at_currdata [OF at] at_currdata [OF at_NEXT [OF at]]
    have "read_chars (CHR 0x22) False L buf = read_chars (CHR 0x22) False (NEXT (NEXT L)) (buf @ [c])"
      using cur escch_printable [OF 2] by (simp add: read_chars.simps [of _ _ L] Let_def)
    with at_NEXT [OF at_NEXT [OF at]] show ?thesis by blast
  next
    case 3
    then have "at_text L (hex2 c @ r)" using assms by (simp add: escape_text_def)
    then show ?thesis by (rule read_hex_escape)
  qed
qed

lemma read_escaped:
  "at_text L (concat (map escape_text s) @ CHR 0x22 # r) \<Longrightarrow>
   \<exists>L'. read_chars (CHR 0x22) False L buf = Inr (L', buf @ s) \<and> at_text L' r"
proof (induction s arbitrary: L buf)
  case Nil
  then have at: "at_text L (CHR 0x22 # r)" by simp
  then show ?case using at_currdata [OF at] at_NEXT [OF at] by (simp add: read_chars.simps [of _ _ L] Let_def)
next
  case (Cons c s)
  then obtain L1 where "read_chars (CHR 0x22) False L buf = read_chars (CHR 0x22) False L1 (buf @ [c])"
    "at_text L1 (concat (map escape_text s) @ CHR 0x22 # r)"
    using read_escape [of L c "concat (map escape_text s) @ CHR 0x22 # r" buf] by auto
  with Cons(1) [of L1 "buf @ [c]"] show ?case by auto
qed

lemma Lex_loop_quote:
  assumes "currdata L = CHR 0x22"
  shows "Lex_loop f L = lex_string (CHR 0x22) False L"
  using assms by (simp add: Lex_loop.simps [of f L] lex_token_def pairs_def)

lemma Lex_escaped:
  assumes "at_text L (CHR 0x22 # concat (map escape_text s) @ CHR 0x22 # r)"
  shows "\<exists>L'. Lex f L = Inr (L', TK_STRING_LITERAL) \<and> svalue L' = s \<and> at_text L' r"
proof -
  let ?L = "L\<lparr>lasttokenline := currentline L\<rparr>"
  have at: "at_text ?L (CHR 0x22 # concat (map escape_text s) @ CHR 0x22 # r)" using assms by simp
  obtain L' where L': "read_chars (CHR 0x22) False (NEXT ?L) [] = Inr (L', s)" "at_text L' r"
    using read_escaped [OF at_NEXT [OF at], of "[]"] by auto
  have "currdata (NEXT ?L) \<noteq> NUL"
  proof
    assume "currdata (NEXT ?L) = NUL"
    with L'(1) show False by (simp add: read_chars.simps [of _ _ "NEXT ?L"])
  qed
  then have "ReadString (CHR 0x22) False ?L = Inr (L'\<lparr>svalue := s\<rparr>, Some TK_STRING_LITERAL)"
    using L'(1) by (simp add: ReadString_def Let_def)
  then show ?thesis using at_currdata [OF at] L'(2) by (simp add: Lex_def Lex_loop_quote lex_string_def RETURN_TOKEN_def)
qed

text \<open>
  C9. Escaping and lexing are inverse. For every string, apart from a single byte that is not printable, the result of \<open>escape\<close>
  between quotation marks is one string token for the lexer, its value is the string, and the lexer
  stops behind it. The scratch pad must have one byte more than \<open>escape\<close> asks for.
\<close>
theorem escape_then_lex:
  assumes "escape_fits pad s" "at_text L (CHR 0x22 # e @ CHR 0x22 # r)" "string_escape pad s = Inr e"
  shows "\<exists>L'. Lex f L = Inr (L', TK_STRING_LITERAL) \<and> svalue L' = s \<and> at_text L' r"
  using Lex_escaped assms string_escape_text [OF assms(1)] by simp

theorem escape_then_lex_witness:
  "\<exists>L'. Lex (\<lambda>_. 0) (Init (CHR 0x22 # [CHR ''a'', CHR 0x5C, CHR ''x'', CHR ''0'', CHR ''a''] @ CHR 0x22 # '';'') 0) = Inr (L', TK_STRING_LITERAL) \<and>
     svalue L' = [CHR ''a'', CHR 0x0A] \<and> at_text L' '';''"
proof (rule escape_then_lex [of 100])
  show "string_escape 100 [CHR ''a'', CHR 0x0A] = Inr [CHR ''a'', CHR 0x5C, CHR ''x'', CHR ''0'', CHR ''a'']"
    by code_simp
qed (simp_all add: escape_fits_def GetScratchPad_def at_Init)


section \<open>Formatting\<close>

text \<open>
  What is assumed of \<open>snprintf\<close>: a conversion prints no more than its string argument or 100 characters, plus the width and
  precision asked for. (Without them an integer takes at most 12 characters and a float at most 47.)
\<close>

definition printf_bounded :: "(string \<Rightarrow> sqobject \<Rightarrow> string) \<Rightarrow> bool" where
  "printf_bounded spf \<longleftrightarrow>
     (\<forall>src fmt n w. validate_format src = Inr (Inr (fmt, n, w)) \<longrightarrow>
        (\<forall>s. length (spf fmt (OT_STRING s)) \<le> length s + w) \<and>
        (\<forall>i. length (spf fmt (OT_INTEGER i)) \<le> 100 + w) \<and>
        (\<forall>x. length (spf fmt (OT_FLOAT x)) \<le> 100 + w))"

definition spec_char :: "char \<Rightarrow> bool" where
  "spec_char c \<longleftrightarrow> isfmtchr c \<or> scisdigit c \<or> c = CHR ''.''"

text \<open>No run of more than 17 characters that can stand between \<open>%\<close> and the conversion character.\<close>

fun short_specs :: "string \<Rightarrow> bool" where
  "short_specs [] \<longleftrightarrow> True"
| "short_specs (c # cs) \<longleftrightarrow> length (takeWhile spec_char (c # cs)) \<le> 17 \<and> short_specs cs"

lemma short_specs_run: "short_specs s \<Longrightarrow> length (takeWhile spec_char s) \<le> 17"
  by (cases s) auto

lemma short_specs_drop: "short_specs s \<Longrightarrow> short_specs (drop n s)"
  by (induction s arbitrary: n) (auto simp: drop_Cons split: nat.split)

lemma run_prefix: "\<forall>c\<in>set a. R c \<Longrightarrow> length a \<le> length (takeWhile R (a @ b))"
  by (simp add: takeWhile_append2)

lemma takeWhile_split: obtains b where "s = takeWhile P s @ b" "drop (length (takeWhile P s)) s = b"
  by (metis dropWhile_eq_drop takeWhile_dropWhile_id)

lemma validate_format_ok:
  assumes "length (takeWhile spec_char src) \<le> 17"
  shows "\<exists>r. validate_format src = Inr r"
proof -
  let ?f = "takeWhile isfmtchr src"
  obtain s1 where s1: "src = ?f @ s1" "drop (length ?f) src = s1" by (rule takeWhile_split)
  let ?wd = "takeWhile scisdigit s1"
  obtain s2 where s2: "s1 = ?wd @ s2" "drop (length ?wd) s1 = s2" by (rule takeWhile_split)
  have src: "src = ?f @ ?wd @ s2" using s1(1) s2(1) by metis
  have f: "\<forall>c\<in>set ?f. spec_char c" and wd: "\<forall>c\<in>set ?wd. spec_char c"
    by (auto simp: spec_char_def dest: set_takeWhileD)
  let ?n2 = "length ?f + length ?wd"
  have "\<forall>c\<in>set (?f @ ?wd). spec_char c" using f wd by auto
  from run_prefix [OF this, of s2] have n2: "?n2 \<le> 17" using assms src by simp
  show ?thesis
  proof (cases "?n2 < length src \<and> src ! ?n2 = CHR ''.''")
    case True
    have "drop ?n2 src = s2" using s1(2) s2(2) by (simp add: drop_drop [symmetric] add.commute)
    then have s3: "s2 = CHR ''.'' # drop (Suc ?n2) src" using True by (metis Cons_nth_drop_Suc)
    let ?pd = "takeWhile scisdigit (drop (Suc ?n2) src)"
    obtain s4 where s4: "drop (Suc ?n2) src = ?pd @ s4" by (rule takeWhile_split)
    have "\<forall>c\<in>set (?f @ ?wd @ CHR ''.'' # ?pd). spec_char c" using f wd by (auto simp: spec_char_def dest: set_takeWhileD)
    from run_prefix [OF this, of s4] have "?n2 + Suc (length ?pd) \<le> length (takeWhile spec_char src)"
      using src s3 s4 by simp
    then show ?thesis using assms True by (simp add: validate_format_def Let_def s1(2))
  next
    case False
    with n2 show ?thesis by (auto simp: validate_format_def Let_def s1(2))
  qed
qed

lemma format_arg_bound:
  assumes "printf_bounded spf" "validate_format src = Inr (Inr (fmt, n, w))" "format_arg f2i i2f conv p w = Inr (arg, addlen)"
  shows "length (spf fmt arg) + 1 \<le> addlen"
proof -
  note b = assms(1) [unfolded printf_bounded_def, rule_format, OF assms(2)]
  show ?thesis
  proof (cases "conv = CHR ''s''")
    case True
    with assms(3) b show ?thesis by (cases p) (auto simp: format_arg_def)
  next
    case False
    then have "(\<exists>i. arg = OT_INTEGER i) \<or> (\<exists>x. arg = OT_FLOAT x)" "addlen = 100 + (w + 1)"
      using assms(3) unfolding format_arg_def if_not_P [OF False] by (auto simp del: list.set split: if_split_asm option.split_asm)
    with b show ?thesis by auto
  qed
qed

lemma format_loop_ok:
  assumes "printf_bounded spf"
  shows "short_specs fs \<Longrightarrow> length dest + length fs + 2 \<le> allocated \<Longrightarrow> \<exists>r. format_loop spf f2i i2f ps allocated dest fs = Inr r"
proof (induction "length fs" arbitrary: fs dest allocated ps rule: less_induct)
  case less
  show ?case
  proof (cases fs)
    case Nil
    then show ?thesis using less(3) by (simp add: format_loop.simps [of _ _ _ _ _ _ "[]"])
  next
    case (Cons c cs)
    have fits: "length dest < allocated" using less(3) by simp
    have cs: "short_specs cs" using less(2) Cons by simp
    note step = format_loop.simps [of spf f2i i2f ps allocated dest fs, unfolded Cons list.case]
    consider "c \<noteq> CHR ''%''" | "c = CHR ''%''" "cs \<noteq> [] \<and> hd cs = CHR ''%''" | "c = CHR ''%''" "\<not> (cs \<noteq> [] \<and> hd cs = CHR ''%'')" "ps = []"
      | "c = CHR ''%''" "\<not> (cs \<noteq> [] \<and> hd cs = CHR ''%'')" "ps \<noteq> []"
      by blast
    then show ?thesis
    proof cases
      case 1
      then show ?thesis unfolding Cons step using fits cs less(1) [of cs "dest @ [c]" allocated ps] less(3) Cons by simp
    next
      case 2
      have "short_specs (tl cs)" using short_specs_drop [OF cs, of 1] by (simp add: drop_Suc)
      then show ?thesis unfolding Cons step using 2 fits less(1) [of "tl cs" "dest @ [CHR ''%'']" allocated ps] less(3) Cons by simp
    next
      case 3
      then show ?thesis unfolding Cons step if_not_P [OF 3(2)] by simp
    next
      case 4
      obtain v where v: "validate_format cs = Inr v" using validate_format_ok [OF short_specs_run [OF cs]] by blast
      show ?thesis
      proof (cases v)
        case (Inl e)
        with 4 v show ?thesis unfolding Cons step if_not_P [OF 4(2)] by simp
      next
        case (Inr t)
        then obtain fmt n w where t: "v = Inr (fmt, n, w)" by (cases t) simp
        show ?thesis
        proof (cases "format_arg f2i i2f (if n < length cs then cs ! n else NUL) (hd ps) w")
          case (Inl e)
          with 4 v t show ?thesis unfolding Cons step if_not_P [OF 4(2)] by simp
        next
          case (Inr q)
          then obtain arg addlen where q: "q = (arg, addlen)" by (cases q) simp
          have "length (spf fmt arg) + 1 \<le> addlen" using format_arg_bound [OF assms] v t Inr q by simp
          then show ?thesis unfolding Cons step if_not_P [OF 4(2)]
            using 4 v t Inr q less(3) Cons short_specs_drop [OF cs, of "Suc n"]
              less(1) [of "drop (Suc n) cs" "dest @ spf fmt arg" "allocated + addlen + 1" "tl ps"] by simp
        qed
      qed
    qed
  qed
qed

text \<open>
  C24. Formatting stays inside its buffers. If no run of flags, digits and dots in the format has more than 17 characters, then for
  any parameters \<open>format\<close> returns or reports an error, and never writes behind the conversion
  specification's 20 bytes or behind the scratch pad; its assertion holds as well. What
  \<open>snprintf\<close> prints is bounded by assumption.
\<close>
theorem format_within_buffers:
  assumes "printf_bounded spf" "short_specs format"
  shows "\<exists>r. sqstd_format spf f2i i2f format ps = Inr r"
  using format_loop_ok [OF assms(1,2), of "[]"] by (simp add: sqstd_format_def)

theorem format_within_buffers_witness:
  "\<exists>r. sqstd_format (\<lambda>fmt arg. case arg of OT_STRING s \<Rightarrow> s | _ \<Rightarrow> ''42'') (\<lambda>x. x) (\<lambda>x. x) ''%5d of %s%%'' [OT_INTEGER 42, OT_STRING ''x''] = Inr r"
proof (rule format_within_buffers)
  show "printf_bounded (\<lambda>fmt arg. case arg of OT_STRING s \<Rightarrow> s | _ \<Rightarrow> ''42'')" by (simp add: printf_bounded_def)
  show "short_specs ''%5d of %s%%''" by (simp add: spec_char_def isfmtchr_def scisdigit_def code_def)
qed

text \<open>
  A specification with 18, 19 or 20 flags passes the check of its length, which allows for the 20 bytes of the
  buffer but not for the percent sign, the conversion character and the terminator, and is copied behind the end of the buffer.
\<close>
theorem long_specification_overflows:
  assumes "k \<in> {18, 19, 20}" "ps \<noteq> []"
  shows "sqstd_format spf f2i i2f (CHR ''%'' # replicate k (CHR ''-'') @ ''d'') ps = Inl OutOfBounds"
proof -
  have "takeWhile isfmtchr (replicate k (CHR ''-'') @ ''d'') = replicate k (CHR ''-'')"
    by (subst takeWhile_append2) (auto simp: isfmtchr_def)
  then have "validate_format (replicate k (CHR ''-'') @ ''d'') = Inl OutOfBounds"
    using assms(1) by (auto simp: validate_format_def Let_def scisdigit_def code_def nth_append)
  moreover have "hd (replicate k (CHR ''-'') @ ''d'') \<noteq> CHR ''%''" using assms(1) by auto
  ultimately show ?thesis using assms(2) by (simp add: sqstd_format_def format_loop.simps [of _ _ _ _ _ _ "_ # _"])
qed

theorem long_specification_overflows_witness:
  "sqstd_format (\<lambda>_ _. []) (\<lambda>x. x) (\<lambda>x. x) (CHR ''%'' # replicate 18 (CHR ''-'') @ ''d'') [OT_INTEGER 1] = Inl OutOfBounds"
  by (rule long_specification_overflows) simp_all

end
