(* ===== verification/Spec2Isabelle.thy ===== *)
theory Spec2Isabelle
  imports TableMap PoolLive Loading Repl Config Services StringTable RefTable ArrayOps FileIO Arith StringLaws
begin

text \<open>
  Acorns runs many small Squirrel programs on one microcontroller. This development models the program
  manager written for it (\<open>src/acorns.cpp\<close>) and those parts of the interpreter and its libraries
  (\<open>src/utility\<close>) that the manager and the scripts rest on, and proves what they promise.

  \<^bold>\<open>The program and its parts.\<close> A fixed table of programs, each with an interpreter of its own below a
  root interpreter, is protected by one global lock. Requests to run something on a program go through
  a queue to four pool threads. Programs are loaded from strings, files or an input buffer that is
  filled piece by piece; a console on the serial line runs what is typed; settings live in an INI
  file; scripts import modules, read directories and accept callbacks. Below that are the values of
  the interpreter, its hash tables (used for every script table, for the keywords and the modules),
  the table of interned strings, the references native code holds, arrays and their sort, arithmetic,
  the lexer, and the libraries for strings, blobs, streams and files.

  \<^bold>\<open>How code becomes definitions.\<close> A struct is a record, an enumeration or tagged union a datatype, and
  the target is the 32-bit ESP32: integers are words of their width (\<open>char\<close> has 8 bits and no sign)
  where overflow matters and unbounded where their size is otherwise limited. Addresses are
  numbers and the heap is a map. An operation returns an \<open>outcome\<close>: a result, or the fault that the
  C++ code runs into (a null or dangling pointer, an access outside of a block, a failed
  assertion, a division by zero, a loop without end). So the absence of faults is a theorem where it holds, and where it
  does not the fault is exhibited. Errors that scripts see are ordinary results. A leading underscore of
  a C++ name is written \<open>u_\<close>; a method takes a prefix where its name alone would be ambiguous.

  \<^bold>\<open>The theories.\<close>

  \<^item> \<open>Prelude\<close>: outcomes, C strings, word lemmas, and the two contracts used throughout: \<open>step_invariant\<close>
    (an invariant kept by a step relation) and \<open>simulation\<close> (an implementation that follows a specification
    along any sequence of operations).
  \<^item> \<open>SqObject\<close>, \<open>SqTable\<close>: values, hashing, and every operation of \<open>SQTable\<close> (\<open>sqtable.cpp\<close>) on the array of
    nodes with its chains and free pointer. \<open>TableChains\<close> has the invariant on the chains, and \<open>TableMap\<close> shows that
    any history of insertions, updates, removals and clearings implements a finite map, and that the
    iteration visits each entry once. The locale \<open>slot_inserter\<close> is what rehashing needs of insertion.
  \<^item> \<open>Rng\<close>: the generator (\<open>doRandom\<close>) equals PCG32; \<open>random\<close> and the quotes in flash memory.
  \<^item> \<open>Programs\<close>, \<open>Loading\<close>: the table of programs of \<open>acorns.cpp\<close> with its reference and busy counts, requests,
    input buffers, loading and closing. The theorems say that a loaded program is running, a closed one is gone,
    and a buffer filled in pieces holds their concatenation.
  \<^item> \<open>Pool\<close>, \<open>PoolLive\<close>: the pool threads (\<open>InterpreterTask\<close>) and the other tasks as a step relation whose
    steps are the sections that hold the lock. In all reachable states the 8-bit counts are exact, no thread touches a freed program
    and no two threads run the same one; and the pool cannot get stuck.
  \<^item> \<open>Repl\<close>: the console (\<open>replChar\<close>): it stays in its growing block and runs the text that was typed.
  \<^item> \<open>IniFile\<close>, \<open>IniLines\<close>, \<open>IniEdit\<close>, \<open>IniMap\<close>, \<open>IniStore\<close>: minIni (\<open>minIni.cpp\<close>) over a store of files. A
    setting that was written is read back, other settings stay, and numbers survive; the locale
    \<open>settings_store\<close> carries this over to sequences of writes.
  \<^item> \<open>Config\<close>: the configuration functions over the INI file refine a map (an instance of \<open>settings_store\<close>).
  \<^item> \<open>Services\<close>: modules, directories, callbacks and native functions.
  \<^item> \<open>Links\<close>, \<open>StringTable\<close>, \<open>RefTable\<close>: the two chained tables of \<open>sqstate.cpp\<close>. Equal strings become one block
    (locale \<open>interning\<close>) and references are counted, through all growth of the tables.
  \<^item> \<open>HeapSort\<close>: \<open>ObjCmp\<close> and \<open>array.sort\<close>; with a consistent comparison (locale \<open>consistent\<close>) the result is a
    sorted permutation.
  \<^item> \<open>Arrays\<close>, \<open>ArrayOps\<close>: \<open>sqvector\<close> and \<open>SQArray\<close> with the allocator below; any sequence of array operations
    that fits in memory implements the operations on lists.
  \<^item> \<open>Blob\<close>, \<open>BlobLaws\<close>, \<open>Streams\<close>, \<open>StreamLaws\<close>, \<open>FileIO\<close>: blobs are bytes with a position; the stream functions
    are written once over the virtual functions, and the locale \<open>byte_stream\<close> is the contract that
    blobs and files both meet. Numbers and strings written to a stream are read back, and the
    buffered reader feeds the compiler exactly the bytes of the file.
  \<^item> \<open>Arith\<close>: type tags, arithmetic, comparison and conversion to strings in \<open>sqvm.cpp\<close>, and the
    instructions that inline them; the types of results, the laws of integer division, and where
    instructions and operations agree.
  \<^item> \<open>Lexer\<close>, \<open>LexLaws\<close>: the whole of \<open>sqlexer.cpp\<close>. Every token uses up input, so reading a text ends; decimal
    literals have their value modulo 2^32.
  \<^item> \<open>StringLib\<close>, \<open>StringLaws\<close>: strip, split, escape, comparisons and format of \<open>sqstdstring.cpp\<close>. The lexer reads an escaped string
    back, splitting undoes joining, and formatting stays in its buffers.

  This theory has the property that spans the machine's printing and the lexer.

  \<^bold>\<open>Bounds and fuel.\<close> Loops are recursions with a termination proof where the code bounds them. Walks
  along pointers have fuel and give \<open>Diverges\<close> or no result without enough of it: the chains of the hash table
  get the number of nodes, those of the string and reference tables the number of their cells, the walk from a
  program to its parents two steps. The refinement theorems show that these are enough, since
  they state results and not only what holds of a result. \<open>mem\<close> is the largest block that can be
  allocated; statements about arrays and blobs say what must fit in it. The constants (25 queued requests,
  4 threads, 8 programs, lines of 512 bytes, buffers of 20 bytes for a format) are those of the code.

  \<^bold>\<open>Parameters and assumptions.\<close> Compiling and calling scripts, metamethods, float arithmetic, \<open>strtod\<close>, the
  printing of floats and of one conversion of \<open>snprintf\<close>, the clock and the hardware random source
  are arguments of the definitions. Between two sections that hold the lock the other tasks act: in
  \<open>Programs\<close> and \<open>Loading\<close> as a given sequence of changes, in \<open>Pool\<close> as steps. The initial contents of
  uninitialised members are arguments too; the theorems on the pool assume that the
  root's reference count, which nothing initialises, is neither 0 nor near the 8-bit limit.

  \<^bold>\<open>Not modelled.\<close> The instruction loop, calls and exceptions of the virtual machine, the compiler
  behind the lexer and serialised closures: a statement about them needs a semantics of the language, which the
  repository does not contain. Reference counting and garbage collection of script objects: the component theories never free
  such objects, values refer to them by address. The regular expression matcher, classes and generators, and the
  functions of the native interface that only move values on the machine's stack. The bindings for Arduino hardware, the file layer for
  ESP8266, time, mathematics and debugging output are calls of outside libraries without state of
  their own. Failure of the allocation of a new program block is not modelled either, since the
  code does not test for it, and minIni is modelled for file names that do not end in a tilde.
\<close>

text \<open>
  C29. A non-negative integer survives printing and reading. The text the machine gives for the
  integer (\<open>ToString\<close>), followed by anything that does not continue a number, is one integer token for
  the lexer, with the same value.
\<close>
theorem printed_integer_reads_back:
  assumes "0 \<le> sint i" "ToString e (OT_INTEGER i) = Some s" "at_text L (s @ r)" "ends_number r"
  shows "\<exists>L'. Lex f L = Inr (L', TK_INTEGER) \<and> nvalue L' = i \<and> at_text L' r"
proof -
  have u: "sint i = int (unat i)" using sint_nonneg [OF assms(1)] by simp
  then have "at_text L (long2str (int (unat i)) @ r)" using assms(2,3) by (simp add: ToString_def)
  from decimal_literal [OF this assms(4), of f] show ?thesis by simp
qed

theorem printed_integer_reads_back_witness:
  "\<exists>L'. Lex (\<lambda>_. 0) (Init ''42;'' 0) = Inr (L', TK_INTEGER) \<and> nvalue L' = 42 \<and> at_text L' '';''"
proof (rule printed_integer_reads_back [of 42 sample_env "''42''"])
  have "long2str 42 = ''42''" by code_simp
  then show "ToString sample_env (OT_INTEGER 42) = Some ''42''" by (simp add: ToString_def)
qed (simp_all add: at_Init ends_number_def scisalnum_def scisalpha_def scisdigit_def code_def)

end
